(* ===== verification/Prelude.thy ===== *)
theory Prelude
  imports Main "HOL-Library.Word" "HOL-Library.Multiset"
begin

text \<open>
  Shared vocabulary of the development: the machine integer types of
  \<^verbatim>\<open>util/int_types.h\<close>, the error codes of \<^verbatim>\<open>util/error.h\<close>, the collections that
  carry the component proofs, and generic facts about words and lists.

  \<^item> A C unsigned integer of width w is a \<open>w word\<close>: \<open>+\<close>, \<open>-\<close>, \<open>*\<close> wrap around.
    \<open>size_t\<close> is 64 bits wide, as on the enclave's platform.
  \<^item> An \<open>error_t\<close> is the integer value of the enumerator, because \<open>noise_errort\<close>
    computes with it.
  \<^item> A \<open>CHECK\<close> that fails aborts the process. Functions with such a check return an
    \<open>option\<close>, where \<open>None\<close> is the abort.
  \<^item> A heap allocation that may fail and is reported (the \<open>MALLOCZ\<close> family) is decided
    by an allocation oracle, an argument of the function. An allocation that is only
    \<open>CHECK\<close>ed is taken to succeed: its failure aborts the process.
\<close>

unbundle bit_operations_syntax

section \<open>Collections and types\<close>

named_theorems ct_simps \<open>constant-time selections as ordinary conditionals\<close>
named_theorems inv_intros \<open>operations that keep a component invariant\<close>
named_theorems refine_simps \<open>operations as their abstract counterparts\<close>

type_synonym u8 = "8 word"
type_synonym u16 = "16 word"
type_synonym u32 = "32 word"
type_synonym u64 = "64 word"
type_synonym u128 = "128 word"
type_synonym size_t = "64 word"
type_synonym error_t = int
type_synonym alloc_oracle = "nat \<Rightarrow> bool"

abbreviation UINT64_MAX :: u64 where "UINT64_MAX \<equiv> - 1"

section \<open>Error codes\<close>

text \<open>
  The enumerators of \<open>error_t\<close> in source order with the values the C rules give them:
  an explicit initialiser, else one more than the enumerator before.
\<close>

definition error_enumerators :: "(string \<times> error_t) list" where
  "error_enumerators = [
    (''err_SUCCESS'', 0),
    (''err_OOM'', 1),
    (''err_ENCLAVE__GENERAL__'', 100),
    (''err_ENCLAVE__GENERAL__LOAD_MODULE_HOST_FILE_SYSTEM'', 101),
    (''err_ENCLAVE__GENERAL__MOUNT_ROOT'', 102),
    (''err_ENCLAVE__GENERAL__SIGNAL_RECORD_SIZE_INVALID'', 103),
    (''err_ENCLAVE__GENERAL__CLIENT_STATE'', 104),
    (''err_ENCLAVE__GENERAL__GET_EVIDENCE'', 105),
    (''err_ENCLAVE__GENERAL__EREPORT_SIZE'', 106),
    (''err_ENCLAVE__GENERAL__ENTROPY'', 107),
    (''err_ENCLAVE__GENERAL__INVALID_PRIVATE_KEY'', 108),
    (''err_ENCLAVE__GENERAL__REINIT'', 109),
    (''err_ENCLAVE__GENERAL__EREPORT_PB_NEW'', 110),
    (''err_ENCLAVE__GENERAL__EREPORT_PB_ENCODE'', 111),
    (''err_ENCLAVE__GENERAL__OE_ATTESTER_INITIALIZE'', 112),
    (''err_ENCLAVE__GENERAL__OE_SERIALIZE_CUSTOM_CLAIMS'', 113),
    (''err_ENCLAVE__GENERAL__BUFFER_TOO_SMALL'', 114),
    (''err_ENCLAVE__GENERAL__INVALID_LOAD_FACTOR'', 115),
    (''err_ENCLAVE__GENERAL__CLIENT_ADD_FAILED'', 116),
    (''err_ENCLAVE__GENERAL__CLIENT_GET_FAILED'', 117),
    (''err_ENCLAVE__GENERAL__CLIENT_REMOVE_FAILED'', 118),
    (''err_ENCLAVE__GENERAL__CLIENT_LOCK_FAILED'', 119),
    (''err_ENCLAVE__GENERAL__NOINIT'', 120),
    (''err_ENCLAVE__GENERAL__OE_ATTESTER_SELECT_FORMAT'', 121),
    (''err_ENCLAVE__LOADPB__'', 200),
    (''err_ENCLAVE__LOADPB__REQUEST_PB_NEW'', 201),
    (''err_ENCLAVE__LOADPB__SECRET_TOO_LARGE'', 202),
    (''err_ENCLAVE__LOADPB__TUPLES_INVALID'', 203),
    (''err_ENCLAVE__LOADPB__REQUEST_PB_DECODE'', 204),
    (''err_ENCLAVE__NEWCLIENT__'', 300),
    (''err_ENCLAVE__NEWCLIENT__EREPORT_TOO_LARGE'', 301),
    (''err_ENCLAVE__NEWCLIENT__LOCK_INIT_FAILED'', 302),
    (''err_ENCLAVE__RATELIMIT__'', 400),
    (''err_ENCLAVE__RATELIMIT__REQUEST_PB_NEW'', 401),
    (''err_ENCLAVE__RATELIMIT__RESPONSE_PB_NEW'', 402),
    (''err_ENCLAVE__RATELIMIT__INVALID_TOKEN'', 403),
    (''err_ENCLAVE__RATELIMIT__INVALID_E164S'', 404),
    (''err_ENCLAVE__RATELIMIT__MERGE_FAILED'', 405),
    (''err_ENCLAVE__RATELIMIT__MERGE_NOT_SORTED'', 406),
    (''err_ENCLAVE__RATELIMIT__BAD_OUTPUT'', 407),
    (''err_ENCLAVE__RATELIMIT__NO_TOKEN'', 408),
    (''err_ENCLAVE__RATELIMIT__UNSUPPORTED_VERSION'', 409),
    (''err_ENCLAVE__RATELIMIT__REQUEST_PB_DECODE'', 410),
    (''err_ENCLAVE__RATELIMIT__RESPONSE_PB_ENCODE'', 411),
    (''err_ENCLAVE__RATELIMIT__REQUEST_PB_INVALID'', 412),
    (''err_ENCLAVE__RATELIMIT__INVALID_TOKEN_FORMAT'', 413),
    (''err_ENCLAVE__RUN__'', 500),
    (''err_ENCLAVE__RUN__INVALID_CLIENT'', 501),
    (''err_ENCLAVE__RUN__REQUEST_PB_NEW'', 502),
    (''err_ENCLAVE__RUN__NO_TOKEN_ACK'', 503),
    (''err_ENCLAVE__RUN__INDEX_PAIRS'', 504),
    (''err_ENCLAVE__RUN__RESPONSE_PB_NEW'', 505),
    (''err_ENCLAVE__RUN__REQUEST_PB_DECODE'', 506),
    (''err_ENCLAVE__RUN__RESPONSE_PB_ENCODE'', 507),
    (''err_ENCLAVE__HANDSHAKE__'', 600),
    (''err_ENCLAVE__HANDSHAKE__INVALID_STATE'', 601),
    (''err_ENCLAVE__HANDSHAKE__EXTRACT_PUBKEY_PB'', 602),
    (''err_ENCLAVE__HANDSHAKE__EXTRACT_PUBKEY_VERIFICATION'', 603),
    (''err_FIXEDSET__'', 700),
    (''err_FIXEDSET__RESIZE_INVALID'', 701),
    (''err_ORAM__'', 800),
    (''err_ORAM__PUT_FAILURE'', 801),
    (''err_ORAM__GET_FAILURE'', 802),
    (''err_ORAM__ACCESS_UNALLOCATED_BLOCK'', 803),
    (''err_ORAM__POSITION_MAP_NOT_FOUND'', 804),
    (''err_ORAM__STASH_NOT_FOUND'', 805),
    (''err_ORAM__STASH_EXHAUSTION'', 806),
    (''err_OHTABLE__'', 900),
    (''err_OHTABLE__PUT__FAILURE'', 901),
    (''err_OHTABLE__GET__FAILURE'', 902),
    (''err_OHTABLE__ROBIN_HOOD_UPSERT__RECORD_EMPTY'', 903),
    (''err_OHTABLE__TABLE_FULL'', 904),
    (''err_ENCLAVE__RETRYRESPONSE__DEPRECATED__'', 1000),
    (''err_JNISHIM__'', 1100),
    (''err_JNISHIM__CREATE_ENCLAVE'', 1101),
    (''err_JNISHIM__INIT_ENCLAVE'', 1102),
    (''err_JNISHIM__METHOD_CALL_FAILURE'', 1103),
    (''err_QUEUE__'', 1200),
    (''err_QUEUE__CLOSED'', 1201),
    (''err_SHARD__'', 1300),
    (''err_SHARD__DESTROYING'', 1301),
    (''err_SHARD__ALREADY_RUNNING'', 1302),
    (''err_SHARD__NOT_RUNNING'', 1303),
    (''err_ENCLAVE__TABLE_STATISTICS__'', 1400),
    (''err_ENCLAVE__TABLE_STATISTICS__RESPONSE_PB_NEW'', 1401),
    (''err_ENCLAVE__TABLE_STATISTICS__RESPONSE_PB_ENCODE'', 1402),
    (''err_ENCLAVE__TABLE_STATISTICS__RESPONSE_PB_ALLOC_SHARDS'', 1403),
    (''err_ENCLAVE__TABLE_STATISTICS__RESPONSE_PB_ALLOC_VALUES'', 1404),
    (''err_TEST__'', 1000000),
    (''err_TEST__ASSERTION'', 1000001),
    (''err_HOST__'', 2000000),
    (''err_HOST__GENERAL__'', 2000100),
    (''err_HOST__GENERAL_OE_ERROR'', 2000101),
    (''err_HOST__LOADPB__'', 2000200),
    (''err_HOST__LOADPB__REQUEST_PB'', 2000201),
    (''err_HOST__LOADPB__TOO_MANY_SAMPLES'', 2000202),
    (''err_HOST__LOADPB__ENCLAVE_CALL'', 2000203),
    (''err_HOST__NEWCLIENT__'', 2000300),
    (''err_HOST__NEWCLIENT__NOISE_HANDSHAKE_NEW'', 2000301),
    (''err_HOST__RATELIMIT__'', 2000400),
    (''err_HOST__RATELIMIT__REQUEST_PB'', 2000401),
    (''err_HOST__RATELIMIT__RESPONSE_ENCODE'', 2000402),
    (''err_HOST__RATELIMIT__ENCRYPT'', 2000403),
    (''err_HOST__RATELIMIT__DECRYPT'', 2000404),
    (''err_HOST__RATELIMIT__CALL_ENCLAVE'', 2000405),
    (''err_HOST__RUN__'', 2000500),
    (''err_HOST__RUN__DECRYPT'', 2000501),
    (''err_HOST__RUN__REQUEST_PB'', 2000502),
    (''err_HOST__RUN__RESPONSE_PB'', 2000503),
    (''err_HOST__RUN__ENCRYPT'', 2000504),
    (''err_HOST__RUN__CALL_ENCLAVE'', 2000505),
    (''err_HOST__HANDSHAKE__'', 2000600),
    (''err_HOST__HANDSHAKE__NEW'', 2000601),
    (''err_HOST__HANDSHAKE__START'', 2000602),
    (''err_HOST__HANDSHAKE__INVALID_STATE'', 2000603),
    (''err_HOST__HANDSHAKE__READ'', 2000604),
    (''err_HOST__HANDSHAKE__WRITE'', 2000605),
    (''err_HOST__HANDSHAKE__SPLIT'', 2000606),
    (''err_HOST__HANDSHAKE__CALL_ENCLAVE'', 2000607),
    (''err_HOST__HANDSHAKE__INITIALIZE_VERIFIER'', 2000608),
    (''err_HOST__HANDSHAKE__INVALID_REPORT'', 2000609),
    (''err_HOST__HANDSHAKE__INVALID_CLAIMS'', 2000610),
    (''err_HOST__TABLE_STATISTICS__'', 2000700),
    (''err_HOST__TABLE_STATISTICS__PB_NEW'', 2000701),
    (''err_HOST__TABLE_STATISTICS__PB_DECODE'', 2000702),
    (''err_NOISE__CIPHERSTATE__ENCRYPT__'', 3001000),
    (''err_NOISE__CIPHERSTATE__DECRYPT__'', 3001100),
    (''err_NOISE__HANDSHAKESTATE__NEW__'', 3001200),
    (''err_NOISE__HANDSHAKESTATE__READ__'', 3001300),
    (''err_NOISE__HANDSHAKESTATE__WRITE__'', 3001400),
    (''err_NOISE__HANDSHAKESTATE__SPLIT__'', 3001500),
    (''err_NOISE__HANDSHAKESTATE__START__'', 3001600),
    (''err_NOISE__DHSTATE__NEW__'', 3001700),
    (''err_NOISE__DHSTATE__GET_PUBLIC_KEY__'', 3001800),
    (''err_NOISE__DHSTATE__SET_KEYPAIR_PRIVATE__'', 3001900),
    (''err_NOISE__DHSTATE__SET_PUBLIC_KEY__'', 3002000)]"

text \<open>
  The enumerators the model uses, by name. A name that ends in an underscore in C (the
  start of an error space) loses it here.
\<close>

abbreviation (input) err_SUCCESS :: error_t where "err_SUCCESS \<equiv> 0"
abbreviation (input) err_OOM :: error_t where "err_OOM \<equiv> 1"
abbreviation (input) err_ENCLAVE__GENERAL__LOAD_MODULE_HOST_FILE_SYSTEM :: error_t where "err_ENCLAVE__GENERAL__LOAD_MODULE_HOST_FILE_SYSTEM \<equiv> 101"
abbreviation (input) err_ENCLAVE__GENERAL__MOUNT_ROOT :: error_t where "err_ENCLAVE__GENERAL__MOUNT_ROOT \<equiv> 102"
abbreviation (input) err_ENCLAVE__GENERAL__SIGNAL_RECORD_SIZE_INVALID :: error_t where "err_ENCLAVE__GENERAL__SIGNAL_RECORD_SIZE_INVALID \<equiv> 103"
abbreviation (input) err_ENCLAVE__GENERAL__CLIENT_STATE :: error_t where "err_ENCLAVE__GENERAL__CLIENT_STATE \<equiv> 104"
abbreviation (input) err_ENCLAVE__GENERAL__GET_EVIDENCE :: error_t where "err_ENCLAVE__GENERAL__GET_EVIDENCE \<equiv> 105"
abbreviation (input) err_ENCLAVE__GENERAL__EREPORT_SIZE :: error_t where "err_ENCLAVE__GENERAL__EREPORT_SIZE \<equiv> 106"
abbreviation (input) err_ENCLAVE__GENERAL__ENTROPY :: error_t where "err_ENCLAVE__GENERAL__ENTROPY \<equiv> 107"
abbreviation (input) err_ENCLAVE__GENERAL__INVALID_PRIVATE_KEY :: error_t where "err_ENCLAVE__GENERAL__INVALID_PRIVATE_KEY \<equiv> 108"
abbreviation (input) err_ENCLAVE__GENERAL__REINIT :: error_t where "err_ENCLAVE__GENERAL__REINIT \<equiv> 109"
abbreviation (input) err_ENCLAVE__GENERAL__EREPORT_PB_NEW :: error_t where "err_ENCLAVE__GENERAL__EREPORT_PB_NEW \<equiv> 110"
abbreviation (input) err_ENCLAVE__GENERAL__EREPORT_PB_ENCODE :: error_t where "err_ENCLAVE__GENERAL__EREPORT_PB_ENCODE \<equiv> 111"
abbreviation (input) err_ENCLAVE__GENERAL__OE_ATTESTER_INITIALIZE :: error_t where "err_ENCLAVE__GENERAL__OE_ATTESTER_INITIALIZE \<equiv> 112"
abbreviation (input) err_ENCLAVE__GENERAL__OE_SERIALIZE_CUSTOM_CLAIMS :: error_t where "err_ENCLAVE__GENERAL__OE_SERIALIZE_CUSTOM_CLAIMS \<equiv> 113"
abbreviation (input) err_ENCLAVE__GENERAL__BUFFER_TOO_SMALL :: error_t where "err_ENCLAVE__GENERAL__BUFFER_TOO_SMALL \<equiv> 114"
abbreviation (input) err_ENCLAVE__GENERAL__INVALID_LOAD_FACTOR :: error_t where "err_ENCLAVE__GENERAL__INVALID_LOAD_FACTOR \<equiv> 115"
abbreviation (input) err_ENCLAVE__GENERAL__CLIENT_ADD_FAILED :: error_t where "err_ENCLAVE__GENERAL__CLIENT_ADD_FAILED \<equiv> 116"
abbreviation (input) err_ENCLAVE__GENERAL__CLIENT_GET_FAILED :: error_t where "err_ENCLAVE__GENERAL__CLIENT_GET_FAILED \<equiv> 117"
abbreviation (input) err_ENCLAVE__GENERAL__CLIENT_REMOVE_FAILED :: error_t where "err_ENCLAVE__GENERAL__CLIENT_REMOVE_FAILED \<equiv> 118"
abbreviation (input) err_ENCLAVE__GENERAL__CLIENT_LOCK_FAILED :: error_t where "err_ENCLAVE__GENERAL__CLIENT_LOCK_FAILED \<equiv> 119"
abbreviation (input) err_ENCLAVE__GENERAL__NOINIT :: error_t where "err_ENCLAVE__GENERAL__NOINIT \<equiv> 120"
abbreviation (input) err_ENCLAVE__GENERAL__OE_ATTESTER_SELECT_FORMAT :: error_t where "err_ENCLAVE__GENERAL__OE_ATTESTER_SELECT_FORMAT \<equiv> 121"
abbreviation (input) err_ENCLAVE__LOADPB__REQUEST_PB_NEW :: error_t where "err_ENCLAVE__LOADPB__REQUEST_PB_NEW \<equiv> 201"
abbreviation (input) err_ENCLAVE__LOADPB__SECRET_TOO_LARGE :: error_t where "err_ENCLAVE__LOADPB__SECRET_TOO_LARGE \<equiv> 202"
abbreviation (input) err_ENCLAVE__LOADPB__TUPLES_INVALID :: error_t where "err_ENCLAVE__LOADPB__TUPLES_INVALID \<equiv> 203"
abbreviation (input) err_ENCLAVE__LOADPB__REQUEST_PB_DECODE :: error_t where "err_ENCLAVE__LOADPB__REQUEST_PB_DECODE \<equiv> 204"
abbreviation (input) err_ENCLAVE__NEWCLIENT__EREPORT_TOO_LARGE :: error_t where "err_ENCLAVE__NEWCLIENT__EREPORT_TOO_LARGE \<equiv> 301"
abbreviation (input) err_ENCLAVE__NEWCLIENT__LOCK_INIT_FAILED :: error_t where "err_ENCLAVE__NEWCLIENT__LOCK_INIT_FAILED \<equiv> 302"
abbreviation (input) err_ENCLAVE__RATELIMIT__REQUEST_PB_NEW :: error_t where "err_ENCLAVE__RATELIMIT__REQUEST_PB_NEW \<equiv> 401"
abbreviation (input) err_ENCLAVE__RATELIMIT__RESPONSE_PB_NEW :: error_t where "err_ENCLAVE__RATELIMIT__RESPONSE_PB_NEW \<equiv> 402"
abbreviation (input) err_ENCLAVE__RATELIMIT__INVALID_TOKEN :: error_t where "err_ENCLAVE__RATELIMIT__INVALID_TOKEN \<equiv> 403"
abbreviation (input) err_ENCLAVE__RATELIMIT__INVALID_E164S :: error_t where "err_ENCLAVE__RATELIMIT__INVALID_E164S \<equiv> 404"
abbreviation (input) err_ENCLAVE__RATELIMIT__MERGE_FAILED :: error_t where "err_ENCLAVE__RATELIMIT__MERGE_FAILED \<equiv> 405"
abbreviation (input) err_ENCLAVE__RATELIMIT__MERGE_NOT_SORTED :: error_t where "err_ENCLAVE__RATELIMIT__MERGE_NOT_SORTED \<equiv> 406"
abbreviation (input) err_ENCLAVE__RATELIMIT__BAD_OUTPUT :: error_t where "err_ENCLAVE__RATELIMIT__BAD_OUTPUT \<equiv> 407"
abbreviation (input) err_ENCLAVE__RATELIMIT__NO_TOKEN :: error_t where "err_ENCLAVE__RATELIMIT__NO_TOKEN \<equiv> 408"
abbreviation (input) err_ENCLAVE__RATELIMIT__UNSUPPORTED_VERSION :: error_t where "err_ENCLAVE__RATELIMIT__UNSUPPORTED_VERSION \<equiv> 409"
abbreviation (input) err_ENCLAVE__RATELIMIT__REQUEST_PB_DECODE :: error_t where "err_ENCLAVE__RATELIMIT__REQUEST_PB_DECODE \<equiv> 410"
abbreviation (input) err_ENCLAVE__RATELIMIT__RESPONSE_PB_ENCODE :: error_t where "err_ENCLAVE__RATELIMIT__RESPONSE_PB_ENCODE \<equiv> 411"
abbreviation (input) err_ENCLAVE__RATELIMIT__REQUEST_PB_INVALID :: error_t where "err_ENCLAVE__RATELIMIT__REQUEST_PB_INVALID \<equiv> 412"
abbreviation (input) err_ENCLAVE__RATELIMIT__INVALID_TOKEN_FORMAT :: error_t where "err_ENCLAVE__RATELIMIT__INVALID_TOKEN_FORMAT \<equiv> 413"
abbreviation (input) err_ENCLAVE__RUN__INVALID_CLIENT :: error_t where "err_ENCLAVE__RUN__INVALID_CLIENT \<equiv> 501"
abbreviation (input) err_ENCLAVE__RUN__REQUEST_PB_NEW :: error_t where "err_ENCLAVE__RUN__REQUEST_PB_NEW \<equiv> 502"
abbreviation (input) err_ENCLAVE__RUN__NO_TOKEN_ACK :: error_t where "err_ENCLAVE__RUN__NO_TOKEN_ACK \<equiv> 503"
abbreviation (input) err_ENCLAVE__RUN__INDEX_PAIRS :: error_t where "err_ENCLAVE__RUN__INDEX_PAIRS \<equiv> 504"
abbreviation (input) err_ENCLAVE__RUN__RESPONSE_PB_NEW :: error_t where "err_ENCLAVE__RUN__RESPONSE_PB_NEW \<equiv> 505"
abbreviation (input) err_ENCLAVE__RUN__REQUEST_PB_DECODE :: error_t where "err_ENCLAVE__RUN__REQUEST_PB_DECODE \<equiv> 506"
abbreviation (input) err_ENCLAVE__RUN__RESPONSE_PB_ENCODE :: error_t where "err_ENCLAVE__RUN__RESPONSE_PB_ENCODE \<equiv> 507"
abbreviation (input) err_ENCLAVE__HANDSHAKE__INVALID_STATE :: error_t where "err_ENCLAVE__HANDSHAKE__INVALID_STATE \<equiv> 601"
abbreviation (input) err_ENCLAVE__HANDSHAKE__EXTRACT_PUBKEY_PB :: error_t where "err_ENCLAVE__HANDSHAKE__EXTRACT_PUBKEY_PB \<equiv> 602"
abbreviation (input) err_ENCLAVE__HANDSHAKE__EXTRACT_PUBKEY_VERIFICATION :: error_t where "err_ENCLAVE__HANDSHAKE__EXTRACT_PUBKEY_VERIFICATION \<equiv> 603"
abbreviation (input) err_FIXEDSET__RESIZE_INVALID :: error_t where "err_FIXEDSET__RESIZE_INVALID \<equiv> 701"
abbreviation (input) err_ORAM__PUT_FAILURE :: error_t where "err_ORAM__PUT_FAILURE \<equiv> 801"
abbreviation (input) err_ORAM__GET_FAILURE :: error_t where "err_ORAM__GET_FAILURE \<equiv> 802"
abbreviation (input) err_ORAM__ACCESS_UNALLOCATED_BLOCK :: error_t where "err_ORAM__ACCESS_UNALLOCATED_BLOCK \<equiv> 803"
abbreviation (input) err_ORAM__POSITION_MAP_NOT_FOUND :: error_t where "err_ORAM__POSITION_MAP_NOT_FOUND \<equiv> 804"
abbreviation (input) err_ORAM__STASH_NOT_FOUND :: error_t where "err_ORAM__STASH_NOT_FOUND \<equiv> 805"
abbreviation (input) err_ORAM__STASH_EXHAUSTION :: error_t where "err_ORAM__STASH_EXHAUSTION \<equiv> 806"
abbreviation (input) err_OHTABLE__PUT__FAILURE :: error_t where "err_OHTABLE__PUT__FAILURE \<equiv> 901"
abbreviation (input) err_OHTABLE__GET__FAILURE :: error_t where "err_OHTABLE__GET__FAILURE \<equiv> 902"
abbreviation (input) err_OHTABLE__ROBIN_HOOD_UPSERT__RECORD_EMPTY :: error_t where "err_OHTABLE__ROBIN_HOOD_UPSERT__RECORD_EMPTY \<equiv> 903"
abbreviation (input) err_OHTABLE__TABLE_FULL :: error_t where "err_OHTABLE__TABLE_FULL \<equiv> 904"
abbreviation (input) err_JNISHIM__CREATE_ENCLAVE :: error_t where "err_JNISHIM__CREATE_ENCLAVE \<equiv> 1101"
abbreviation (input) err_JNISHIM__INIT_ENCLAVE :: error_t where "err_JNISHIM__INIT_ENCLAVE \<equiv> 1102"
abbreviation (input) err_JNISHIM__METHOD_CALL_FAILURE :: error_t where "err_JNISHIM__METHOD_CALL_FAILURE \<equiv> 1103"
abbreviation (input) err_QUEUE__CLOSED :: error_t where "err_QUEUE__CLOSED \<equiv> 1201"
abbreviation (input) err_SHARD__DESTROYING :: error_t where "err_SHARD__DESTROYING \<equiv> 1301"
abbreviation (input) err_SHARD__ALREADY_RUNNING :: error_t where "err_SHARD__ALREADY_RUNNING \<equiv> 1302"
abbreviation (input) err_SHARD__NOT_RUNNING :: error_t where "err_SHARD__NOT_RUNNING \<equiv> 1303"
abbreviation (input) err_ENCLAVE__TABLE_STATISTICS__RESPONSE_PB_NEW :: error_t where "err_ENCLAVE__TABLE_STATISTICS__RESPONSE_PB_NEW \<equiv> 1401"
abbreviation (input) err_ENCLAVE__TABLE_STATISTICS__RESPONSE_PB_ENCODE :: error_t where "err_ENCLAVE__TABLE_STATISTICS__RESPONSE_PB_ENCODE \<equiv> 1402"
abbreviation (input) err_ENCLAVE__TABLE_STATISTICS__RESPONSE_PB_ALLOC_SHARDS :: error_t where "err_ENCLAVE__TABLE_STATISTICS__RESPONSE_PB_ALLOC_SHARDS \<equiv> 1403"
abbreviation (input) err_ENCLAVE__TABLE_STATISTICS__RESPONSE_PB_ALLOC_VALUES :: error_t where "err_ENCLAVE__TABLE_STATISTICS__RESPONSE_PB_ALLOC_VALUES \<equiv> 1404"
abbreviation (input) err_TEST__ASSERTION :: error_t where "err_TEST__ASSERTION \<equiv> 1000001"
abbreviation (input) err_HOST__GENERAL_OE_ERROR :: error_t where "err_HOST__GENERAL_OE_ERROR \<equiv> 2000101"
abbreviation (input) err_HOST__LOADPB__REQUEST_PB :: error_t where "err_HOST__LOADPB__REQUEST_PB \<equiv> 2000201"
abbreviation (input) err_HOST__LOADPB__TOO_MANY_SAMPLES :: error_t where "err_HOST__LOADPB__TOO_MANY_SAMPLES \<equiv> 2000202"
abbreviation (input) err_HOST__LOADPB__ENCLAVE_CALL :: error_t where "err_HOST__LOADPB__ENCLAVE_CALL \<equiv> 2000203"
abbreviation (input) err_HOST__NEWCLIENT__NOISE_HANDSHAKE_NEW :: error_t where "err_HOST__NEWCLIENT__NOISE_HANDSHAKE_NEW \<equiv> 2000301"
abbreviation (input) err_HOST__RATELIMIT__REQUEST_PB :: error_t where "err_HOST__RATELIMIT__REQUEST_PB \<equiv> 2000401"
abbreviation (input) err_HOST__RATELIMIT__RESPONSE_ENCODE :: error_t where "err_HOST__RATELIMIT__RESPONSE_ENCODE \<equiv> 2000402"
abbreviation (input) err_HOST__RATELIMIT__ENCRYPT :: error_t where "err_HOST__RATELIMIT__ENCRYPT \<equiv> 2000403"
abbreviation (input) err_HOST__RATELIMIT__DECRYPT :: error_t where "err_HOST__RATELIMIT__DECRYPT \<equiv> 2000404"
abbreviation (input) err_HOST__RATELIMIT__CALL_ENCLAVE :: error_t where "err_HOST__RATELIMIT__CALL_ENCLAVE \<equiv> 2000405"
abbreviation (input) err_HOST__RUN__DECRYPT :: error_t where "err_HOST__RUN__DECRYPT \<equiv> 2000501"
abbreviation (input) err_HOST__RUN__REQUEST_PB :: error_t where "err_HOST__RUN__REQUEST_PB \<equiv> 2000502"
abbreviation (input) err_HOST__RUN__RESPONSE_PB :: error_t where "err_HOST__RUN__RESPONSE_PB \<equiv> 2000503"
abbreviation (input) err_HOST__RUN__ENCRYPT :: error_t where "err_HOST__RUN__ENCRYPT \<equiv> 2000504"
abbreviation (input) err_HOST__RUN__CALL_ENCLAVE :: error_t where "err_HOST__RUN__CALL_ENCLAVE \<equiv> 2000505"
abbreviation (input) err_HOST__HANDSHAKE__NEW :: error_t where "err_HOST__HANDSHAKE__NEW \<equiv> 2000601"
abbreviation (input) err_HOST__HANDSHAKE__START :: error_t where "err_HOST__HANDSHAKE__START \<equiv> 2000602"
abbreviation (input) err_HOST__HANDSHAKE__INVALID_STATE :: error_t where "err_HOST__HANDSHAKE__INVALID_STATE \<equiv> 2000603"
abbreviation (input) err_HOST__HANDSHAKE__READ :: error_t where "err_HOST__HANDSHAKE__READ \<equiv> 2000604"
abbreviation (input) err_HOST__HANDSHAKE__WRITE :: error_t where "err_HOST__HANDSHAKE__WRITE \<equiv> 2000605"
abbreviation (input) err_HOST__HANDSHAKE__SPLIT :: error_t where "err_HOST__HANDSHAKE__SPLIT \<equiv> 2000606"
abbreviation (input) err_HOST__HANDSHAKE__CALL_ENCLAVE :: error_t where "err_HOST__HANDSHAKE__CALL_ENCLAVE \<equiv> 2000607"
abbreviation (input) err_HOST__HANDSHAKE__INITIALIZE_VERIFIER :: error_t where "err_HOST__HANDSHAKE__INITIALIZE_VERIFIER \<equiv> 2000608"
abbreviation (input) err_HOST__HANDSHAKE__INVALID_REPORT :: error_t where "err_HOST__HANDSHAKE__INVALID_REPORT \<equiv> 2000609"
abbreviation (input) err_HOST__HANDSHAKE__INVALID_CLAIMS :: error_t where "err_HOST__HANDSHAKE__INVALID_CLAIMS \<equiv> 2000610"
abbreviation (input) err_HOST__TABLE_STATISTICS__PB_NEW :: error_t where "err_HOST__TABLE_STATISTICS__PB_NEW \<equiv> 2000701"
abbreviation (input) err_HOST__TABLE_STATISTICS__PB_DECODE :: error_t where "err_HOST__TABLE_STATISTICS__PB_DECODE \<equiv> 2000702"
abbreviation (input) err_NOISE__CIPHERSTATE__ENCRYPT :: error_t where "err_NOISE__CIPHERSTATE__ENCRYPT \<equiv> 3001000"
abbreviation (input) err_NOISE__CIPHERSTATE__DECRYPT :: error_t where "err_NOISE__CIPHERSTATE__DECRYPT \<equiv> 3001100"
abbreviation (input) err_NOISE__HANDSHAKESTATE__NEW :: error_t where "err_NOISE__HANDSHAKESTATE__NEW \<equiv> 3001200"
abbreviation (input) err_NOISE__HANDSHAKESTATE__READ :: error_t where "err_NOISE__HANDSHAKESTATE__READ \<equiv> 3001300"
abbreviation (input) err_NOISE__HANDSHAKESTATE__WRITE :: error_t where "err_NOISE__HANDSHAKESTATE__WRITE \<equiv> 3001400"
abbreviation (input) err_NOISE__HANDSHAKESTATE__SPLIT :: error_t where "err_NOISE__HANDSHAKESTATE__SPLIT \<equiv> 3001500"
abbreviation (input) err_NOISE__HANDSHAKESTATE__START :: error_t where "err_NOISE__HANDSHAKESTATE__START \<equiv> 3001600"
abbreviation (input) err_NOISE__DHSTATE__NEW :: error_t where "err_NOISE__DHSTATE__NEW \<equiv> 3001700"
abbreviation (input) err_NOISE__DHSTATE__GET_PUBLIC_KEY :: error_t where "err_NOISE__DHSTATE__GET_PUBLIC_KEY \<equiv> 3001800"
abbreviation (input) err_NOISE__DHSTATE__SET_KEYPAIR_PRIVATE :: error_t where "err_NOISE__DHSTATE__SET_KEYPAIR_PRIVATE \<equiv> 3001900"
abbreviation (input) err_NOISE__DHSTATE__SET_PUBLIC_KEY :: error_t where "err_NOISE__DHSTATE__SET_PUBLIC_KEY \<equiv> 3002000"

text \<open>\<open>RETURN_IF_ERROR\<close>: stop with the error, or go on.\<close>

definition RETURN_IF_ERROR :: "error_t \<Rightarrow> 's \<Rightarrow> (error_t \<times> 's) \<Rightarrow> error_t \<times> 's" where
  "RETURN_IF_ERROR e s k = (if e \<noteq> err_SUCCESS then (e, s) else k)"

lemma RETURN_IF_ERROR_simps [simp]:
  "RETURN_IF_ERROR err_SUCCESS s k = k"
  "e \<noteq> err_SUCCESS \<Longrightarrow> RETURN_IF_ERROR e s k = (e, s)"
  by (simp_all add: RETURN_IF_ERROR_def)

section \<open>Words\<close>

lemma unat_of_bool [simp]: "unat (of_bool b :: 'a::len word) = of_bool b"
  by simp

lemma unat_lt_64 [simp]: "unat (x :: u64) < 18446744073709551616"
  using unsigned_less [of x] by simp

lemma unat_lt_128 [simp]: "unat (x :: u128) < 340282366920938463463374607431768211456"
  using unsigned_less [of x] by simp

lemma unat_lt_32 [simp]: "unat (x :: u32) < 4294967296"
  using unsigned_less [of x] by simp

lemma unat_lt_8 [simp]: "unat (x :: u8) < 256"
  using unsigned_less [of x] by simp

lemma unat_add_64:
  "unat (x :: u64) + unat y < 18446744073709551616 \<Longrightarrow> unat (x + y) = unat x + unat y"
  by (simp add: unat_word_ariths)

lemma unat_mult_64:
  "unat (x :: u64) * unat y < 18446744073709551616 \<Longrightarrow> unat (x * y) = unat x * unat y"
  by (simp add: unat_word_ariths)

lemma unat_sub_64: "y \<le> (x :: u64) \<Longrightarrow> unat (x - y) = unat x - unat y"
  by (simp add: unat_sub)

lemma unat_drop_bit_64: "unat (drop_bit k (x :: u64)) = unat x div 2 ^ k"
  by (subst unsigned_drop_bit_eq) (simp add: drop_bit_eq_div take_bit_eq_mod)

lemma unat_push_bit_64: "unat (push_bit k (x :: u64)) = unat x * 2 ^ k mod 18446744073709551616"
  by (subst unsigned_push_bit_eq) (simp add: push_bit_eq_mult take_bit_eq_mod)

lemma unat_of_nat_64: "n < 18446744073709551616 \<Longrightarrow> unat (of_nat n :: u64) = n"
  by (simp add: unat_of_nat)

lemma word64_eqI: "unat (x :: u64) = unat y \<Longrightarrow> x = y"
  by (rule word_unat_eq_iff [THEN iffD2])

section \<open>Natural numbers\<close>

lemma add_lessD2: "a + b < c \<Longrightarrow> b < (c::nat)"
  by simp

lemma add_lt_mono_right: "b \<le> b' \<Longrightarrow> a + b' < c \<Longrightarrow> a + b < (c::nat)"
  by simp

section \<open>Lists\<close>

text \<open>
  \<open>swap_at i j xs\<close> exchanges two entries, as an in-place swap of array cells does.
\<close>

definition swap_at :: "nat \<Rightarrow> nat \<Rightarrow> 'a list \<Rightarrow> 'a list" where
  "swap_at i j xs = xs[i := xs ! j, j := xs ! i]"

lemma length_swap_at [simp]: "length (swap_at i j xs) = length xs"
  by (simp add: swap_at_def)

lemma nth_swap_at:
  "i < length xs \<Longrightarrow> j < length xs \<Longrightarrow> k < length xs \<Longrightarrow>
   swap_at i j xs ! k = (if k = j then xs ! i else if k = i then xs ! j else xs ! k)"
  by (auto simp: swap_at_def nth_list_update)

lemma mset_swap_at [simp]:
  "i < length xs \<Longrightarrow> j < length xs \<Longrightarrow> mset (swap_at i j xs) = mset xs"
  unfolding swap_at_def by (rule mset_swap)

lemma set_swap_at [simp]:
  "i < length xs \<Longrightarrow> j < length xs \<Longrightarrow> set (swap_at i j xs) = set xs"
  by (metis mset_swap_at set_mset_mset)

end
