(* ===== verification/Util.thy ===== *)
theory Util
  imports Prelude
begin

text \<open>
  The arithmetic helpers of \<^verbatim>\<open>util/util.h\<close>, \<^verbatim>\<open>util/uint128div.c\<close> and \<^verbatim>\<open>util/util.jinc\<close>:
  logarithms, constant-time selection, the 128-by-64 bit division (Knuth's Algorithm D
  with two digits of 32 bits) and the division by an invariant divisor of Granlund and
  Montgomery that \<open>prep_ct_div\<close> and \<open>ct_div\<close> split between set-up and use.

  The correction loop of the long division is a \<open>partial_function\<close>, so that a loop that
  does not end has the value \<open>None\<close>; that it ends, after at most two rounds, is part of
  the correctness theorem. A Jasmin definition has the prefix \<open>j_\<close>.
\<close>

section \<open>Definitions\<close>

subsection \<open>Logarithms\<close>

function floor_log2_loop :: "size_t \<Rightarrow> size_t \<Rightarrow> size_t" where
  "floor_log2_loop n result =
     (if n > 1 then floor_log2_loop (drop_bit 1 n) (result + 1) else result)"
  by auto
termination
  by (relation "measure (\<lambda>(n, r). unat n)") (auto simp: unat_drop_bit_64 word_less_nat_alt)

declare floor_log2_loop.simps [simp del]

definition floor_log2 :: "size_t \<Rightarrow> size_t" where
  "floor_log2 n = floor_log2_loop n 0"

definition ceil_log2 :: "size_t \<Rightarrow> size_t" where
  "ceil_log2 n = (let floor = floor_log2 n in
     if n > push_bit (unat floor) 1 then floor + 1 else floor)"

text \<open>Number of significant bits, and the compiler builtin and the instruction that count
  the zeros above them. \<open>__builtin_clzll(0)\<close> is undefined in C; \<open>LZCNT\<close> gives 64.\<close>

fun bit_len :: "nat \<Rightarrow> nat" where
  "bit_len n = (if n = 0 then 0 else Suc (bit_len (n div 2)))"

declare bit_len.simps [simp del]

definition builtin_clzll :: "u64 \<Rightarrow> nat" where
  "builtin_clzll n = 64 - bit_len (unat n)"

definition first_pow2_leq :: "u64 \<Rightarrow> u64" where
  "first_pow2_leq n = (let msb = 64 - builtin_clzll n in push_bit (msb - 1) 1)"

definition j_floor_log2 :: "u64 \<Rightarrow> u64" where
  "j_floor_log2 n = 63 - of_nat (builtin_clzll n)"

definition j_ceil_log2 :: "u64 \<Rightarrow> u64" where
  "j_ceil_log2 n = 64 - of_nat (builtin_clzll (n - 1))"

subsection \<open>Constant-time selection\<close>

definition U64_TERNARY :: "bool \<Rightarrow> u64 \<Rightarrow> u64 \<Rightarrow> u64" where
  "U64_TERNARY boolval u64true u64false =
     ((0 - of_bool boolval) AND u64true) OR ((UINT64_MAX + of_bool boolval) AND u64false)"

text \<open>\<open>*dest\<close> after the copy.\<close>

definition cond_obv_cpy_u64 :: "bool \<Rightarrow> u64 \<Rightarrow> u64 \<Rightarrow> u64" where
  "cond_obv_cpy_u64 cond dest src = U64_TERNARY cond src dest"

text \<open>\<open>tmp0\<close> is the indeterminate initial value of the local \<open>tmp\<close>.\<close>

definition cond_obv_swap_u64 :: "u64 \<Rightarrow> bool \<Rightarrow> u64 \<Rightarrow> u64 \<Rightarrow> u64 \<times> u64" where
  "cond_obv_swap_u64 tmp0 cond a b = (
     let tmp = cond_obv_cpy_u64 cond tmp0 a;
         a' = cond_obv_cpy_u64 cond a b;
         b' = cond_obv_cpy_u64 cond b tmp
     in (a', b'))"

definition j_ternary :: "u8 \<Rightarrow> u64 \<Rightarrow> u64 \<Rightarrow> u64" where
  "j_ternary cond a b = (
     let ext_cond = (ucast cond :: u64);
         r = ext_cond - 1;
         ext_cond = - ext_cond;
         b = b AND r;
         a = a AND ext_cond
     in b OR a)"

definition j_ternary32 :: "u8 \<Rightarrow> u32 \<Rightarrow> u32 \<Rightarrow> u32" where
  "j_ternary32 cond a b = (
     let ext_cond = (ucast cond :: u32);
         r = ext_cond - 1;
         ext_cond = - ext_cond;
         b = b AND r;
         a = a AND ext_cond
     in b OR a)"

definition j_cond_obv_swap_u64 :: "u8 \<Rightarrow> u64 \<Rightarrow> u64 \<Rightarrow> u64 \<times> u64" where
  "j_cond_obv_swap_u64 cond ra rb = (j_ternary cond rb ra, j_ternary cond ra rb)"

subsection \<open>Division of a 128-bit by a 64-bit number\<close>

text \<open>
  The correction loop of one quotient digit (lines 61-72, and again 84-95): \<open>v1\<close> and \<open>v0\<close>
  are the divisor's digits, \<open>lo\<close> the next digit of the dividend.
\<close>

partial_function (option) correct_digit ::
    "u64 \<Rightarrow> u64 \<Rightarrow> u64 \<Rightarrow> u64 \<Rightarrow> u64 \<Rightarrow> u64 \<Rightarrow> u64 \<Rightarrow> u64 option" where
  "correct_digit v1 v0 lo q rhat left right =
     (if q \<ge> 0x100000000 \<or> left > right then
        (let q = q - 1; rhat = rhat + v1 in
         if rhat < 0x100000000 then
           correct_digit v1 v0 lo q rhat (left - v0) (push_bit 32 rhat OR lo)
         else Some q)
      else Some q)"

declare correct_digit.simps [code]

definition divmod128by64 :: "u64 \<Rightarrow> u64 \<Rightarrow> u64 \<Rightarrow> u64 option" where
  "divmod128by64 u1 u0 v = (
     let s = builtin_clzll v;
         v = push_bit s v;
         v1 = drop_bit 32 v;
         v0 = v AND 0xffffffff;
         u32 = (if s > 0 then push_bit s u1 OR drop_bit (64 - s) u0 else u1);
         u10 = (if s > 0 then push_bit s u0 else u0);
         lo1 = drop_bit 32 u10;
         lo0 = u10 AND 0xffffffff;
         q1 = u32 div v1;
         rhat = u32 mod v1
     in case correct_digit v1 v0 lo1 q1 rhat (q1 * v0) (push_bit 32 rhat + lo1) of
          None \<Rightarrow> None
        | Some q1 \<Rightarrow> (
     let u21 = push_bit 32 u32 + (lo1 - q1 * v);
         q0 = u21 div v1;
         rhat = u21 mod v1
     in case correct_digit v1 v0 lo0 q0 rhat (q0 * v0) (push_bit 32 rhat OR lo0) of
          None \<Rightarrow> None
        | Some q0 \<Rightarrow> Some (push_bit 32 q1 OR q0)))"

definition div128by64 :: "u128 \<Rightarrow> u64 \<Rightarrow> u64 option" where
  "div128by64 u v = divmod128by64 (ucast (drop_bit 64 u)) (ucast (u AND 0xffffffffffffffff)) v"

subsection \<open>Division by an invariant divisor\<close>

definition muluh64 :: "u64 \<Rightarrow> u64 \<Rightarrow> u64" where
  "muluh64 a b = ucast (drop_bit 64 ((ucast a :: u128) * ucast b))"

text \<open>The outputs \<open>m_prime\<close>, \<open>shift1\<close>, \<open>shift2\<close>; the arithmetic on \<open>l\<close> is unsigned.\<close>

definition prep_ct_div :: "u64 \<Rightarrow> (u64 \<times> size_t \<times> size_t) option" where
  "prep_ct_div d = (
     let l = ceil_log2 d;
         dividend = push_bit 64 (1 :: u128) * ucast (push_bit (unat l) 1 - d :: u64)
     in case div128by64 dividend d of
          None \<Rightarrow> None
        | Some q \<Rightarrow> Some (1 + q, if l < 1 then l else 1, if l - 1 > 0 then l - 1 else 0))"

text \<open>A shift by 64 or more is undefined in C; the shift of the model gives 0 there.\<close>

definition ct_div :: "u64 \<Rightarrow> u64 \<Rightarrow> u64 \<Rightarrow> size_t \<Rightarrow> size_t \<Rightarrow> u64" where
  "ct_div n d m_prime shift1 shift2 = (
     let t1 = muluh64 m_prime n
     in drop_bit (unat shift2) (t1 + drop_bit (unat shift1) (n - t1)))"

definition ct_mod :: "u64 \<Rightarrow> u64 \<Rightarrow> u64 \<Rightarrow> size_t \<Rightarrow> size_t \<Rightarrow> u64" where
  "ct_mod n d m_prime shift1 shift2 = (
     let q = ct_div n d m_prime shift1 shift2 in n - q * d)"

text \<open>The x86 instruction \<open>SHR\<close> on 64-bit operands masks the count to six bits.\<close>

definition SHR :: "u64 \<Rightarrow> u64 \<Rightarrow> u64" where
  "SHR x c = drop_bit (unat (c AND 63)) x"

definition j_ct_div :: "u64 \<Rightarrow> u64 \<Rightarrow> u64 \<Rightarrow> u64 \<Rightarrow> u64" where
  "j_ct_div n m_prime shift1 shift2 = (
     let t1 = muluh64 m_prime n;
         n = SHR (n - t1) shift1
     in SHR (t1 + n) shift2)"

definition j_ct_mod :: "u64 \<Rightarrow> u64 \<Rightarrow> u64 \<Rightarrow> u64 \<Rightarrow> u64 \<Rightarrow> u64" where
  "j_ct_mod n d m_prime shift1 shift2 = (
     let q = j_ct_div n m_prime shift1 shift2 in n - q * d)"

section \<open>Logarithms\<close>

lemma bit_len_rec: "0 < n \<Longrightarrow> bit_len n = Suc (bit_len (n div 2))"
  by (subst bit_len.simps) simp

lemma bit_len_0 [simp]: "bit_len 0 = 0"
  by (subst bit_len.simps) simp

lemma bit_len_1 [simp]: "bit_len 1 = 1" "bit_len (Suc 0) = 1"
  by (simp_all add: bit_len_rec)

lemma bit_len_posE:
  assumes "0 < n" obtains k where "bit_len n = Suc k"
  using bit_len_rec [OF assms] by blast

lemma bit_len_bounds: "0 < n \<Longrightarrow> 2 ^ (bit_len n - 1) \<le> n \<and> n < 2 ^ bit_len n"
proof (induction n rule: bit_len.induct)
  case (1 n)
  show ?case
  proof (cases "n div 2 = 0")
    case True
    with 1 have "n = 1" by simp
    then show ?thesis by simp
  next
    case False
    with 1 have IH: "2 ^ (bit_len (n div 2) - 1) \<le> n div 2" "n div 2 < 2 ^ bit_len (n div 2)"
      by simp_all
    obtain k where k: "bit_len (n div 2) = Suc k"
      using False bit_len_posE [of "n div 2"] by auto
    have "bit_len n = Suc (Suc k)"
      using k \<open>0 < n\<close> bit_len_rec [of n] by simp
    moreover have "2 * (n div 2) \<le> n" "n < 2 * (n div 2) + 2" by linarith+
    ultimately show ?thesis using IH k by simp
  qed
qed

lemma bit_len_le: "n < 2 ^ k \<Longrightarrow> bit_len n \<le> k"
proof (rule ccontr)
  assume n: "n < 2 ^ k" and "\<not> bit_len n \<le> k"
  then have k: "k \<le> bit_len n - 1" and pos: "0 < n"
    by (cases "n = 0"; simp)+
  have "(2::nat) ^ k \<le> 2 ^ (bit_len n - 1)" using k by (rule power_increasing) simp
  then show False using n bit_len_bounds [OF pos] by linarith
qed

lemma bit_len_unat: "bit_len (unat (x :: u64)) \<le> 64"
  by (rule bit_len_le) simp

lemma floor_log2_loop_eq:
  "n \<noteq> 0 \<Longrightarrow> floor_log2_loop n r = r + of_nat (bit_len (unat n) - 1)"
proof (induction n r rule: floor_log2_loop.induct)
  case (1 n r)
  show ?case
  proof (cases "n > 1")
    case True
    let ?m = "drop_bit 1 n"
    have u: "unat ?m = unat n div 2" by (simp add: unat_drop_bit_64)
    have n2: "2 \<le> unat n" using True by (simp add: word_less_nat_alt)
    then have "unat ?m \<noteq> 0" using u by linarith
    then have m0: "?m \<noteq> 0" by (metis unat_0)
    have "0 < unat n div 2" using n2 by simp
    then obtain k where k: "bit_len (unat n div 2) = Suc k" by (rule bit_len_posE)
    have "bit_len (unat n) = Suc (Suc k)"
      using k n2 bit_len_rec [of "unat n"] by simp
    then show ?thesis
      using 1(1) [OF True m0] True k u by (subst floor_log2_loop.simps) (simp add: ac_simps)
  next
    case False
    then have "unat n = 1"
      using 1(2) unat_gt_0 [of n] by (simp add: word_less_nat_alt)
    then show ?thesis using False by (subst floor_log2_loop.simps) simp
  qed
qed

lemma unat_floor_log2: "n \<noteq> 0 \<Longrightarrow> unat (floor_log2 n) = bit_len (unat n) - 1"
  using bit_len_unat [of n] by (simp add: floor_log2_def floor_log2_loop_eq unat_of_nat_64)

lemma floor_log2_bounds:
  assumes "n \<noteq> 0"
  shows "2 ^ unat (floor_log2 n) \<le> unat n \<and> unat n < 2 * 2 ^ unat (floor_log2 n) \<and> unat (floor_log2 n) < 64"
proof -
  have pos: "0 < unat n" using assms by (simp add: unat_gt_0)
  then obtain k where k: "bit_len (unat n) = Suc k" by (rule bit_len_posE)
  then show ?thesis using bit_len_bounds [OF pos] bit_len_unat [of n] assms
    by (simp add: unat_floor_log2)
qed

lemma unat_pow2_64: "k < 64 \<Longrightarrow> unat (2 ^ k :: u64) = 2 ^ k"
proof -
  assume "k < 64"
  then have "(2::nat) ^ k < 2 ^ 64" by (rule power_strict_increasing) simp
  then show ?thesis using unat_push_bit_64 [of k 1] by simp
qed

text \<open>\<open>ceil_log2 n\<close> is the least exponent whose power of two reaches \<open>n\<close>.\<close>

lemma ceil_log2_bounds:
  assumes "n \<noteq> 0"
  shows "unat n \<le> 2 ^ unat (ceil_log2 n)" "2 ^ unat (ceil_log2 n) < 2 * unat n" "unat (ceil_log2 n) \<le> 64"
proof -
  let ?f = "floor_log2 n"
  note f = floor_log2_bounds [OF assms]
  have lt: "(n > push_bit (unat ?f) 1) = (unat n > 2 ^ unat ?f)"
    using f by (simp add: word_less_nat_alt unat_pow2_64)
  have s: "unat (?f + 1) = unat ?f + 1" using f by (simp add: unat_add_64)
  show "unat n \<le> 2 ^ unat (ceil_log2 n)" "2 ^ unat (ceil_log2 n) < 2 * unat n" "unat (ceil_log2 n) \<le> 64"
    using f lt s assms unat_gt_0 [of n] by (auto simp: ceil_log2_def Let_def)
qed

section \<open>Long division\<close>

text \<open>The digit test of Algorithm D: \<open>q\<close> is not too large for \<open>U * b + d\<close>.\<close>

lemma digit_test:
  fixes q v1 v0 r U b d :: nat
  assumes "q * v1 + r = U"
  shows "q * (v1 * b + v0) \<le> U * b + d \<longleftrightarrow> q * v0 \<le> r * b + d"
proof -
  have "U * b = q * v1 * b + r * b" using assms by (auto simp: algebra_simps)
  then show ?thesis by (simp add: algebra_simps)
qed

lemma or_disjoint_add:
  fixes x lo :: u64
  assumes "unat x < 4294967296" "unat lo < 4294967296"
  shows "push_bit 32 x OR lo = push_bit 32 x + lo"
proof (rule disjunctive_add [symmetric])
  fix n
  have "lo = take_bit 32 lo"
    using assms(2) by (intro word64_eqI) (simp add: unsigned_take_bit_eq take_bit_nat_eq_self)
  then have "bit lo n \<Longrightarrow> n < 32" by (metis bit_take_bit_iff)
  then show "\<not> bit (push_bit 32 x) n \<or> \<not> bit lo n" by (auto simp: bit_push_bit_iff)
qed

lemma unat_digits:
  fixes x lo :: u64
  assumes "unat x < 4294967296" "unat lo < 4294967296"
  shows "unat (push_bit 32 x + lo) = unat x * 4294967296 + unat lo"
proof -
  have "unat (push_bit 32 x) = unat x * 4294967296"
    using assms by (simp only: unat_push_bit_64) simp
  then show ?thesis using assms by (simp add: unat_add_64)
qed

lemma correct_digit_correct:
  fixes v1 v0 lo q rhat left right :: u64
  defines "v \<equiv> unat v1 * 4294967296 + unat v0"
  assumes v1: "2147483648 \<le> unat v1" "unat v1 < 4294967296"
    and v0: "unat v0 < 4294967296" and lo: "unat lo < 4294967296"
    and U: "U < v"
    and "unat q * unat v1 + unat rhat = U" "unat rhat < 4294967296"
    and "unat left = unat q * unat v0"
    and "unat right = unat rhat * 4294967296 + unat lo"
    and "unat q \<le> 4294967297"
    and "(U * 4294967296 + unat lo) div v \<le> unat q"
  shows "\<exists>r. correct_digit v1 v0 lo q rhat left right = Some r \<and>
             unat r = (U * 4294967296 + unat lo) div v"
  using assms(7-12)
proof (induction "4294967296 - unat rhat" arbitrary: q rhat left right rule: less_induct)
  case less
  let ?b = "4294967296 :: nat"
  let ?Q = "(U * ?b + unat lo) div v"
  have vpos: "0 < v" using U by simp
  have "(U + 1) * ?b \<le> v * ?b" using U by (intro mult_le_mono1) simp
  then have "U * ?b + unat lo < v * ?b" using lo by simp
  then have Qb: "?Q < ?b" by (simp add: less_mult_imp_div_less mult.commute)
  note test = digit_test [OF less.prems(1), of ?b "unat v0" "unat lo", folded v_def]
  have le_Q: "n * v \<le> U * ?b + unat lo \<longleftrightarrow> n \<le> ?Q" for n
    using vpos by (simp add: less_eq_div_iff_mult_less_eq)
  show ?case
  proof (cases "q \<ge> 0x100000000 \<or> left > right")
    case False
    then have "unat q \<le> ?Q"
      using test less.prems le_Q by (simp add: word_less_nat_alt not_less)
    then show ?thesis using False less.prems(6) by (subst correct_digit.simps) simp
  next
    case True
    have "?Q < unat q"
    proof (cases "q \<ge> 0x100000000")
      case True then show ?thesis using Qb by (simp add: word_le_nat_alt)
    next
      case False
      with True have "\<not> unat q * v \<le> U * ?b + unat lo"
        using test less.prems by (simp add: word_less_nat_alt)
      then show ?thesis using le_Q by simp
    qed
    then have q: "unat (q - 1) = unat q - 1" "0 < unat q" "?Q \<le> unat q - 1"
      by (simp_all add: unat_sub word_le_nat_alt)
    have r: "unat (rhat + v1) = unat rhat + unat v1"
      using less.prems(2) v1 by (simp add: unat_add_64)
    have inv: "(unat q - 1) * unat v1 + (unat rhat + unat v1) = U"
      using less.prems(1) q(2) by (cases "unat q") auto
    show ?thesis
    proof (cases "rhat + v1 < 0x100000000")
      case rb: True
      then have rb': "unat rhat + unat v1 < ?b" using r by (simp add: word_less_nat_alt)
      have left': "unat (left - v0) = (unat q - 1) * unat v0"
        using less.prems(3) q(2) by (subst unat_sub) (auto simp: word_le_nat_alt diff_mult_distrib)
      have right': "unat (push_bit 32 (rhat + v1) OR lo) = (unat rhat + unat v1) * ?b + unat lo"
        using rb' r lo by (simp add: or_disjoint_add unat_digits)
      have "\<exists>r. correct_digit v1 v0 lo (q - 1) (rhat + v1) (left - v0) (push_bit 32 (rhat + v1) OR lo) = Some r
              \<and> unat r = ?Q"
        using v1 rb' r q inv left' right' less.prems(5) by (intro less.hyps) simp_all
      then show ?thesis using True rb by (subst correct_digit.simps) (simp add: Let_def)
    next
      case rb: False
      then have rb': "?b \<le> unat rhat + unat v1" using r by (simp add: word_less_nat_alt)
      have "(unat q - 1) * unat v0 \<le> ?b * ?b"
        using less.prems(5) v0 by (intro mult_le_mono) simp_all
      also have "\<dots> \<le> (unat rhat + unat v1) * ?b + unat lo" using rb' by simp
      finally have "unat q - 1 \<le> ?Q"
        using digit_test [OF inv, of ?b "unat v0" "unat lo", folded v_def] le_Q by simp
      then show ?thesis using True rb q by (subst correct_digit.simps) (simp add: Let_def)
    qed
  qed
qed

lemma unat_and_mask32: "unat ((x :: u64) AND 0xffffffff) = unat x mod 4294967296"
proof -
  have "x AND 0xffffffff = take_bit 32 x" by (simp add: take_bit_eq_mask mask_eq_exp_minus_1)
  then show ?thesis by (simp add: take_bit_eq_mod unat_mod_distrib)
qed

text \<open>One quotient digit, from the first estimate to the corrected value.\<close>

lemma quotient_digit:
  fixes v U lo :: u64
  defines "v1 \<equiv> drop_bit 32 v" and "v0 \<equiv> v AND 0xffffffff"
  assumes norm: "9223372036854775808 \<le> unat v" and U: "U < v" and lo: "unat lo < 4294967296"
  shows "\<exists>r. correct_digit v1 v0 lo (U div v1) (U mod v1) (U div v1 * v0)
               (push_bit 32 (U mod v1) + lo) = Some r
           \<and> unat r = (unat U * 4294967296 + unat lo) div unat v"
proof -
  let ?b = "4294967296 :: nat"
  have d: "unat v1 = unat v div ?b" "unat v0 = unat v mod ?b"
    unfolding v1_def v0_def by (simp_all add: unat_drop_bit_64 unat_and_mask32)
  have v: "unat v1 * ?b + unat v0 = unat v" using d by simp
  have v1: "2147483648 \<le> unat v1" "unat v1 < ?b" and v0: "unat v0 < ?b"
    using d norm unat_lt_64 [of v] by linarith+
  let ?q = "unat U div unat v1" and ?r = "unat U mod unat v1"
  have q: "unat (U div v1) = ?q" and r: "unat (U mod v1) = ?r"
    by (simp_all add: unat_div_distrib unat_mod_distrib)
  have Uv: "unat U < unat v" using U by (simp add: word_less_nat_alt)
  have rb: "?r < ?b" using v1 by (meson less_le_trans less_imp_le mod_less_divisor zero_less_numeral order_less_le_trans)
  have qr: "?q * unat v1 + ?r = unat U" by simp
  have "?q < 4294967298"
  proof (rule less_mult_imp_div_less)
    show "unat U < 4294967298 * unat v1" using Uv v v0 v1 by linarith
  qed
  then have q2: "?q \<le> 4294967297" by simp
  have "?q * unat v0 \<le> 4294967297 * 4294967295"
    using q2 v0 by (intro mult_le_mono) simp_all
  then have left: "unat (U div v1 * v0) = unat (U div v1) * unat v0"
    by (simp add: unat_mult_64 q)
  have est: "(unat U * ?b + unat lo) div unat v \<le> ?q"
  proof -
    let ?Q = "(unat U * ?b + unat lo) div unat v"
    have "?Q * unat v \<le> unat U * ?b + unat lo" by simp
    then have "?Q * unat v1 * ?b \<le> unat U * ?b + unat lo"
      unfolding v [symmetric] by (simp add: algebra_simps)
    then have "?Q * unat v1 * ?b < (unat U + 1) * ?b" using lo by simp
    then have "?Q * unat v1 \<le> unat U" by simp
    then show ?thesis using v1 by (simp add: less_eq_div_iff_mult_less_eq)
  qed
  show ?thesis
    using correct_digit_correct [of v1 v0 lo "unat U" "U div v1" "U mod v1" "U div v1 * v0"
        "push_bit 32 (U mod v1) + lo", unfolded v]
      v1 v0 lo Uv left q2 est rb qr q r by (simp add: unat_digits)
qed

text \<open>Shifting both operands until the divisor has its top bit set.\<close>

lemma normalise:
  fixes u1 u0 v :: u64
  assumes "u1 < v"
  defines "s \<equiv> builtin_clzll v"
  shows "unat (push_bit s v) = unat v * 2 ^ s" "9223372036854775808 \<le> unat v * 2 ^ s" "s < 64"
    and "unat (if s > 0 then push_bit s u1 OR drop_bit (64 - s) u0 else u1) * 18446744073709551616
       + unat (if s > 0 then push_bit s u0 else u0)
       = (unat u1 * 18446744073709551616 + unat u0) * 2 ^ s" (is "?hi * _ + ?lo = _")
proof -
  let ?W = "18446744073709551616 :: nat"
  have pos: "0 < unat v" using assms(1) by (simp add: word_less_nat_alt)
  let ?l = "bit_len (unat v)"
  have l: "0 < ?l" "?l \<le> 64" and b: "2 ^ (?l - 1) \<le> unat v" "unat v < 2 ^ ?l"
    using bit_len_bounds [OF pos] bit_len_unat [of v] bit_len_rec [OF pos] by simp_all
  have s: "s = 64 - ?l" by (simp add: s_def builtin_clzll_def)
  then show s64: "s < 64" using l by simp
  have e: "(2::nat) ^ ?l * 2 ^ s = ?W" "(2::nat) ^ (?l - 1) * 2 ^ s = 9223372036854775808"
    using l s by (simp_all flip: power_add)
  have lt: "unat v * 2 ^ s < ?W" using b(2) e(1) by (metis mult_less_mono1 zero_less_power zero_less_numeral)
  then show "unat (push_bit s v) = unat v * 2 ^ s" by (simp add: unat_push_bit_64)
  show "9223372036854775808 \<le> unat v * 2 ^ s" using b(1) e(2) by (metis mult_le_mono1)
  show "?hi * ?W + ?lo = (unat u1 * ?W + unat u0) * 2 ^ s"
  proof (cases "s = 0")
    case False
    let ?h = "unat u0 div 2 ^ (64 - s)"
    have split: "(2::nat) ^ (64 - s) * 2 ^ s = ?W"
      using s64 by (simp flip: power_add)
    have h: "?h < 2 ^ s"
      by (rule less_mult_imp_div_less) (use split unat_lt_64 [of u0] in \<open>simp add: mult.commute\<close>)
    have "unat u1 + 1 \<le> unat v" using assms(1) by (simp add: word_less_nat_alt)
    then have "(unat u1 + 1) * 2 ^ s \<le> unat v * 2 ^ s" by (rule mult_le_mono1)
    then have u1: "unat u1 * 2 ^ s + 2 ^ s < ?W" using lt by simp
    have "push_bit s u1 OR drop_bit (64 - s) u0 = push_bit s u1 + drop_bit (64 - s) u0"
    proof (rule disjunctive_add [symmetric])
      fix n
      have "bit (drop_bit (64 - s) u0) n \<Longrightarrow> n < s"
        using s64 by (auto simp: bit_drop_bit_eq dest: bit_imp_le_length)
      then show "\<not> bit (push_bit s u1) n \<or> \<not> bit (drop_bit (64 - s) u0) n"
        by (auto simp: bit_push_bit_iff)
    qed
    then have hi: "?hi = unat u1 * 2 ^ s + ?h"
      using False u1 h by (simp add: unat_add_64 unat_push_bit_64 unat_drop_bit_64)
    have "unat u0 * 2 ^ s = (?h * 2 ^ (64 - s) + unat u0 mod 2 ^ (64 - s)) * 2 ^ s"
      by (simp only: div_mult_mod_eq)
    also have "\<dots> = ?h * ?W + unat u0 mod 2 ^ (64 - s) * 2 ^ s"
      using split by (simp add: add_mult_distrib mult.assoc)
    finally have u0: "unat u0 * 2 ^ s = ?h * ?W + unat u0 mod 2 ^ (64 - s) * 2 ^ s" .
    have "unat u0 mod 2 ^ (64 - s) * 2 ^ s < ?W"
      using split by (metis mod_less_divisor mult_less_mono1 zero_less_numeral zero_less_power)
    then have lo: "?lo = unat u0 mod 2 ^ (64 - s) * 2 ^ s"
      using False u0 by (simp add: unat_push_bit_64)
    show ?thesis unfolding hi lo using u0 by (simp add: algebra_simps)
  qed simp
qed
lemma digit_lt:
  fixes U lo w b :: nat
  assumes "U < w" "lo < b"
  shows "(U * b + lo) div w < b"
proof (rule less_mult_imp_div_less)
  have "(U + 1) * b \<le> w * b" using assms(1) by (intro mult_le_mono1) simp
  then show "U * b + lo < b * w" using assms(2) by (simp add: mult.commute)
qed

text \<open>The remainder after the first digit, computed modulo \<open>2^64\<close>.\<close>

lemma next_remainder:
  fixes u32 lo q w :: u64
  assumes "unat q = (unat u32 * 4294967296 + unat lo) div unat w" "w \<noteq> 0"
  shows "unat (push_bit 32 u32 + (lo - q * w)) = (unat u32 * 4294967296 + unat lo) mod unat w"
proof -
  let ?A = "unat u32 * 4294967296 + unat lo"
  have "(of_nat ?A :: u64) = of_nat (unat q * unat w + ?A mod unat w)"
    unfolding assms(1) by (simp only: div_mult_mod_eq)
  then have "push_bit 32 u32 + (lo - q * w) = of_nat (?A mod unat w)"
    by (simp add: push_bit_eq_mult algebra_simps)
  moreover have "?A mod unat w < 18446744073709551616"
    by (rule less_trans [OF mod_less_divisor unat_lt_64 [of w]]) (simp add: assms(2) unat_gt_0)
  ultimately show ?thesis by (simp add: unat_of_nat_64)
qed

lemma two_digits:
  fixes A lo w b :: nat
  shows "0 < w \<Longrightarrow> A div w * b + (A mod w * b + lo) div w = (A * b + lo) div w"
proof -
  assume "0 < w"
  have "A * b + lo = (A div w * w + A mod w) * b + lo" by (simp only: div_mult_mod_eq)
  also have "\<dots> = (A mod w * b + lo) + A div w * b * w"
    by (simp only: distrib_right distrib_left ac_simps)
  finally show ?thesis using \<open>0 < w\<close> by (simp only: div_mult_self1)
qed

lemma leading_digits_lt: "(A * b + d1) * b + d0 < w * (b * b) \<Longrightarrow> A < (w::nat)"
proof (rule ccontr)
  assume lt: "(A * b + d1) * b + d0 < w * (b * b)" and "\<not> A < w"
  then have "w * (b * b) \<le> A * (b * b)" by (intro mult_le_mono1) simp
  with lt have "(A * b + d1) * b + d0 < A * (b * b)" by (rule less_le_trans)
  then show False by (simp add: algebra_simps)
qed

lemma divmod128by64_quotient:
  assumes "u1 < v"
  shows "\<exists>q. divmod128by64 u1 u0 v = Some q \<and>
             unat q = (unat u1 * 18446744073709551616 + unat u0) div unat v"
proof -
  let ?b = "4294967296 :: nat" and ?s = "builtin_clzll v"
  define w where "w = push_bit ?s v"
  define u32 where "u32 = (if ?s > 0 then push_bit ?s u1 OR drop_bit (64 - ?s) u0 else u1)"
  define u10 where "u10 = (if ?s > 0 then push_bit ?s u0 else u0)"
  define lo1 where "lo1 = drop_bit 32 u10"
  define lo0 where "lo0 = u10 AND 0xffffffff"
  define u where "u = unat u1 * 18446744073709551616 + unat u0"
  let ?v1 = "drop_bit 32 w" and ?v0 = "w AND 0xffffffff"
  note n = normalise(1-3) [OF assms, folded w_def]
    normalise(4) [OF assms, of u0, folded w_def u32_def u10_def u_def]
  have w: "9223372036854775808 \<le> unat w" using n(1,2) by simp
  then have w0: "w \<noteq> 0" "0 < unat w" by auto
  have lo: "unat lo1 = unat u10 div ?b" "unat lo0 = unat u10 mod ?b" "unat lo1 < ?b" "unat lo0 < ?b"
    using unat_lt_64 [of u10] unfolding lo1_def lo0_def
    by (simp_all add: unat_drop_bit_64 unat_and_mask32 less_mult_imp_div_less)
  have U: "(unat u32 * ?b + unat lo1) * ?b + unat lo0 = u * 2 ^ ?s"
    using n(4) lo(1,2) by simp
  have "u + 1 \<le> unat v * 18446744073709551616"
    using assms unat_lt_64 [of u0] unfolding u_def word_less_nat_alt by linarith
  then have "u * 2 ^ ?s < unat v * 18446744073709551616 * 2 ^ ?s"
    by (intro mult_strict_right_mono) simp_all
  then have "u * 2 ^ ?s < unat w * 18446744073709551616" unfolding n(1) by (simp only: ac_simps)
  then have u32: "u32 < w"
    using leading_digits_lt [of "unat u32" ?b "unat lo1" "unat lo0" "unat w"]
    unfolding U word_less_nat_alt by simp
  from quotient_digit [OF w u32 lo(3)] obtain q1 where
    q1: "correct_digit ?v1 ?v0 lo1 (u32 div ?v1) (u32 mod ?v1) (u32 div ?v1 * ?v0)
           (push_bit 32 (u32 mod ?v1) + lo1) = Some q1"
    and Q1: "unat q1 = (unat u32 * ?b + unat lo1) div unat w" by blast
  define u21 where "u21 = push_bit 32 u32 + (lo1 - q1 * w)"
  have R: "unat u21 = (unat u32 * ?b + unat lo1) mod unat w"
    unfolding u21_def by (rule next_remainder [OF Q1 w0(1)])
  then have u21: "u21 < w" using w0 by (simp add: word_less_nat_alt)
  from quotient_digit [OF w u21 lo(4)] obtain q0 where
    q0: "correct_digit ?v1 ?v0 lo0 (u21 div ?v1) (u21 mod ?v1) (u21 div ?v1 * ?v0)
           (push_bit 32 (u21 mod ?v1) + lo0) = Some q0"
    and Q0: "unat q0 = (unat u21 * ?b + unat lo0) div unat w" by blast
  have "unat (u21 mod ?v1) < ?b"
    using w by (auto simp: unat_mod_distrib unat_drop_bit_64 div_greater_zero_iff less_mult_imp_div_less
        intro!: less_trans [OF mod_less_divisor])
  then have r: "push_bit 32 (u21 mod ?v1) OR lo0 = push_bit 32 (u21 mod ?v1) + lo0"
    using lo(4) by (rule or_disjoint_add)
  have lt: "unat q1 < ?b" "unat q0 < ?b"
    using digit_lt [OF u32 [unfolded word_less_nat_alt] lo(3)]
      digit_lt [OF u21 [unfolded word_less_nat_alt] lo(4)] Q1 Q0 by simp_all
  have res: "divmod128by64 u1 u0 v = Some (push_bit 32 q1 OR q0)"
    unfolding divmod128by64_def Let_def w_def [symmetric] u32_def [symmetric] u10_def [symmetric]
      lo1_def [symmetric] lo0_def [symmetric] q1 option.case u21_def [symmetric] r q0 ..
  have "unat (push_bit 32 q1 OR q0) = u * 2 ^ ?s div unat w"
    using two_digits [OF w0(2), of "unat u32 * ?b + unat lo1" ?b "unat lo0"]
    unfolding or_disjoint_add [OF lt] unat_digits [OF lt] U by (simp add: Q1 Q0 R)
  then show ?thesis using res n(1) by (simp add: u_def)
qed

lemma div128by64_quotient:
  assumes "unat u div 18446744073709551616 < unat v"
  shows "\<exists>q. div128by64 u v = Some q \<and> unat q = unat u div unat v"
proof -
  let ?W = "18446744073709551616 :: nat"
  let ?u1 = "ucast (drop_bit 64 u) :: u64" and ?u0 = "ucast (u AND 0xffffffffffffffff) :: u64"
  have "u AND 0xffffffffffffffff = take_bit 64 u" by (simp add: take_bit_eq_mask mask_eq_exp_minus_1)
  then have u0: "unat ?u0 = unat u mod ?W"
    by (simp add: unsigned_ucast_eq take_bit_eq_mod unat_mod_distrib)
  have "unat (drop_bit 64 u) = unat u div ?W"
    using unat_lt_128 [of u] by (subst unsigned_drop_bit_eq) (simp add: drop_bit_eq_div take_bit_eq_mod)
  moreover have "unat u div ?W < ?W" using assms unat_lt_64 [of v] by linarith
  ultimately have u1: "unat ?u1 = unat u div ?W"
    by (simp add: unsigned_ucast_eq take_bit_eq_mod)
  have "?u1 < v" using assms u1 by (simp add: word_less_nat_alt)
  from divmod128by64_quotient [OF this, of ?u0] show ?thesis
    unfolding div128by64_def u1 u0 by (simp only: div_mult_mod_eq)
qed

section \<open>Division by an invariant divisor\<close>

text \<open>Granlund and Montgomery: a multiplier slightly above \<open>P / d\<close> gives the exact quotient.\<close>

lemma invariant_division:
  fixes n d m P e N :: nat
  assumes "m * d = P + e" "e \<le> d" "n * d < P" "0 < d" 
  shows "n * m div P = n div d"
proof (rule div_nat_eqI)
  have P: "n * m * d = n * P + n * e" by (simp only: mult.assoc assms(1) distrib_left)
  have "n * e < P" using assms(2,3) by (meson le_less_trans mult_le_mono2)
  have "n div d * d \<le> n" by simp
  then have "n div d * d * P \<le> n * P" by (rule mult_le_mono1)
  then have "P * (n div d) * d \<le> n * m * d" unfolding P by (simp only: ac_simps trans_le_add1)
  then show "P * (n div d) \<le> n * m" using assms(4) by simp
  have "n + 1 \<le> (n div d + 1) * d" using assms(4) dividend_less_div_times [of d n] by simp
  then have "(n + 1) * P \<le> (n div d + 1) * d * P" by (rule mult_le_mono1)
  then have "n * m * d < P * Suc (n div d) * d" unfolding P using \<open>n * e < P\<close> by (simp add: algebra_simps)
  then show "n * m < P * Suc (n div d)" using assms(4) by simp
qed

lemma unat_ucast_128: "unat (ucast (a :: u64) :: u128) = unat a"
  using less_trans [OF unat_lt_64 [of a], of "2 ^ 128"]
  by (simp add: unsigned_ucast_eq take_bit_nat_eq_self)

lemma unat_muluh64: "unat (muluh64 a b) = unat a * unat b div 18446744073709551616"
proof -
  have "unat a * unat b \<le> 18446744073709551615 * 18446744073709551615"
    using unat_lt_64 [of a] unat_lt_64 [of b] by (intro mult_le_mono) linarith+
  then have p: "unat a * unat b < 340282366920938463463374607431768211456"
    "unat a * unat b div 18446744073709551616 < 18446744073709551616" by simp_all
  have "unat ((ucast a :: u128) * ucast b) = unat a * unat b"
    using p by (simp add: unat_word_ariths unat_ucast_128)
  then have "unat (drop_bit 64 ((ucast a :: u128) * ucast b)) = unat a * unat b div 18446744073709551616"
    using p by (subst unsigned_drop_bit_eq) (simp add: drop_bit_eq_div take_bit_eq_mod)
  then show ?thesis using p by (simp add: muluh64_def unsigned_ucast_eq take_bit_eq_mod)
qed

lemma shifted_average:
  fixes t n l :: nat
  assumes "t \<le> n" "0 < l"
  shows "(t + (n - t) div 2) div 2 ^ (l - 1) = (t + n) div 2 ^ l"
proof -
  have "t + (n - t) div 2 = (t + n) div 2" using assms(1) by presburger
  moreover have "(2::nat) ^ l = 2 * 2 ^ (l - 1)" using assms(2) by (cases l) simp_all
  ultimately show ?thesis by (simp only: div_mult2_eq)
qed

text \<open>The set-up: for \<open>2 \<le> d \<le> 2^63\<close> it returns \<open>m' = 2^64 (2^l - d) / d + 1\<close> and the shifts.\<close>

lemma prep_ct_div_result:
  assumes "2 \<le> unat d" "unat d \<le> 9223372036854775808"
  defines "l \<equiv> unat (ceil_log2 d)"
  shows "\<exists>m s. prep_ct_div d = Some (m, 1, s) \<and> unat s = l - 1 \<and>
             unat m = 18446744073709551616 * (2 ^ l - unat d) div unat d + 1 \<and> 1 \<le> l \<and> l < 64"
proof -
  let ?W = "18446744073709551616 :: nat"
  have d0: "d \<noteq> 0" using assms(1) by auto
  note b = ceil_log2_bounds [OF d0, folded l_def]
  have l1: "1 \<le> l" using b(1) assms(1) by (cases l) auto
  have "(2::nat) ^ l < 2 ^ 64" using b(2) assms(2) by simp
  then have l64: "l < 64" by (rule power_less_imp_less_exp [rotated]) simp
  let ?x = "push_bit l 1 - d"
  have x: "unat ?x = 2 ^ l - unat d"
    using b(1) l64 by (subst unat_sub) (simp_all add: word_le_nat_alt unat_pow2_64)
  then have xd: "unat ?x < unat d" using b(2) by simp
  have u: "unat (push_bit 64 (1 :: u128) * ucast ?x) = ?W * unat ?x"
    using unat_lt_64 [of ?x] by (simp add: unat_word_ariths unat_ucast_128)
  obtain q where q: "div128by64 (push_bit 64 (1 :: u128) * ucast ?x) d = Some q"
    and Q: "unat q = ?W * unat ?x div unat d"
    using div128by64_quotient [of "push_bit 64 (1 :: u128) * ucast ?x" d] xd unfolding u by auto
  have "?W * unat ?x + ?W \<le> ?W * unat d" using xd by linarith
  then have "?W * unat ?x < (?W - 1) * unat d" using assms(2) by simp
  then have "unat q < ?W - 1" unfolding Q by (rule less_mult_imp_div_less)
  then have m: "unat (1 + q) = unat q + 1" by (simp add: unat_add_64)
  have l: "\<not> ceil_log2 d < 1" using l1 unfolding l_def by (simp add: word_less_nat_alt)
  then have l': "unat (ceil_log2 d - 1) = l - 1"
    using l1 unfolding l_def by (subst unat_sub) (simp_all add: word_le_nat_alt)
  have "prep_ct_div d = Some (1 + q, 1, ceil_log2 d - 1)"
    unfolding prep_ct_div_def Let_def l_def [symmetric] q using l by (simp add: word_gt_0)
  then show ?thesis using Q m x l' l1 l64 by simp
qed

lemma ct_div_result:
  assumes "2 \<le> unat d" "unat d \<le> 9223372036854775808" "prep_ct_div d = Some (m, s1, s2)"
  shows "ct_div n d m s1 s2 = n div d" "s1 = 1" "s2 < 64"
proof -
  let ?W = "18446744073709551616 :: nat" and ?l = "unat (ceil_log2 d)"
  have m: "unat m = ?W * (2 ^ ?l - unat d) div unat d + 1" and s1: "s1 = 1"
    and s2: "unat s2 = ?l - 1" and l: "1 \<le> ?l" "?l < 64"
    using prep_ct_div_result [OF assms(1,2)] assms(3) by (auto simp: unat_of_nat_64)
  then show "s1 = 1" "s2 < 64" by (simp_all add: word_less_nat_alt)
  have d: "d \<noteq> 0" "0 < unat d" using assms(1) by auto
  note b = ceil_log2_bounds [OF d(1)]
  let ?P = "?W * 2 ^ ?l" and ?M = "unat m + ?W" and ?t = "unat m * unat n div ?W"
  define r where "r = ?W * (2 ^ ?l - unat d) mod unat d"
  have "?W * (2 ^ ?l - unat d) div unat d * unat d + r = ?W * (2 ^ ?l - unat d)"
    unfolding r_def by simp
  also have "\<dots> = ?P - ?W * unat d" by (simp only: diff_mult_distrib2)
  finally have "?M * unat d = ?P + (unat d - r)"
    using b(1) mod_less_divisor [OF d(2), of "?W * (2 ^ ?l - unat d)", folded r_def]
    unfolding m by (simp add: algebra_simps)
  then have quot: "unat n * ?M div ?P = unat n div unat d"
  proof (rule invariant_division)
    show "unat d - r \<le> unat d" by simp
    have "unat n * unat d < ?W * unat d" using d by simp
    also have "\<dots> \<le> ?P" using b(1) by simp
    finally show "unat n * unat d < ?P" .
  qed (rule d)
  have t: "?t \<le> unat n"
    using unat_lt_64 [of m] by (simp add: div_le_dividend less_imp_le mult_le_mono1 
        div_le_mono [of "unat m * unat n" "?W * unat n" ?W, simplified])
  have "unat n * ?M div ?P = (?t + unat n) div 2 ^ ?l"
    by (simp only: div_mult2_eq distrib_left mult.commute [of "unat n" "unat m"] div_mult_self3) (simp add: add.commute)
  then have q: "(?t + (unat n - ?t) div 2) div 2 ^ (?l - 1) = unat n div unat d"
    using shifted_average [OF t, of ?l] l quot by simp
  have "?t + (unat n - ?t) div 2 \<le> unat n" using t by linarith
  then have "?t + (unat n - ?t) div 2 < ?W" using unat_lt_64 [of n] by linarith
  then have "unat (ct_div n d m s1 s2) = unat n div unat d"
    unfolding ct_div_def Let_def using t q
    by (simp add: unat_drop_bit_64 s1 s2 unat_muluh64 unat_add_64 unat_sub word_le_nat_alt)
  then show "ct_div n d m s1 s2 = n div d" by (intro word64_eqI) (simp add: unat_div_distrib)
qed
lemma ct_mod_result:
  assumes "2 \<le> unat d" "unat d \<le> 9223372036854775808" "prep_ct_div d = Some (m, s1, s2)"
  shows "ct_mod n d m s1 s2 = n mod d"
  unfolding ct_mod_def ct_div_result(1) [OF assms] Let_def by (simp add: minus_div_mult_eq_mod)

lemma SHR_small: "s < 64 \<Longrightarrow> SHR x s = drop_bit (unat s) x"
proof -
  assume "s < 64"
  then have "take_bit 6 s = s"
    by (intro word64_eqI) (simp add: unsigned_take_bit_eq take_bit_nat_eq_self word_less_nat_alt)
  then show ?thesis by (simp add: SHR_def take_bit_eq_mask mask_eq_exp_minus_1)
qed

text \<open>The Jasmin routines compute what the C ones do, on the constants of \<open>prep_ct_div\<close>.\<close>

lemma j_ct_div_eq: "s1 < 64 \<Longrightarrow> s2 < 64 \<Longrightarrow> j_ct_div n m s1 s2 = ct_div n d m s1 s2"
  by (simp add: j_ct_div_def ct_div_def SHR_small)

lemma j_ct_mod_result:
  assumes "2 \<le> unat d" "unat d \<le> 9223372036854775808" "prep_ct_div d = Some (m, s1, s2)"
  shows "j_ct_div n m s1 s2 = n div d" "j_ct_mod n d m s1 s2 = n mod d"
  using ct_div_result [OF assms] j_ct_div_eq [of s1 s2 n m d]
  by (simp_all add: j_ct_mod_def minus_div_mult_eq_mod)

section \<open>Selections\<close>

lemma U64_TERNARY_if [ct_simps]: "U64_TERNARY b t f = (if b then t else f)"
  by (simp add: U64_TERNARY_def)

lemma cond_obv_cpy_u64_if [ct_simps]: "cond_obv_cpy_u64 c d s = (if c then s else d)"
  by (simp add: cond_obv_cpy_u64_def ct_simps)

lemma cond_obv_swap_u64_if [ct_simps]: "cond_obv_swap_u64 t c a b = (if c then (b, a) else (a, b))"
  by (simp add: cond_obv_swap_u64_def ct_simps)

lemma j_ternary_if [ct_simps]: "j_ternary (of_bool b) x y = (if b then x else y)"
  by (simp add: j_ternary_def)

lemma j_ternary32_if [ct_simps]: "j_ternary32 (of_bool b) x y = (if b then x else y)"
  by (simp add: j_ternary32_def)

lemma j_cond_obv_swap_u64_if [ct_simps]:
  "j_cond_obv_swap_u64 (of_bool c) a b = (if c then (b, a) else (a, b))"
  by (simp add: j_cond_obv_swap_u64_def ct_simps)

section \<open>Powers of two\<close>

lemma first_pow2_leq_bounds:
  assumes "n \<noteq> 0"
  shows "unat (first_pow2_leq n) \<le> unat n" "unat n < 2 * unat (first_pow2_leq n)"
    "\<exists>k < 64. first_pow2_leq n = 2 ^ k"
proof -
  have pos: "0 < unat n" using assms by (simp add: unat_gt_0)
  let ?k = "bit_len (unat n) - 1"
  have k: "bit_len (unat n) = Suc ?k" "?k < 64"
    using bit_len_rec [OF pos] bit_len_unat [of n] by simp_all
  have e: "first_pow2_leq n = 2 ^ ?k"
    using k by (simp add: first_pow2_leq_def builtin_clzll_def)
  show "unat (first_pow2_leq n) \<le> unat n" "unat n < 2 * unat (first_pow2_leq n)"
    using bit_len_bounds [OF pos] k unfolding e unat_pow2_64 [OF k(2)] by (simp_all flip: power_Suc)
  show "\<exists>k < 64. first_pow2_leq n = 2 ^ k" using e k(2) by blast
qed

lemma j_floor_log2_eq: "n \<noteq> 0 \<Longrightarrow> j_floor_log2 n = floor_log2 n"
proof -
  assume "n \<noteq> 0"
  then have pos: "0 < unat n" by (simp add: unat_gt_0)
  then show ?thesis using bit_len_rec [OF pos] bit_len_unat [of n] \<open>n \<noteq> 0\<close>
    by (simp add: j_floor_log2_def builtin_clzll_def floor_log2_def floor_log2_loop_eq of_nat_diff)
qed

text \<open>The two ceilings agree: at most one exponent has \<open>n \<le> 2^k < 2n\<close>.\<close>

lemma ceil_exponent_unique:
  assumes "n \<le> 2 ^ a" "2 ^ a < 2 * (n::nat)" "n \<le> 2 ^ b" "2 ^ b < 2 * n"
  shows "a = b"
proof -
  have "(2::nat) ^ a < 2 ^ Suc b" "(2::nat) ^ b < 2 ^ Suc a" using assms by simp_all
  then have "a < Suc b" "b < Suc a" by (simp_all only: power_strict_increasing_iff one_less_numeral_iff semiring_norm)
  then show ?thesis by simp
qed

lemma j_ceil_log2_eq:
  assumes "n \<noteq> 0" shows "j_ceil_log2 n = ceil_log2 n"
proof (rule word64_eqI)
  let ?k = "bit_len (unat (n - 1))"
  have n1: "unat (n - 1) = unat n - 1" "0 < unat n"
    using assms by (simp_all add: unat_minus_one unat_gt_0)
  have k: "unat (j_ceil_log2 n) = ?k"
    using bit_len_unat [of "n - 1"] by (simp add: j_ceil_log2_def builtin_clzll_def of_nat_diff unat_of_nat_64)
  have "unat n \<le> 2 ^ ?k \<and> 2 ^ ?k < 2 * unat n"
  proof (cases "unat n = 1")
    case False
    then have p: "0 < unat (n - 1)" using n1 by simp
    then show ?thesis using bit_len_bounds [OF p] bit_len_rec [OF p] n1 by simp linarith
  qed (use n1 in simp)
  then show "unat (j_ceil_log2 n) = unat (ceil_log2 n)"
    using ceil_exponent_unique ceil_log2_bounds [OF assms] k by metis
qed

end
