(* ===== verification/OSort.thy ===== *)
theory OSort
  imports Prelude
begin

text \<open>
  The oblivious sort of \<^verbatim>\<open>util/osort.jinc\<close>: Batcher's odd-even merge sort as four nested
  loops over a range \<open>[lb, ub)\<close> of an array, with the comparison supplied by the client.
  Which pairs are compared depends on \<open>lb\<close> and \<open>ub\<close> alone, never on the data.

  The indices are natural numbers: the loops add at most twice the length of an array that
  fits in memory, so the 64-bit arithmetic of the source does not wrap. Speculation barriers
  (\<open>msf\<close>) and register spills have no effect on the values and are left out.

  Correctness for every length: the 0-1 principle reduces sorting by a key to 0-1 sequences;
  for those, padded with ones to a power of two, each stride of a merge sorts the columns of
  every block.
\<close>

section \<open>Definitions\<close>

definition comp_and_swap :: "('a \<Rightarrow> 'a \<Rightarrow> bool) \<Rightarrow> nat \<Rightarrow> nat \<Rightarrow> 'a list \<Rightarrow> 'a list" where
  "comp_and_swap cmp a b xs = (if cmp (xs ! a) (xs ! b) then swap_at a b xs else xs)"

text \<open>Innermost loop: \<open>i\<close> from \<open>j\<close> while \<open>i_stop \<noteq> i\<close>; pairs that leave their region of
  length \<open>2 p\<close> are skipped.\<close>

definition osort_i :: "('a \<Rightarrow> 'a \<Rightarrow> bool) \<Rightarrow> nat \<Rightarrow> nat \<Rightarrow> nat \<Rightarrow> nat \<Rightarrow> nat \<Rightarrow> 'a list \<Rightarrow> 'a list" where
  "osort_i cmp lb p k j i_count =
     fold (\<lambda>i xs. if i div (2 * p) = (i + k) div (2 * p)
                  then comp_and_swap cmp (lb + i) (lb + k + i) xs else xs) [j..<j + i_count]"

text \<open>The loop over \<open>j\<close>. The stride \<open>k\<close> is never 0 where it is entered; the first
  conjunct makes the recursion total.\<close>

function osort_j :: "('a \<Rightarrow> 'a \<Rightarrow> bool) \<Rightarrow> nat \<Rightarrow> nat \<Rightarrow> nat \<Rightarrow> nat \<Rightarrow> nat \<Rightarrow> 'a list \<Rightarrow> 'a list" where
  "osort_j cmp lb n p k j xs =
     (if 0 < k \<and> j < n - k then
        (let span = n - k - j;
             i_count = (if span \<le> k then span else k)
         in osort_j cmp lb n p k (j + 2 * k) (osort_i cmp lb p k j i_count xs))
      else xs)"
  by auto
termination
  by (relation "measure (\<lambda>(cmp, lb, n, p, k, j, xs). n - j)") auto

fun osort_k :: "('a \<Rightarrow> 'a \<Rightarrow> bool) \<Rightarrow> nat \<Rightarrow> nat \<Rightarrow> nat \<Rightarrow> nat \<Rightarrow> 'a list \<Rightarrow> 'a list" where
  "osort_k cmp lb n p k xs =
     (if k = 0 then xs
      else osort_k cmp lb n p (k div 2) (osort_j cmp lb n p k ((p - 1) AND k) xs))"

function osort_p :: "('a \<Rightarrow> 'a \<Rightarrow> bool) \<Rightarrow> nat \<Rightarrow> nat \<Rightarrow> nat \<Rightarrow> 'a list \<Rightarrow> 'a list" where
  "osort_p cmp lb n p xs =
     (let xs = osort_k cmp lb n p p xs
      in if 0 < p \<and> 2 * p < n then osort_p cmp lb n (2 * p) xs else xs)"
  by auto
termination
  by (relation "measure (\<lambda>(cmp, lb, n, p, xs). n - p)") auto

declare osort_j.simps [simp del] osort_k.simps [simp del] osort_p.simps [simp del]

definition osort :: "('a \<Rightarrow> 'a \<Rightarrow> bool) \<Rightarrow> nat \<Rightarrow> nat \<Rightarrow> 'a list \<Rightarrow> 'a list" where
  "osort cmp lb ub xs = (let n = ub - lb in if n > 1 then osort_p cmp lb n 1 xs else xs)"

subsection \<open>Notions of the correctness proof\<close>

function osort_is :: "nat \<Rightarrow> nat \<Rightarrow> nat \<Rightarrow> nat list" where
  "osort_is n k j =
     (if 0 < k \<and> j < n - k then [j..<j + min k (n - k - j)] @ osort_is n k (j + 2 * k) else [])"
  by auto
termination
  by (relation "measure (\<lambda>(n, k, j). n - j)") auto

declare osort_is.simps [simp del]

abbreviation net :: "('a \<Rightarrow> 'a \<Rightarrow> bool) \<Rightarrow> nat \<Rightarrow> nat \<Rightarrow> nat list \<Rightarrow> 'a list \<Rightarrow> 'a list" where
  "net cmp lb k \<equiv> fold (\<lambda>i. comp_and_swap cmp (lb + i) (lb + k + i))"

abbreviation stride_is :: "nat \<Rightarrow> nat \<Rightarrow> nat \<Rightarrow> nat list" where
  "stride_is n p k \<equiv> filter (\<lambda>i. i div (2 * p) = (i + k) div (2 * p)) (osort_is n k ((p - 1) AND k))"

abbreviation gt_bool :: "bool \<Rightarrow> bool \<Rightarrow> bool" where
  "gt_bool a b \<equiv> a \<and> \<not> b"

definition padded :: "nat \<Rightarrow> nat \<Rightarrow> bool list \<Rightarrow> nat \<Rightarrow> bool" where
  "padded lb n xs i = (i < n \<longrightarrow> xs ! (lb + i))"

definition exchange :: "(nat \<Rightarrow> bool) \<Rightarrow> nat \<Rightarrow> (nat \<Rightarrow> bool) \<Rightarrow> nat \<Rightarrow> bool" where
  "exchange L k a x =
     (if L x then a x \<and> a (x + k) else if k \<le> x \<and> L (x - k) then a (x - k) \<or> a x else a x)"

definition left_end :: "nat \<Rightarrow> nat \<Rightarrow> nat \<Rightarrow> bool" where
  "left_end p k x \<longleftrightarrow> (p - 1) AND k \<le> x \<and> (x - ((p - 1) AND k)) mod (2 * k) < k
     \<and> x div (2 * p) = (x + k) div (2 * p)"

definition column_zeros :: "nat \<Rightarrow> nat \<Rightarrow> nat \<Rightarrow> nat \<Rightarrow> nat" where
  "column_zeros k \<alpha> \<beta> r = (\<alpha> + k - 1 - r) div k + (\<beta> + k - 1 - r) div k"

definition columns_sorted :: "nat \<Rightarrow> nat \<Rightarrow> (nat \<Rightarrow> nat) \<Rightarrow> (nat \<Rightarrow> nat) \<Rightarrow> (nat \<Rightarrow> bool) \<Rightarrow> bool" where
  "columns_sorted p k \<alpha> \<beta> a \<longleftrightarrow>
     (\<forall>x. a x \<longleftrightarrow> column_zeros k (\<alpha> (x div (2 * p))) (\<beta> (x div (2 * p))) (x mod k)
                \<le> (x div k) mod (2 * p div k))"

definition blocks_sorted :: "nat \<Rightarrow> (nat \<Rightarrow> bool) \<Rightarrow> bool" where
  "blocks_sorted p a \<longleftrightarrow> (\<forall>c. \<exists>z \<le> p. \<forall>y < p. a (p * c + y) = (z \<le> y))"

definition permutes_range :: "nat \<Rightarrow> nat \<Rightarrow> 'a list \<Rightarrow> 'a list \<Rightarrow> bool" where
  "permutes_range lb ub xs ys \<longleftrightarrow> length ys = length xs \<and> take lb ys = take lb xs \<and>
     drop ub ys = drop ub xs \<and> mset ys = mset xs"

section \<open>The comparators of one stride\<close>

lemma fold_if_filter: "fold (\<lambda>i xs. if P i then f i xs else xs) is xs = fold f (filter P is) xs"
  by (induction "is" arbitrary: xs) simp_all

lemma osort_j_net:
  "osort_j cmp lb n p k j xs =
     net cmp lb k (filter (\<lambda>i. i div (2 * p) = (i + k) div (2 * p)) (osort_is n k j)) xs"
proof (induction cmp lb n p k j xs rule: osort_j.induct)
  case (1 cmp lb n p k j xs)
  show ?case
  proof (cases "0 < k \<and> j < n - k")
    case True
    let ?c = "if n - k - j \<le> k then n - k - j else k"
    have c: "?c = min k (n - k - j)" by simp
    have IH: "osort_j cmp lb n p k (j + 2 * k) (osort_i cmp lb p k j ?c xs) =
      net cmp lb k (filter (\<lambda>i. i div (2 * p) = (i + k) div (2 * p)) (osort_is n k (j + 2 * k)))
        (osort_i cmp lb p k j ?c xs)"
      by (rule 1 [OF True refl refl])
    have "osort_j cmp lb n p k j xs = osort_j cmp lb n p k (j + 2 * k) (osort_i cmp lb p k j ?c xs)"
      using True by (simp only: osort_j.simps [of cmp lb n p k j] Let_def if_True simp_thms)
    moreover have "osort_is n k j = [j..<j + ?c] @ osort_is n k (j + 2 * k)"
      using True unfolding c by (simp only: osort_is.simps [of n k j] if_True simp_thms)
    ultimately show ?thesis using IH by (simp add: osort_i_def fold_if_filter)
  next
    case False
    then show ?thesis
      by (simp only: osort_j.simps [of cmp lb n p k j] osort_is.simps [of n k j] if_False
          filter.simps fold.simps id_apply)
  qed
qed

lemma osort_k_net:
  "k \<noteq> 0 \<Longrightarrow> osort_k cmp lb n p k xs = osort_k cmp lb n p (k div 2) (net cmp lb k (stride_is n p k) xs)"
  by (subst osort_k.simps) (simp add: osort_j_net)

lemma set_osort_is:
  "0 < k \<Longrightarrow> set (osort_is n k j) = {i. j \<le> i \<and> i < n - k \<and> (i - j) mod (2 * k) < k}"
proof (induction n k j rule: osort_is.induct)
  case (1 n k j)
  show ?case
  proof (cases "j < n - k")
    case True
    have IH: "i \<in> set (osort_is n k j) \<longleftrightarrow> j \<le> i \<and> i < j + min k (n - k - j) \<or>
        j + 2 * k \<le> i \<and> i < n - k \<and> (i - (j + 2 * k)) mod (2 * k) < k" for i
      using 1 True by (subst osort_is.simps) simp
    have "i \<in> set (osort_is n k j) \<longleftrightarrow> j \<le> i \<and> i < n - k \<and> (i - j) mod (2 * k) < k" for i
    proof (cases "i < j + 2 * k")
      case True
      then have "j \<le> i \<Longrightarrow> (i - j) mod (2 * k) = i - j" by (intro mod_less) linarith
      then show ?thesis unfolding IH using True \<open>j < n - k\<close> by auto
    next
      case False
      then have "(i - j) mod (2 * k) = (i - (j + 2 * k)) mod (2 * k)"
        using le_mod_geq [of "2 * k" "i - j"] by simp
      then show ?thesis unfolding IH using False by auto
    qed
    then show ?thesis by blast
  next
    case False
    then show ?thesis by (subst osort_is.simps) auto
  qed
qed

lemma distinct_osort_is: "distinct (osort_is n k j)"
proof (induction n k j rule: osort_is.induct)
  case (1 n k j)
  then show ?case
    by (subst osort_is.simps) (auto simp: set_osort_is)
qed

section \<open>Batcher's merge on 0-1 sequences\<close>

text \<open>
  A 0-1 sequence of length \<open>n\<close> is followed by ones: a comparator that reaches beyond \<open>n\<close>
  would not change it, so the network for \<open>n\<close> entries is the one for a power of two.
\<close>

lemma length_comp_and_swap [simp]: "length (comp_and_swap cmp a b xs) = length xs"
  by (simp add: comp_and_swap_def)

lemma length_net [simp]: "length (net cmp lb k is xs) = length xs"
  by (induction "is" arbitrary: xs) simp_all

lemma padded_comp_and_swap:
  assumes "i + k < n" "lb + n \<le> length xs" "0 < k"
  shows "padded lb n (comp_and_swap gt_bool (lb + i) (lb + k + i) xs) = exchange (\<lambda>x. x = i) k (padded lb n xs)"
  using assms by (auto simp: fun_eq_iff padded_def exchange_def comp_and_swap_def nth_swap_at add.commute add.left_commute)

lemma padded_net:
  assumes "distinct is" "\<And>i. i \<in> set is \<Longrightarrow> i + k < n \<and> i + k \<notin> set is"
    "lb + n \<le> length xs" "0 < k"
  shows "padded lb n (net gt_bool lb k is xs) = exchange (\<lambda>x. x \<in> set is) k (padded lb n xs)"
  using assms
proof (induction "is" arbitrary: xs)
  case Nil
  then show ?case by (simp add: exchange_def fun_eq_iff)
next
  case (Cons i "is")
  let ?xs = "comp_and_swap gt_bool (lb + i) (lb + k + i) xs"
  have IH: "padded lb n (net gt_bool lb k is ?xs) = exchange (\<lambda>x. x \<in> set is) k (padded lb n ?xs)"
    using Cons.prems by (intro Cons.IH) auto
  have i: "i + k < n" "i \<notin> set is" "i + k \<notin> set is" using Cons.prems by auto
  have "padded lb n ?xs = exchange (\<lambda>x. x = i) k (padded lb n xs)"
    using i Cons.prems by (intro padded_comp_and_swap) auto
  moreover have "exchange (\<lambda>x. x \<in> set is) k (exchange (\<lambda>x. x = i) k a) = exchange (\<lambda>x. x \<in> set (i # is)) k a" for a
  proof
    fix x
    have "x \<in> set is \<Longrightarrow> x + k \<noteq> i" using Cons.prems(2) [of x] by auto
    moreover have "k \<le> x \<Longrightarrow> x - k \<in> set is \<Longrightarrow> x \<noteq> i" using Cons.prems(2) [of "x - k"] by auto
    ultimately show "exchange (\<lambda>x. x \<in> set is) k (exchange (\<lambda>x. x = i) k a) x = exchange (\<lambda>x. x \<in> set (i # is)) k a x"
      using i Cons.prems(4) by (auto simp: exchange_def)
  qed
  ultimately show ?case using IH by simp
qed

lemma left_end_alternates: "0 < k \<Longrightarrow> left_end p k x \<Longrightarrow> \<not> left_end p k (x + k)"
proof
  let ?j = "(p - 1) AND k"
  assume k: "0 < k" and "left_end p k x" "left_end p k (x + k)"
  then have le: "?j \<le> x" and a: "(x - ?j) mod (2 * k) < k" and "(x + k - ?j) mod (2 * k) < k"
    by (auto simp: left_end_def)
  then have b: "((x - ?j) mod (2 * k) + k) mod (2 * k) < k"
    by (simp add: mod_add_left_eq)
  then show False using a k by simp
qed

lemma padded_stride:
  assumes "0 < k" "lb + n \<le> length xs"
  shows "padded lb n (net gt_bool lb k (stride_is n p k) xs) = exchange (left_end p k) k (padded lb n xs)"
proof -
  have s: "x \<in> set (stride_is n p k) \<longleftrightarrow> left_end p k x \<and> x < n - k" for x
    using assms(1) by (auto simp: set_osort_is left_end_def)
  have alt: "k \<le> x \<Longrightarrow> left_end p k (x - k) \<Longrightarrow> \<not> left_end p k x" for x
    using left_end_alternates [OF assms(1), of p "x - k"] by simp
  have "padded lb n (net gt_bool lb k (stride_is n p k) xs)
      = exchange (\<lambda>x. x \<in> set (stride_is n p k)) k (padded lb n xs)"
    using assms left_end_alternates [OF assms(1)] s
    by (intro padded_net) (auto intro: distinct_filter distinct_osort_is)
  also have "\<dots> = exchange (left_end p k) k (padded lb n xs)"
    unfolding s using alt by (auto simp: exchange_def fun_eq_iff padded_def)
  finally show ?thesis .
qed

text \<open>
  Inside a block of \<open>2 p\<close> entries made of two sorted halves with \<open>\<alpha>\<close> and \<open>\<beta>\<close> zeros, the
  entries whose index is \<open>r\<close> modulo \<open>k\<close> (a column) contain \<open>column_zeros k \<alpha> \<beta> r\<close> zeros, and
  no stride that is a multiple of \<open>k\<close> changes that. After the stride \<open>k\<close> each column is sorted.
\<close>

lemma div_half_split:
  fixes X k :: nat
  assumes "0 < k"
  shows "X div k = (X + k) div (2 * k) + X div (2 * k)"
    "X div (2 * k) \<le> (X + k) div (2 * k)" "(X + k) div (2 * k) \<le> X div (2 * k) + 1"
proof -
  have "(X + k) div (2 * k) = (X div k + 1) div 2" "X div (2 * k) = X div k div 2"
    using div_mult2_eq [of "X + k" k 2] div_mult2_eq [of X k 2] div_add_self2 [of k X] assms
    by (simp_all add: ac_simps)
  then show "X div k = (X + k) div (2 * k) + X div (2 * k)"
    "X div (2 * k) \<le> (X + k) div (2 * k)" "(X + k) div (2 * k) \<le> X div (2 * k) + 1" by linarith+
qed

lemma column_zeros_split:
  fixes \<alpha> \<beta> :: nat
  assumes "r < k"
  defines "e \<equiv> column_zeros (2 * k) \<alpha> \<beta> r" and "u \<equiv> column_zeros (2 * k) \<alpha> \<beta> (r + k)"
  shows "column_zeros k \<alpha> \<beta> r = e + u" "u \<le> e" "e \<le> u + 2"
proof -
  have k: "0 < k" using assms(1) by simp
  have eqs: "x + 2 * k - 1 - r = (x + k - 1 - r) + k" "x + 2 * k - 1 - (r + k) = x + k - 1 - r" for x
    using assms(1) by simp_all
  show "column_zeros k \<alpha> \<beta> r = e + u" "u \<le> e" "e \<le> u + 2"
    using div_half_split [OF k, of "\<alpha> + k - 1 - r"] div_half_split [OF k, of "\<beta> + k - 1 - r"]
    unfolding e_def u_def column_zeros_def eqs by linarith+
qed

lemma column_zeros_le:
  assumes "0 < k" "\<alpha> \<le> k * m" "\<beta> \<le> k * m" shows "column_zeros k \<alpha> \<beta> r \<le> 2 * m"
proof -
  have "(x + k - 1 - r) div k \<le> m" if "x \<le> k * m" for x
  proof -
    have "x + k - 1 - r < k * Suc m" using that assms(1) by simp
    then have "(x + k - 1 - r) div k < Suc m" by (simp add: less_mult_imp_div_less mult.commute)
    then show ?thesis by simp
  qed
  then show ?thesis using assms(2,3) unfolding column_zeros_def by (metis add_mono mult_2)
qed

lemma succ_div_mod:
  fixes w q :: nat
  shows "Suc (w mod q) < q \<Longrightarrow> (w + 1) div q = w div q" "Suc (w mod q) < q \<Longrightarrow> (w + 1) mod q = w mod q + 1"
    "Suc (w mod q) = q \<Longrightarrow> (w + 1) div q = w div q + 1"
  by (auto simp: div_Suc mod_Suc)

lemma pred_div_mod:
  fixes w q :: nat
  assumes "w mod q \<noteq> 0"
  shows "(w - 1) div q = w div q" "(w - 1) mod q = w mod q - 1" "1 \<le> w"
proof -
  obtain v where v: "w = Suc v" using assms by (cases w) auto
  then show "(w - 1) div q = w div q" "(w - 1) mod q = w mod q - 1" "1 \<le> w"
    using assms by (auto simp: div_Suc mod_Suc split: if_splits)
qed

lemma pred_div_zero: "w mod q = 0 \<Longrightarrow> 1 \<le> w \<Longrightarrow> (w - 1) div q \<noteq> w div (q::nat)"
  by (cases w) (auto simp: div_Suc)

text \<open>An entry of column \<open>r\<close>, row \<open>v\<close>, when the columns modulo \<open>2 k\<close> are sorted.\<close>

lemma column_entry:
  assumes "columns_sorted p (2 * k) \<alpha> \<beta> a" "p = 2 * k * m" "r < k" "v div (4 * m) = b"
  shows "a (k * v + r) \<longleftrightarrow>
    column_zeros (2 * k) (\<alpha> b) (\<beta> b) (if even v then r else r + k) \<le> v mod (4 * m) div 2"
proof -
  let ?y = "k * v + r"
  have yk: "?y div k = v" "?y mod k = r" using assms(3) by simp_all
  have 1: "?y div (2 * k) = v div 2" using yk div_mult2_eq [of ?y k 2] by (simp add: ac_simps)
  have 2: "?y mod (2 * k) = k * (v mod 2) + r" using yk mod_mult2_eq [of ?y k 2] by (simp add: ac_simps)
  have "v mod (2 * (2 * m)) = 2 * (v div 2 mod (2 * m)) + v mod 2" by (rule mod_mult2_eq)
  then have 3: "v div 2 mod (2 * m) = v mod (4 * m) div 2" by simp
  have "2 * p = k * (4 * m)" using assms(2) by simp
  then have "?y div (2 * p) = b" using assms(4) yk by (simp only: div_mult2_eq)
  moreover have "?y mod (2 * k) = (if even v then r else r + k)"
    using 2 by (auto simp: even_iff_mod_2_eq_zero odd_iff_mod_2_eq_one)
  moreover have "2 * p div (2 * k) = 2 * m" using assms(2,3) by simp
  ultimately show ?thesis
    using assms(1) [unfolded columns_sorted_def, rule_format, of ?y] 1 3 by simp
qed

text \<open>
  A column of the next stride: even rows come from a column with \<open>e\<close> zeros, odd rows from one
  with \<open>u\<close> zeros, and every odd row is compared with the row that follows it.
\<close>

lemma column_merge_row:
  fixes s e u :: nat
  assumes "u \<le> e" "e \<le> u + 2"
  shows "even s \<Longrightarrow> s \<noteq> 0 \<Longrightarrow> (u \<le> (s - 1) div 2 \<or> e \<le> s div 2) = (e + u \<le> s)"
    and "odd s \<Longrightarrow> (u \<le> s div 2 \<and> e \<le> (s + 1) div 2) = (e + u \<le> s)"
proof -
  show "(u \<le> (s - 1) div 2 \<or> e \<le> s div 2) = (e + u \<le> s)" if ev: "even s" and nz: "s \<noteq> 0"
  proof -
    obtain t' where "s = 2 * t'" using ev by (rule evenE)
    then obtain t where "s = 2 * Suc t" using nz by (cases t') simp_all
    then have "(s - 1) div 2 = t" "s div 2 = t + 1" "s = 2 * t + 2" by simp_all
    then show ?thesis using assms by (cases "e \<le> t + 1"; cases "u \<le> t"; simp)
  qed
  show "(u \<le> s div 2 \<and> e \<le> (s + 1) div 2) = (e + u \<le> s)" if od: "odd s"
  proof -
    obtain t where "s = 2 * t + 1" using od by (rule oddE)
    then have "s div 2 = t" "(s + 1) div 2 = t + 1" "s = 2 * t + 1" by simp_all
    then show ?thesis using assms by (cases "e \<le> t + 1"; cases "u \<le> t"; simp)
  qed
qed

lemma exchange_row:
  fixes w :: nat
  assumes L: "\<And>x. L x \<longleftrightarrow> odd (x div k) \<and> x div k div q = (x div k + 1) div q"
    and r: "r < k" and q: "even q" "0 < q"
  defines "x \<equiv> k * w + r"
  shows "even w \<Longrightarrow> exchange L k a x = (if w mod q = 0 then a x else a (k * (w - 1) + r) \<or> a x)"
    and "odd w \<Longrightarrow> exchange L k a x = (if Suc (w mod q) = q then a x else a x \<and> a (k * (w + 1) + r))"
proof -
  have Lx: "L x \<longleftrightarrow> odd w \<and> w div q = (w + 1) div q" using r by (simp add: L x_def)
  have Lp: "k \<le> x \<and> L (x - k) \<longleftrightarrow> 1 \<le> w \<and> even w \<and> (w - 1) div q = w div q"
  proof (cases w)
    case (Suc v)
    then have "k \<le> x" "x - k = k * v + r" by (simp_all add: x_def)
    then show ?thesis using Suc r by (simp add: L)
  qed (use r in \<open>simp add: x_def\<close>)
  have y: "1 \<le> w \<Longrightarrow> x - k = k * (w - 1) + r" "x + k = k * (w + 1) + r"
    by (cases w; simp add: x_def)+
  show "exchange L k a x = (if w mod q = 0 then a x else a (k * (w - 1) + r) \<or> a x)" if "even w"
    using that pred_div_mod [of w q] pred_div_zero [of w q] Lp y
    unfolding exchange_def Lx by (cases "w mod q = 0") auto
  have "Suc (w mod q) \<le> q" using q(2) by (simp add: Suc_le_eq)
  then show "exchange L k a x = (if Suc (w mod q) = q then a x else a x \<and> a (k * (w + 1) + r))" if "odd w"
    using that succ_div_mod [of w q] Lp unfolding exchange_def Lx y(2) by auto
qed

lemma columns_sorted_step:
  assumes cs: "columns_sorted p (2 * k) \<alpha> \<beta> a" and p: "p = 2 * k * m" and k: "0 < k" "0 < m"
    and \<alpha>: "\<And>b. \<alpha> b \<le> p" "\<And>b. \<beta> b \<le> p"
    and L: "\<And>x. L x \<longleftrightarrow> odd (x div k) \<and> x div k div (4 * m) = (x div k + 1) div (4 * m)"
  shows "columns_sorted p k \<alpha> \<beta> (exchange L k a)"
  unfolding columns_sorted_def
proof
  fix x
  define w r b where "w = x div k" and "r = x mod k" and "b = w div (4 * m)"
  let ?q = "4 * m" and ?s = "w mod (4 * m)"
  define e where "e = column_zeros (2 * k) (\<alpha> b) (\<beta> b) r"
  define u where "u = column_zeros (2 * k) (\<alpha> b) (\<beta> b) (r + k)"
  have r: "r < k" and x: "x = k * w + r" using k by (simp_all add: r_def w_def)
  have pq: "2 * p = k * ?q" "2 * p div k = ?q" using p k by simp_all
  then have b: "x div (2 * p) = b" unfolding b_def w_def by (simp only: div_mult2_eq)
  have par: "even ?s = even w" by (rule dvd_mod_iff) simp
  have entry: "v div ?q = b \<Longrightarrow> a (k * v + r) \<longleftrightarrow> (if even v then e else u) \<le> v mod ?q div 2" for v
    using column_entry [OF cs p r] by (simp add: e_def u_def)
  note z = column_zeros_split [OF r, of "\<alpha> b" "\<beta> b", folded e_def u_def]
  have ele: "e \<le> 2 * m"
    unfolding e_def using column_zeros_le [of "2 * k" "\<alpha> b" m "\<beta> b" r] \<alpha> p k by simp
  have q: "even ?q" "0 < ?q" using k by simp_all
  note row = exchange_row [of L k ?q r w a, OF L r q, folded x]
  have "exchange L k a x \<longleftrightarrow> e + u \<le> ?s"
  proof (cases "even w")
    case True
    show ?thesis
    proof (cases "?s = 0")
      case s: False
      note pd = pred_div_mod [OF s]
      have "odd (w - 1)" using True pd(3) by simp
      then have "a (k * (w - 1) + r) \<longleftrightarrow> u \<le> (?s - 1) div 2" using entry [of "w - 1"] pd b_def by simp
      then show ?thesis using row(1) [OF True] entry [of w] True s par column_merge_row(1) [OF z(2,3), of ?s]
        by (simp add: b_def flip: x)
    qed (use row(1) [OF True] entry [of w] True z(2) in \<open>auto simp: b_def simp flip: x\<close>)
  next
    case False
    show ?thesis
    proof (cases "Suc ?s = ?q")
      case True
      then have "e \<le> (?s + 1) div 2" using ele by simp
      then show ?thesis using row(2) [OF False] entry [of w] False True par column_merge_row(2) [OF z(2,3), of ?s]
        by (simp add: b_def flip: x)
    next
      case s: False
      have "Suc ?s < ?q" using s mod_less_divisor [OF q(2), of w] by linarith
      note sd = succ_div_mod(1,2) [OF this]
      have "a (k * (w + 1) + r) \<longleftrightarrow> e \<le> (?s + 1) div 2" using entry [of "w + 1"] sd False b_def by simp
      then show ?thesis using row(2) [OF False] entry [of w] False s par column_merge_row(2) [OF z(2,3), of ?s]
        by (simp add: b_def flip: x)
    qed
  qed
  then show "exchange L k a x \<longleftrightarrow> column_zeros k (\<alpha> (x div (2 * p))) (\<beta> (x div (2 * p))) (x mod k)
      \<le> x div k mod (2 * p div k)"
    using z(1) b pq(2) by (simp flip: r_def w_def)
qed

lemma mask_and_pow2: "(2 ^ s - 1) AND (2 ^ r :: nat) = (if r < s then 2 ^ r else 0)"
proof -
  have "(2 ^ s - 1) AND (2 ^ r :: nat) = take_bit s (2 ^ r)"
    by (simp add: take_bit_eq_mask mask_eq_exp_minus_1 and.commute)
  then show ?thesis by (auto simp: take_bit_eq_mod not_less dest!: le_imp_power_dvd [where a = "2 :: nat"])
qed

lemma odd_row_iff:
  assumes "0 < (k::nat)"
  shows "k \<le> x \<and> (x - k) mod (2 * k) < k \<longleftrightarrow> odd (x div k)"
proof (cases "x div k")
  case 0
  then show ?thesis using assms by (auto simp: div_eq_0_iff)
next
  case (Suc v)
  have x: "x = k * Suc v + x mod k" using Suc by (metis mult_div_mod_eq)
  then have "k \<le> x" and "x - k = k * v + x mod k" by simp_all
  then have "(x - k) mod (2 * k) = k * (v mod 2) + x mod k"
    using assms mod_mult2_eq [of "x - k" k 2] by (simp add: ac_simps)
  then show ?thesis using Suc assms \<open>k \<le> x\<close> by (cases "even v") (simp_all add: mod2_eq_if)
qed

lemma left_end_inner:
  assumes "p = 2 ^ s" "k = 2 ^ r" "r < s" "p = 2 * k * m"
  shows "left_end p k x \<longleftrightarrow> odd (x div k) \<and> x div k div (4 * m) = (x div k + 1) div (4 * m)"
proof -
  have k: "0 < k" using assms by simp
  have j: "(p - 1) AND k = k" using assms(1-3) mask_and_pow2 [of s r] by simp
  have p: "2 * p = k * (4 * m)" using assms(4) by simp
  have "x div (2 * p) = x div k div (4 * m)" "(x + k) div (2 * p) = (x div k + 1) div (4 * m)"
    unfolding p div_mult2_eq using div_add_self2 [of k x] k by simp_all
  then show ?thesis unfolding left_end_def j using odd_row_iff [OF k, of x] by auto
qed

lemma left_end_outer:
  assumes "p = 2 ^ s"
  shows "left_end p p x \<longleftrightarrow> even (x div p)"
proof -
  have p: "0 < p" using assms by simp
  have j: "(p - 1) AND p = 0" using assms mask_and_pow2 [of s s] by simp
  have d: "x div (2 * p) = x div p div 2" "(x + p) div (2 * p) = (x div p + 1) div 2"
    using p div_mult2_eq [of x p 2] div_mult2_eq [of "x + p" p 2] div_add_self2 [of p x]
    by (simp_all add: ac_simps)
  have "x mod (2 * p) = p * (x div p mod 2) + x mod p" using mod_mult2_eq [of x p 2] by (simp add: ac_simps)
  then have "x mod (2 * p) < p \<longleftrightarrow> even (x div p)"
    using p by (cases "even (x div p)") (simp_all add: even_iff_mod_2_eq_zero odd_iff_mod_2_eq_one)
  then show ?thesis unfolding left_end_def j d by auto
qed

lemma blocks_sorted_1: "blocks_sorted 1 a"
proof -
  have "\<exists>z \<le> 1. \<forall>y < 1. a (1 * c + y) = (z \<le> y)" for c
    by (intro exI [of _ "of_bool (\<not> a c)"]) simp
  then show ?thesis unfolding blocks_sorted_def by blast
qed

lemma first_stride:
  assumes "p = 2 ^ s" "\<And>c. \<gamma> c \<le> p" "\<And>c y. y < p \<Longrightarrow> a (p * c + y) = (\<gamma> c \<le> y)"
  shows "columns_sorted p p (\<lambda>b. \<gamma> (2 * b)) (\<lambda>b. \<gamma> (2 * b + 1)) (exchange (left_end p p) p a)"
  unfolding columns_sorted_def
proof
  fix x
  have p: "0 < p" using assms(1) by simp
  define w r where "w = x div p" and "r = x mod p"
  have r: "r < p" and x: "x = p * w + r" using p by (simp_all add: w_def r_def)
  have zero: "(z + p - 1 - r) div p = of_bool (r < z)" if "z \<le> p" for z
    using that r p by (auto simp: div_eq_0_iff div_nat_eqI not_less intro: div_nat_eqI)
  have d: "x div (2 * p) = w div 2" "2 * p div p = 2"
    using p div_mult2_eq [of x p 2] by (simp_all add: ac_simps w_def)
  have "exchange (left_end p p) p a x \<longleftrightarrow>
      of_bool (r < \<gamma> (2 * (w div 2))) + of_bool (r < \<gamma> (2 * (w div 2) + 1)) \<le> w mod 2"
  proof (cases "even w")
    case True
    then obtain b where w: "w = 2 * b" by (rule evenE)
    have "a x = (\<gamma> (2 * b) \<le> r)" "a (x + p) = (\<gamma> (2 * b + 1) \<le> r)"
      using x w assms(3) [OF r, of "2 * b"] assms(3) [OF r, of "2 * b + 1"] by (simp_all add: ac_simps)
    moreover have "left_end p p x" using True by (simp add: left_end_outer [OF assms(1)] flip: w_def)
    ultimately show ?thesis using w by (auto simp: exchange_def)
  next
    case False
    then obtain b where w: "w = 2 * b + 1" by (rule oddE)
    then have y: "p \<le> x" "x - p = p * (2 * b) + r" using x by simp_all
    then have "a (x - p) = (\<gamma> (2 * b) \<le> r)" "a x = (\<gamma> (2 * b + 1) \<le> r)"
      using x w assms(3) [OF r, of "2 * b"] assms(3) [OF r, of "2 * b + 1"] by simp_all
    moreover have "left_end p p (x - p)" using y r by (simp add: left_end_outer [OF assms(1)])
    moreover have "\<not> left_end p p x" using False by (simp add: left_end_outer [OF assms(1)] flip: w_def)
    ultimately show ?thesis using w y by (auto simp: exchange_def)
  qed
  then show "exchange (left_end p p) p a x \<longleftrightarrow>
      column_zeros p (\<gamma> (2 * (x div (2 * p)))) (\<gamma> (2 * (x div (2 * p)) + 1)) (x mod p) \<le> x div p mod (2 * p div p)"
    unfolding column_zeros_def d w_def [symmetric] r_def [symmetric] by (simp only: zero [OF assms(2)])
qed

lemma length_osort_k [simp]: "length (osort_k cmp lb n p k xs) = length xs"
proof (induction k arbitrary: xs rule: less_induct)
  case (less k)
  show ?case
    by (cases "k = 0") (simp_all add: osort_k.simps [of cmp lb n p 0] osort_k_net less)
qed

lemma osort_k_columns:
  assumes "p = 2 ^ s" "r \<le> s" "lb + n \<le> length xs" "\<And>b. \<alpha> b \<le> p" "\<And>b. \<beta> b \<le> p"
    and "columns_sorted p (2 ^ r) \<alpha> \<beta> (padded lb n xs)"
  shows "columns_sorted p 1 \<alpha> \<beta> (padded lb n (osort_k gt_bool lb n p (2 ^ r div 2) xs))"
  using assms(2,3,6)
proof (induction r arbitrary: xs)
  case 0
  then show ?case by (simp add: osort_k.simps)
next
  case (Suc r)
  let ?k = "2 ^ r :: nat"
  define m :: nat where "m = 2 ^ (s - Suc r)"
  have "s = Suc r + (s - Suc r)" using Suc.prems(1) by simp
  then have p: "p = 2 * ?k * m" unfolding m_def assms(1) by (metis power_Suc power_add)
  let ?ys = "net gt_bool lb ?k (stride_is n p ?k) xs"
  have "columns_sorted p ?k \<alpha> \<beta> (exchange (left_end p ?k) ?k (padded lb n xs))"
    using Suc.prems assms(1,4,5) p left_end_inner [OF assms(1) refl _ p]
    by (intro columns_sorted_step [where m = m]) (simp_all add: m_def)
  then have "columns_sorted p ?k \<alpha> \<beta> (padded lb n ?ys)"
    by (subst padded_stride) (use Suc.prems(2) in simp_all)
  then have "columns_sorted p 1 \<alpha> \<beta> (padded lb n (osort_k gt_bool lb n p (?k div 2) ?ys))"
    using Suc.prems by (intro Suc.IH) simp_all
  then show ?case by (simp add: osort_k_net [of ?k])
qed

lemma columns_sorted_1:
  assumes "columns_sorted p 1 \<alpha> \<beta> a" "\<And>b. \<alpha> b \<le> p" "\<And>b. \<beta> b \<le> p" "0 < p"
  shows "blocks_sorted (2 * p) a"
  unfolding blocks_sorted_def
proof
  fix c
  have "a (2 * p * c + y) = (\<alpha> c + \<beta> c \<le> y)" if "y < 2 * p" for y
    using that assms(1,4) unfolding columns_sorted_def column_zeros_def by simp
  moreover have "\<alpha> c + \<beta> c \<le> 2 * p" using assms(2,3) [of c] by simp
  ultimately show "\<exists>z \<le> 2 * p. \<forall>y < 2 * p. a (2 * p * c + y) = (z \<le> y)" by blast
qed

lemma osort_k_blocks:
  assumes p: "p = 2 ^ s" and xs: "lb + n \<le> length xs" and "blocks_sorted p (padded lb n xs)"
  shows "blocks_sorted (2 * p) (padded lb n (osort_k gt_bool lb n p p xs))"
proof -
  obtain \<gamma> where \<gamma>: "\<And>c. \<gamma> c \<le> p" "\<And>c y. y < p \<Longrightarrow> padded lb n xs (p * c + y) = (\<gamma> c \<le> y)"
    using assms(3) unfolding blocks_sorted_def by metis
  let ?ys = "net gt_bool lb p (stride_is n p p) xs"
  have p0: "0 < p" using p by simp
  have "columns_sorted p p (\<lambda>b. \<gamma> (2 * b)) (\<lambda>b. \<gamma> (2 * b + 1)) (padded lb n ?ys)"
    using first_stride [OF p \<gamma>] unfolding padded_stride [OF p0 xs] by blast
  then have "columns_sorted p 1 (\<lambda>b. \<gamma> (2 * b)) (\<lambda>b. \<gamma> (2 * b + 1))
      (padded lb n (osort_k gt_bool lb n p (p div 2) ?ys))"
    using osort_k_columns [OF p order_refl, of lb n ?ys "\<lambda>b. \<gamma> (2 * b)" "\<lambda>b. \<gamma> (2 * b + 1)"] xs \<gamma>(1) p by simp
  then have "blocks_sorted (2 * p) (padded lb n (osort_k gt_bool lb n p (p div 2) ?ys))"
    using columns_sorted_1 \<gamma>(1) p0 by blast
  then show ?thesis using p0 by (simp add: osort_k_net [of p])
qed

lemma length_osort_p [simp]: "length (osort_p cmp lb n p xs) = length xs"
proof (induction cmp lb n p xs rule: osort_p.induct)
  case (1 cmp lb n p xs)
  then show ?case by (subst osort_p.simps) (simp add: Let_def)
qed

lemma osort_p_bool:
  assumes "p = 2 ^ s" "lb + n \<le> length xs" "blocks_sorted p (padded lb n xs)"
  shows "\<exists>z. \<forall>y < n. osort_p gt_bool lb n p xs ! (lb + y) = (z \<le> y)"
  using assms
proof (induction "gt_bool" lb n p xs arbitrary: s rule: osort_p.induct)
  case (1 lb n p xs)
  let ?ys = "osort_k gt_bool lb n p p xs"
  have b: "blocks_sorted (2 * p) (padded lb n ?ys)" using 1(2-4) by (rule osort_k_blocks)
  show ?case
  proof (cases "0 < p \<and> 2 * p < n")
    case True
    have "\<exists>z. \<forall>y < n. osort_p gt_bool lb n (2 * p) ?ys ! (lb + y) = (z \<le> y)"
      using 1(2,3) b by (intro 1(1) [OF refl True, of "Suc s"]) simp_all
    then show ?thesis using True by (subst osort_p.simps) (simp add: Let_def)
  next
    case False
    then have np: "n \<le> 2 * p" using 1(2) by simp
    obtain z where z: "\<And>y. y < 2 * p \<Longrightarrow> padded lb n ?ys y = (z \<le> y)"
      using b unfolding blocks_sorted_def by (metis add_0 mult_0_right)
    have "?ys ! (lb + y) = (z \<le> y)" if "y < n" for y
      using z [of y] np that by (simp add: padded_def)
    then show ?thesis using False by (subst osort_p.simps) (auto simp: Let_def)
  qed
qed

section \<open>The 0-1 principle\<close>

lemma map_comp_and_swap:
  assumes "\<And>x y. cmp x y \<Longrightarrow> f y \<longrightarrow> f x" "\<And>x y. f x \<Longrightarrow> \<not> f y \<Longrightarrow> cmp x y" "a < length xs" "b < length xs"
  shows "map f (comp_and_swap cmp a b xs) = comp_and_swap gt_bool a b (map f xs)"
proof (rule nth_equalityI)
  fix i assume "i < length (map f (comp_and_swap cmp a b xs))"
  then show "map f (comp_and_swap cmp a b xs) ! i = comp_and_swap gt_bool a b (map f xs) ! i"
    using assms(1) [of "xs ! a" "xs ! b"] assms(2) [of "xs ! a" "xs ! b"] assms(3,4)
    by (auto simp: comp_and_swap_def nth_swap_at split: if_splits)
qed simp

lemma map_net:
  assumes "\<And>x y. cmp x y \<Longrightarrow> f y \<longrightarrow> f x" "\<And>x y. f x \<Longrightarrow> \<not> f y \<Longrightarrow> cmp x y" "\<And>i. i \<in> set is \<Longrightarrow> lb + k + i < length xs"
  shows "map f (net cmp lb k is xs) = net gt_bool lb k is (map f xs)"
  using assms(3)
proof (induction "is" arbitrary: xs)
  case (Cons i "is")
  have "lb + i < length xs" "lb + k + i < length xs" using Cons.prems [of i] by simp_all
  then have "map f (comp_and_swap cmp (lb + i) (lb + k + i) xs) =
      comp_and_swap gt_bool (lb + i) (lb + k + i) (map f xs)"
    using map_comp_and_swap [of cmp f] assms(1,2) by blast
  then show ?case using Cons by simp
qed simp

lemma stride_is_lt: "0 < k \<Longrightarrow> i \<in> set (stride_is n p k) \<Longrightarrow> k + i < n"
  by (auto simp: set_osort_is)

text \<open>A relation that every comparator inside the range keeps is kept by the whole sort.\<close>

lemma osort_k_rel:
  assumes "\<And>k is xs ys. R xs ys \<Longrightarrow> (\<And>i. i \<in> set is \<Longrightarrow> k + i < n) \<Longrightarrow> R (net cmp lb k is xs) (net cmp' lb k is ys)"
    and "R xs ys"
  shows "R (osort_k cmp lb n p k xs) (osort_k cmp' lb n p k ys)"
  using assms(2)
proof (induction k arbitrary: xs ys rule: less_induct)
  case (less k)
  show ?case
  proof (cases "k = 0")
    case True
    then show ?thesis using less.prems by (simp add: osort_k.simps)
  next
    case False
    have "R (net cmp lb k (stride_is n p k) xs) (net cmp' lb k (stride_is n p k) ys)"
      using less.prems by (rule assms(1)) (use False in \<open>intro stride_is_lt; simp\<close>)
    then show ?thesis using False less.IH [of "k div 2"] by (simp add: osort_k_net)
  qed
qed

lemma osort_p_rel:
  assumes "\<And>k is xs ys. R xs ys \<Longrightarrow> (\<And>i. i \<in> set is \<Longrightarrow> k + i < n) \<Longrightarrow> R (net cmp lb k is xs) (net cmp' lb k is ys)"
    and "R xs ys"
  shows "R (osort_p cmp lb n p xs) (osort_p cmp' lb n p ys)"
  using assms(2)
proof (induction "n - p" arbitrary: p xs ys rule: less_induct)
  case less
  have "R (osort_k cmp lb n p p xs) (osort_k cmp' lb n p p ys)"
    using assms(1) less.prems by (rule osort_k_rel)
  then show ?case
    using less.hyps [of "2 * p"]
    by (subst osort_p.simps, subst (2) osort_p.simps) (auto simp: Let_def)
qed

lemma osort_rel:
  assumes "\<And>k is xs ys. R xs ys \<Longrightarrow> (\<And>i. i \<in> set is \<Longrightarrow> k + i < ub - lb) \<Longrightarrow> R (net cmp lb k is xs) (net cmp' lb k is ys)"
    and "R xs ys"
  shows "R (osort cmp lb ub xs) (osort cmp' lb ub ys)"
  using osort_p_rel [where R = R, OF assms] assms(2) by (simp add: osort_def Let_def)

lemma map_osort:
  assumes "\<And>x y. cmp x y \<Longrightarrow> f y \<longrightarrow> f x" "\<And>x y. f x \<Longrightarrow> \<not> f y \<Longrightarrow> cmp x y" "ub \<le> length xs"
  shows "map f (osort cmp lb ub xs) = osort gt_bool lb ub (map f xs)"
proof -
  let ?R = "\<lambda>xs ys. ub \<le> length xs \<and> ys = map f xs"
  have "?R (osort cmp lb ub xs) (osort gt_bool lb ub (map f xs))"
  proof (rule osort_rel [where R = ?R])
    fix k "is" and xs :: "'a list" and ys
    assume R: "?R xs ys" and "is": "\<And>i. i \<in> set is \<Longrightarrow> k + i < ub - lb"
    have "map f (net cmp lb k is xs) = net gt_bool lb k is (map f xs)"
    proof (rule map_net)
      show "lb + k + i < length xs" if "i \<in> set is" for i using "is" [OF that] R by linarith
    qed (fact assms(1,2))+
    then show "?R (net cmp lb k is xs) (net gt_bool lb k is ys)" using R by simp
  qed (use assms(3) in simp)
  then show ?thesis by simp
qed

lemma osort_bool:
  assumes "ub \<le> length xs"
  shows "\<exists>z. \<forall>y < ub - lb. osort gt_bool lb ub xs ! (lb + y) = (z \<le> y)"
proof (cases "ub - lb > 1")
  case True
  then show ?thesis
    using osort_p_bool [of 1 0 lb "ub - lb" xs] blocks_sorted_1 assms
    by (simp add: osort_def Let_def)
next
  case False
  then have "\<forall>y < ub - lb. osort gt_bool lb ub xs ! (lb + y) = ((if xs ! lb then 0 else 1) \<le> y)"
    by (auto simp: osort_def Let_def less_Suc_eq_le not_less le_Suc_eq)
  then show ?thesis by blast
qed

text \<open>Only entries inside the range move.\<close>

lemma permutes_range_refl: "permutes_range lb ub xs xs"
  by (simp add: permutes_range_def)

lemma permutes_range_swap:
  assumes "permutes_range lb ub xs ys" "lb \<le> a" "a < ub" "lb \<le> b" "b < ub" "ub \<le> length xs"
  shows "permutes_range lb ub xs (comp_and_swap cmp a b ys)"
  using assms by (auto simp: permutes_range_def comp_and_swap_def swap_at_def mset_swap
      take_update_cancel drop_update_cancel)

lemma permutes_range_net:
  assumes "permutes_range lb ub xs ys" "\<And>i. i \<in> set is \<Longrightarrow> k + i < ub - lb" "ub \<le> length xs"
  shows "permutes_range lb ub xs (net cmp lb k is ys)"
  using assms(1,2)
proof (induction "is" arbitrary: ys)
  case (Cons i "is")
  have "k + i < ub - lb" using Cons.prems(2) by simp
  then have "permutes_range lb ub xs (comp_and_swap cmp (lb + i) (lb + k + i) ys)"
    using Cons.prems(1) assms(3) by (intro permutes_range_swap) auto
  then show ?case using Cons by simp
qed simp

lemma osort_permutes:
  assumes "ub \<le> length xs"
  shows "permutes_range lb ub xs (osort cmp lb ub xs)"
proof (rule osort_rel [where R = "\<lambda>ys zs. permutes_range lb ub xs ys" and cmp' = cmp])
  show "permutes_range lb ub xs (net cmp lb k is ys)"
    if "permutes_range lb ub xs ys" "\<And>i. i \<in> set is \<Longrightarrow> k + i < ub - lb" for k "is" ys
    using that assms by (rule permutes_range_net)
qed (rule permutes_range_refl)

lemma length_osort [simp]: "length (osort cmp lb ub xs) = length xs"
  by (simp add: osort_def Let_def)

lemma permutes_range_middle:
  assumes "permutes_range lb ub xs ys" "lb \<le> ub" "ub \<le> length xs"
  shows "mset (take (ub - lb) (drop lb ys)) = mset (take (ub - lb) (drop lb xs))"
proof -
  have split: "zs = take lb zs @ take (ub - lb) (drop lb zs) @ drop ub zs" for zs :: "'a list"
    using assms(2) by (metis append_take_drop_id drop_drop le_add_diff_inverse2)
  have "mset (take lb ys @ take (ub - lb) (drop lb ys) @ drop ub ys)
      = mset (take lb xs @ take (ub - lb) (drop lb xs) @ drop ub xs)"
    using assms(1) split by (metis permutes_range_def)
  then show ?thesis using assms(1) by (simp add: permutes_range_def)
qed

section \<open>Sorting by a key\<close>

text \<open>
  What a client of \<^verbatim>\<open>osort.jinc\<close> supplies: a comparison that says whether the first entry is
  greater, for the order of some key.
\<close>

locale sort_order =
  fixes cmp :: "'a \<Rightarrow> 'a \<Rightarrow> bool" and key :: "'a \<Rightarrow> 'k::linorder"
  assumes cmp_iff: "cmp x y \<longleftrightarrow> key y < key x"
begin

lemma osort_le:
  assumes "ub \<le> length xs" "lb \<le> i" "i < j" "j < ub"
  shows "key (osort cmp lb ub xs ! i) \<le> key (osort cmp lb ub xs ! j)"
proof (rule ccontr)
  let ?ys = "osort cmp lb ub xs"
  assume gt: "\<not> key (?ys ! i) \<le> key (?ys ! j)"
  let ?f = "\<lambda>x. key (?ys ! j) < key x"
  have "map ?f ?ys = osort gt_bool lb ub (map ?f xs)"
    using assms(1) by (intro map_osort) (auto simp: cmp_iff)
  moreover obtain z where "\<forall>y < ub - lb. osort gt_bool lb ub (map ?f xs) ! (lb + y) = (z \<le> y)"
    using osort_bool [of ub "map ?f xs" lb] assms(1) by auto
  ultimately have z: "map ?f ?ys ! (lb + y) = (z \<le> y)" if "y < ub - lb" for y using that by simp
  have "?f (?ys ! i) = (z \<le> i - lb)" "?f (?ys ! j) = (z \<le> j - lb)"
    using z [of "i - lb"] z [of "j - lb"] assms by simp_all
  then show False using gt assms(3) by auto
qed

lemma osort_sorted:
  assumes "ub \<le> length xs"
  shows "sorted (map key (take (ub - lb) (drop lb (osort cmp lb ub xs))))"
  using assms by (auto simp: sorted_iff_nth_mono_less intro!: osort_le)

lemma osort_mset:
  "lb \<le> ub \<Longrightarrow> ub \<le> length xs \<Longrightarrow>
   mset (take (ub - lb) (drop lb (osort cmp lb ub xs))) = mset (take (ub - lb) (drop lb xs))"
  by (intro permutes_range_middle osort_permutes)

lemma osort_all:
  "sorted (map key (osort cmp 0 (length xs) xs))" "mset (osort cmp 0 (length xs) xs) = mset xs"
  using osort_sorted [of "length xs" xs 0] osort_permutes [of "length xs" xs 0 cmp]
  by (simp_all add: permutes_range_def)

end

end
