(* ===== verification/OCompact.thy ===== *)
theory OCompact
  imports Util
begin

text \<open>
  The oblivious compaction of \<^verbatim>\<open>util/ocompact.jinc\<close>: the entries that satisfy a predicate move to the front of an array, in
  order. Every entry is labelled with the number of cells it has to move to the left, and level \<open>i\<close> of a routing network
  moves the entries whose label has bit \<open>i\<close>. As for the sort, indices are natural numbers: no label exceeds the length of an
  array that fits in memory.

  Proved: the front of the result is the \<open>filter\<close> of the array, and the result is a permutation of it.
\<close>

section \<open>Definitions\<close>

text \<open>Step 1: the scan from left to right, with the index and the number of entries to keep so far.\<close>

fun label_distances :: "('a \<Rightarrow> bool) \<Rightarrow> 'a list \<Rightarrow> nat \<Rightarrow> nat \<Rightarrow> nat list" where
  "label_distances pred [] j ctr = []"
| "label_distances pred (x # data) j ctr =
     (let cond = pred x in
      (if cond then j - ctr else 0) # label_distances pred data (j + 1) (if cond then ctr + 1 else ctr))"

text \<open>Step 2: cell \<open>j\<close> on level \<open>i\<close>.\<close>

definition route :: "nat \<Rightarrow> nat \<Rightarrow> 'a list \<times> nat list \<Rightarrow> 'a list \<times> nat list" where
  "route i j = (\<lambda>(data, distances).
     let shift = 2 ^ i in
     if j \<ge> shift then
       let partner = j - shift;
           do_swap = (distances ! j div 2 ^ i) mod 2 > 0;
           data = (if do_swap then swap_at j partner data else data);
           distances = (if do_swap then swap_at partner j distances else distances);
           part_dist = distances ! partner;
           next_dist = part_dist - shift
       in (data, distances[partner := if do_swap then next_dist else part_dist])
     else (data, distances))"

definition ocompact :: "('a \<Rightarrow> bool) \<Rightarrow> 'a list \<Rightarrow> 'a list" where
  "ocompact pred data =
     (let len = length data in
      if len > 1 then
        let levels = unat (j_ceil_log2 (of_nat len))
        in fst (fold (\<lambda>i. fold (route i) [0..<len]) [0..<levels] (data, label_distances pred data 0 0))
      else data)"

subsection \<open>Notions of the correctness proof\<close>

definition rank :: "('a \<Rightarrow> bool) \<Rightarrow> 'a list \<Rightarrow> nat \<Rightarrow> nat" where
  "rank P xs p = length (filter P (take p xs))"

definition kept :: "('a \<Rightarrow> bool) \<Rightarrow> 'a list \<Rightarrow> nat set" where
  "kept P xs = {p. p < length xs \<and> P (xs ! p)}"

text \<open>Where the entry of cell \<open>p\<close> is when the levels below \<open>i\<close> are done.\<close>

definition place :: "('a \<Rightarrow> bool) \<Rightarrow> 'a list \<Rightarrow> nat \<Rightarrow> nat \<Rightarrow> nat" where
  "place P xs i p = rank P xs p + 2 ^ i * ((p - rank P xs p) div 2 ^ i)"

definition routed :: "('a \<Rightarrow> bool) \<Rightarrow> 'a list \<Rightarrow> (nat \<Rightarrow> nat) \<Rightarrow> 'a list \<times> nat list \<Rightarrow> bool" where
  "routed P xs f = (\<lambda>(data, ds). length data = length xs \<and> length ds = length xs \<and> mset data = mset xs \<and>
     (\<forall>p \<in> kept P xs. f p < length xs \<and> data ! f p = xs ! p \<and> ds ! f p = f p - rank P xs p) \<and>
     (\<forall>x < length xs. x \<notin> f ` kept P xs \<longrightarrow> ds ! x = 0))"

text \<open>The places in the middle of level \<open>i\<close>, when the cells below \<open>j\<close> are done.\<close>

definition midway :: "('a \<Rightarrow> bool) \<Rightarrow> 'a list \<Rightarrow> nat \<Rightarrow> nat \<Rightarrow> nat \<Rightarrow> nat" where
  "midway P xs i j p = (if place P xs i p < j then place P xs (Suc i) p else place P xs i p)"

section \<open>Ranks\<close>

lemma rank_le: "rank P xs p \<le> p"
proof -
  have "length (filter P (take p xs)) \<le> length (take p xs)" by (rule length_filter_le)
  then show ?thesis by (simp add: rank_def)
qed

lemma rank_add: "rank P xs (p + m) = rank P xs p + length (filter P (take m (drop p xs)))"
  by (simp add: rank_def take_add)

lemma rank_mono: "p \<le> q \<Longrightarrow> rank P xs p \<le> rank P xs q \<and> q - p \<ge> rank P xs q - rank P xs p"
proof -
  assume "p \<le> q"
  then obtain m where m: "q = p + m" using le_Suc_ex by blast
  have "length (filter P (take m (drop p xs))) \<le> m" using length_filter_le [of P "take m (drop p xs)"] by simp
  then show ?thesis by (simp add: m rank_add)
qed

lemma rank_Suc: "p \<in> kept P xs \<Longrightarrow> rank P xs (Suc p) = Suc (rank P xs p)"
  by (simp add: rank_def kept_def take_Suc_conv_app_nth)

lemma rank_less: "p \<in> kept P xs \<Longrightarrow> p < q \<Longrightarrow> rank P xs p < rank P xs q"
  using rank_mono [of "Suc p" q P xs] by (simp add: rank_Suc)

lemma filter_rank: "p \<in> kept P xs \<Longrightarrow> rank P xs p < length (filter P xs) \<and> filter P xs ! rank P xs p = xs ! p"
proof -
  assume p: "p \<in> kept P xs"
  then have "filter P xs = filter P (take p xs) @ xs ! p # filter P (drop (Suc p) xs)"
    by (metis (mono_tags, lifting) kept_def mem_Collect_eq filter.simps(2) filter_append id_take_nth_drop)
  then show ?thesis by (simp add: rank_def nth_append)
qed

lemma rank_onto: "r < length (filter P xs) \<Longrightarrow> \<exists>p \<in> kept P xs. rank P xs p = r"
proof (induction xs arbitrary: r)
  case (Cons x xs)
  have shift: "Suc p \<in> kept P (x # xs)" "rank P (x # xs) (Suc p) = (if P x then 1 else 0) + rank P xs p" if "p \<in> kept P xs" for p
    using that by (auto simp: kept_def rank_def)
  show ?case
  proof (cases "P x \<and> r = 0")
    case True
    then have "0 \<in> kept P (x # xs)" "rank P (x # xs) 0 = r" by (auto simp: kept_def rank_def)
    then show ?thesis by blast
  next
    case False
    then have "(if P x then r - 1 else r) < length (filter P xs)" using Cons.prems by auto
    from Cons.IH [OF this] obtain p where "p \<in> kept P xs" "rank P xs p = (if P x then r - 1 else r)" by blast
    then show ?thesis using shift [of p] False by (intro bexI [of _ "Suc p"]) auto
  qed
qed simp

lemma label_nth:
  "p < length xs \<Longrightarrow> c \<le> j \<Longrightarrow> label_distances P xs j c ! p = (if P (xs ! p) then j + p - (c + rank P xs p) else 0)"
proof (induction xs arbitrary: p j c)
  case (Cons x xs)
  show ?case
  proof (cases p)
    case 0
    then show ?thesis by (simp add: rank_def Let_def)
  next
    case (Suc q)
    then show ?thesis using Cons.IH [of q "if P x then c + 1 else c" "j + 1"] Cons.prems by (auto simp: rank_def Let_def)
  qed
qed simp

lemma length_label [simp]: "length (label_distances P xs j c) = length xs"
  by (induction xs arbitrary: j c) (simp_all add: Let_def)

section \<open>Places\<close>

lemma place_0: "place P xs 0 p = p"
  using rank_le [of P xs p] by (simp add: place_def)

lemma place_last: "p < 2 ^ L \<Longrightarrow> place P xs L p = rank P xs p"
  by (simp add: place_def)

lemma place_less:
  assumes "p \<in> kept P xs" "p < q"
  shows "place P xs i p < place P xs i q"
proof -
  have "p - rank P xs p \<le> q - rank P xs q" using rank_mono [of p q P xs] assms(2) rank_le [of P xs p] rank_le [of P xs q] by linarith
  then have "2 ^ i * ((p - rank P xs p) div 2 ^ i) \<le> 2 ^ i * ((q - rank P xs q) div 2 ^ i)" by (intro mult_le_mono2 div_le_mono)
  then show ?thesis using rank_less [OF assms] unfolding place_def by linarith
qed

lemma place_inj: "p \<in> kept P xs \<Longrightarrow> q \<in> kept P xs \<Longrightarrow> place P xs i p = place P xs i q \<Longrightarrow> p = q"
  using place_less [of p P xs q i] place_less [of q P xs p i] by (cases p q rule: linorder_cases) auto

lemma place_le: "place P xs i p \<le> p"
proof -
  have "2 ^ i * ((p - rank P xs p) div 2 ^ i) \<le> p - rank P xs p" by (rule times_div_less_eq_dividend)
  then show ?thesis using rank_le [of P xs p] unfolding place_def by linarith
qed

lemma place_Suc:
  "place P xs (Suc i) p = place P xs i p - (if odd ((p - rank P xs p) div 2 ^ i) then 2 ^ i else 0)"
  "odd ((p - rank P xs p) div 2 ^ i) \<Longrightarrow> 2 ^ i \<le> place P xs i p - rank P xs p"
proof -
  define d where "d = p - rank P xs p"
  have h: "d div 2 ^ Suc i = d div 2 ^ i div 2" by (metis div_mult2_eq power_Suc2)
  have m: "2 ^ Suc i * (d div 2 ^ Suc i) = 2 ^ i * (d div 2 ^ i - (d div 2 ^ i) mod 2)"
    unfolding h by (simp add: minus_mod_eq_mult_div mult.assoc)
  show "place P xs (Suc i) p = place P xs i p - (if odd ((p - rank P xs p) div 2 ^ i) then 2 ^ i else 0)"
    unfolding place_def d_def [symmetric] m by (auto simp: diff_mult_distrib2 odd_iff_mod_2_eq_one elim!: oddE)
  show "2 ^ i \<le> place P xs i p - rank P xs p" if "odd ((p - rank P xs p) div 2 ^ i)"
    using that unfolding place_def d_def [symmetric] by (auto elim!: oddE)
qed

section \<open>Routing\<close>

lemma midway_outside:
  assumes "j \<notin> place P xs i ` kept P xs" "p \<in> kept P xs"
  shows "midway P xs i (Suc j) p = midway P xs i j p" "midway P xs i j p \<noteq> j"
proof -
  have "place P xs i p \<noteq> j" using assms by blast
  then show "midway P xs i (Suc j) p = midway P xs i j p" "midway P xs i j p \<noteq> j"
    using place_Suc(1) [of P xs i p] by (auto simp: midway_def less_Suc_eq)
qed

lemma midway_at:
  assumes "p \<in> kept P xs" "j = place P xs i p" "q \<in> kept P xs" "q \<noteq> p"
  shows "midway P xs i (Suc j) q = midway P xs i j q" "midway P xs i j q \<noteq> j" "midway P xs i j q \<noteq> place P xs (Suc i) p"
proof -
  have n: "place P xs i q \<noteq> j" "place P xs (Suc i) q \<noteq> place P xs (Suc i) p" using assms place_inj by metis+
  then show "midway P xs i (Suc j) q = midway P xs i j q" "midway P xs i j q \<noteq> j"
    using place_Suc(1) [of P xs i q] by (auto simp: midway_def less_Suc_eq)
  show "midway P xs i j q \<noteq> place P xs (Suc i) p"
    using n place_Suc(1) [of P xs i p] assms(2) by (auto simp: midway_def split: if_splits)
qed

lemma routed_cong:
  assumes "\<And>p. p \<in> kept P xs \<Longrightarrow> f p = g p" "routed P xs f s"
  shows "routed P xs g s"
proof -
  have "f ` kept P xs = g ` kept P xs" using assms(1) by force
  then show ?thesis using assms by (auto simp: routed_def split: prod.splits)
qed

lemma route_stays:
  assumes "(ds ! j div 2 ^ i) mod 2 = 0"
  shows "route i j (data, ds) = (data, ds)"
  using assms by (simp add: route_def Let_def)

lemma route_moves:
  assumes "(ds ! j div 2 ^ i) mod 2 \<noteq> 0" "2 ^ i \<le> j" "j < length ds"
  shows "route i j (data, ds) = (swap_at j (j - 2 ^ i) data, ds[j := ds ! (j - 2 ^ i), j - 2 ^ i := ds ! j - 2 ^ i])"
proof -
  have "0 < (2 :: nat) ^ i" by simp
  then have lt: "j - 2 ^ i < length ds" "j - 2 ^ i \<noteq> j" using assms(2,3) by linarith+
  have "(swap_at (j - 2 ^ i) j ds)[j - 2 ^ i := swap_at (j - 2 ^ i) j ds ! (j - 2 ^ i) - 2 ^ i] = ds[j := ds ! (j - 2 ^ i), j - 2 ^ i := ds ! j - 2 ^ i]"
    using lt assms(3) by (intro nth_equalityI) (auto simp: swap_at_def nth_list_update)
  then show ?thesis using assms by (simp add: route_def Let_def)
qed

lemma routed_move:
  assumes "routed P xs f (data, ds)" "p \<in> kept P xs" "j = f p" "j < length xs" "t < length xs" "t \<noteq> j"
    and others: "\<And>q. q \<in> kept P xs \<Longrightarrow> q \<noteq> p \<Longrightarrow> g q = f q \<and> f q \<noteq> j \<and> f q \<noteq> t" and new: "g p = t" "m = t - rank P xs p"
  shows "routed P xs g (swap_at j t data, ds[j := 0, t := m])"
proof -
  have len: "length data = length xs" "length ds = length xs" "mset data = mset xs" using assms(1) by (simp_all add: routed_def)
  show ?thesis unfolding routed_def prod.case
  proof (intro conjI ballI allI impI)
    fix q
    assume q: "q \<in> kept P xs"
    have old: "f q < length xs \<and> data ! f q = xs ! q \<and> ds ! f q = f q - rank P xs q" using assms(1) q by (simp add: routed_def)
    show "g q < length xs" using old others [OF q] new assms(5) by (cases "q = p") auto
    show "swap_at j t data ! g q = xs ! q"
      using old others [OF q] new assms(3-5) len(1) by (cases "q = p") (auto simp: nth_swap_at)
    show "ds[j := 0, t := m] ! g q = g q - rank P xs q"
      using old others [OF q] new assms(5) len(2) by (cases "q = p") auto
  next
    fix x
    assume x: "x < length xs" "x \<notin> g ` kept P xs"
    then have "x \<noteq> t" using new(1) assms(2) by blast
    moreover have "x \<notin> f ` kept P xs" if "x \<noteq> j"
    proof
      assume "x \<in> f ` kept P xs"
      then obtain q where q: "q \<in> kept P xs" "x = f q" by (elim imageE) simp
      then have "q \<noteq> p" using that assms(3) by auto
      then have "x \<in> g ` kept P xs" using q others [OF q(1)] by (intro image_eqI [of _ _ q]) auto
      then show False using x(2) by simp
    qed
    ultimately show "ds[j := 0, t := m] ! x = 0" using x(1) assms(1) len(2) by (cases "x = j") (auto simp: routed_def)
  qed (use len assms(4,5) in simp_all)
qed

lemma route_step:
  assumes "routed P xs (midway P xs i j) (data, ds)" "j < length xs"
  shows "routed P xs (midway P xs i (Suc j)) (route i j (data, ds))"
proof (cases "j \<in> place P xs i ` kept P xs")
  case False
  note out = midway_outside [OF False]
  have "j \<notin> midway P xs i j ` kept P xs"
  proof
    assume "j \<in> midway P xs i j ` kept P xs"
    then obtain q where "q \<in> kept P xs" "j = midway P xs i j q" by (elim imageE) simp
    then show False using out(2) by metis
  qed
  then have "ds ! j = 0" using assms by (simp add: routed_def)
  then have "route i j (data, ds) = (data, ds)" by (simp add: route_stays)
  then show ?thesis using routed_cong [OF _ assms(1)] out(1) by simp
next
  case True
  then obtain p where p: "p \<in> kept P xs" "j = place P xs i p" by blast
  have at: "midway P xs i j p = j" "midway P xs i (Suc j) p = place P xs (Suc i) p" using p(2) by (simp_all add: midway_def)
  have lab: "ds ! j = j - rank P xs p" "data ! j = xs ! p" using assms(1) p(1) at(1) by (auto simp: routed_def)
  have dj: "ds ! j div 2 ^ i = (p - rank P xs p) div 2 ^ i" using lab(1) p(2) by (simp add: place_def)
  show ?thesis
  proof (cases "odd ((p - rank P xs p) div 2 ^ i)")
    case False
    then have "route i j (data, ds) = (data, ds)" by (intro route_stays) (simp add: dj even_iff_mod_2_eq_zero)
    moreover have "midway P xs i (Suc j) q = midway P xs i j q" if "q \<in> kept P xs" for q
      using False at p place_Suc(1) [of P xs i p] midway_at(1) [OF p that] by (cases "q = p") auto
    ultimately show ?thesis using routed_cong [OF _ assms(1)] by simp
  next
    case odd: True
    define t where "t = j - 2 ^ i"
    have "place P xs (Suc i) p = j - 2 ^ i" "2 ^ i \<le> j - rank P xs p" "0 < (2 :: nat) ^ i"
      using odd place_Suc(1) [of P xs i p] place_Suc(2) [of p P xs i] p(2) by simp_all
    then have t: "2 ^ i \<le> j" "t < j" "place P xs (Suc i) p = t" "t < length xs" using assms(2) unfolding t_def by linarith+
    have out: "t \<notin> midway P xs i j ` kept P xs" using midway_at(3) [OF p] at(1) t(2,3) by (metis imageE nat_neq_iff)
    have len: "length data = length xs" "length ds = length xs" "mset data = mset xs" using assms(1) by (simp_all add: routed_def)
    have zero: "ds ! t = 0" using assms(1) out t(4) by (simp add: routed_def)
    have r: "route i j (data, ds) = (swap_at j t data, ds[j := 0, t := ds ! j - 2 ^ i])"
      using route_moves [of ds j i data] odd dj t(1) assms(2) len zero by (simp add: t_def odd_iff_mod_2_eq_one)
    have "midway P xs i (Suc j) q = midway P xs i j q \<and> midway P xs i j q \<noteq> j \<and> midway P xs i j q \<noteq> t"
      if "q \<in> kept P xs" "q \<noteq> p" for q using midway_at [OF p that] t(3) by simp
    then show ?thesis unfolding r using at t lab(1)
      by (intro routed_move [OF assms(1) p(1) at(1) [symmetric] assms(2)]) (auto simp: t_def)
  qed
qed

lemma route_level:
  assumes "routed P xs (place P xs i) s"
  shows "routed P xs (place P xs (Suc i)) (fold (route i) [0..<length xs] s)"
proof -
  have "routed P xs (midway P xs i n) (fold (route i) [0..<n] s)" if "n \<le> length xs" for n
    using that
  proof (induction n)
    case 0
    have "routed P xs (midway P xs i 0) s" by (rule routed_cong [OF _ assms]) (simp add: midway_def)
    then show ?case by simp
  next
    case (Suc n)
    then show ?case using route_step [of P xs i n "fst (fold (route i) [0..<n] s)" "snd (fold (route i) [0..<n] s)"] by simp
  qed
  then have "routed P xs (midway P xs i (length xs)) (fold (route i) [0..<length xs] s)" by simp
  moreover have "midway P xs i (length xs) p = place P xs (Suc i) p" if "p \<in> kept P xs" for p
    using that place_le [of P xs i p] by (auto simp: midway_def kept_def)
  ultimately show ?thesis using routed_cong by metis
qed

lemma routed_start: "routed P xs (place P xs 0) (xs, label_distances P xs 0 0)"
  by (auto simp: routed_def place_0 label_nth kept_def image_iff)

lemma routed_levels:
  "routed P xs (place P xs L) (fold (\<lambda>i. fold (route i) [0..<length xs]) [0..<L] (xs, label_distances P xs 0 0))"
  by (induction L) (simp_all add: routed_start route_level)

theorem ocompact_result:
  assumes "length xs < 18446744073709551616"
  shows "take (length (filter P xs)) (ocompact P xs) = filter P xs" "mset (ocompact P xs) = mset xs"
proof -
  have "take (length (filter P xs)) (ocompact P xs) = filter P xs \<and> mset (ocompact P xs) = mset xs"
  proof (cases "length xs > 1")
    case False
    then have "xs = [] \<or> (\<exists>x. xs = [x])" by (cases xs) (auto simp: le_Suc_eq)
    then show ?thesis by (auto simp: ocompact_def)
  next
    case True
    define L where "L = unat (j_ceil_log2 (of_nat (length xs)))"
    define s where "s = fold (\<lambda>i. fold (route i) [0..<length xs]) [0..<L] (xs, label_distances P xs 0 0)"
    have n: "unat (of_nat (length xs) :: u64) = length xs" using assms by (rule unat_of_nat_64)
    then have n0: "(of_nat (length xs) :: u64) \<noteq> 0" using True by (metis unat_0 not_less_zero)
    have L: "length xs \<le> 2 ^ L" using ceil_log2_bounds(1) [OF n0] j_ceil_log2_eq [OF n0] n by (simp add: L_def)
    have oc: "ocompact P xs = fst s" using True by (simp add: ocompact_def s_def L_def Let_def)
    have r: "routed P xs (place P xs L) s" unfolding s_def by (rule routed_levels)
    then have m: "length (fst s) = length xs" "mset (fst s) = mset xs" by (auto simp: routed_def split: prod.splits)
    have "fst s ! k = filter P xs ! k" if k: "k < length (filter P xs)" for k
    proof -
      obtain p where p: "p \<in> kept P xs" "rank P xs p = k" using rank_onto [OF k] by blast
      then have "place P xs L p = k" using L by (intro trans [OF place_last]) (auto simp: kept_def)
      then show ?thesis using r p filter_rank [OF p(1)] by (auto simp: routed_def split: prod.splits)
    qed
    then have "take (length (filter P xs)) (fst s) = filter P xs"
      using m(1) length_filter_le [of P xs] by (intro nth_equalityI) simp_all
    then show ?thesis using oc m(2) by simp
  qed
  then show "take (length (filter P xs)) (ocompact P xs) = filter P xs" "mset (ocompact P xs) = mset xs" by simp_all
qed

lemma length_ocompact: "length xs < 18446744073709551616 \<Longrightarrow> length (ocompact P xs) = length xs"
  using ocompact_result(2) by (metis mset_eq_length)

end
