(* ===== verification/Queue.thy ===== *)
theory Queue
  imports Prelude
begin

text \<open>
  The blocking queue between the enclave's entry points and a shard's worker
  (\<^verbatim>\<open>sharded_ohtable/queue.c\<close>): a ring buffer of 20 item pointers under one mutex with two
  condition variables. A null pointer is \<open>None\<close>.

  Each operation is modelled as its critical section, which either returns, goes to sleep on
  its condition variable, or aborts in \<open>CHECK\<close>; a return lists the condition variables that
  are signalled, in order. The step relation \<open>queue_step\<close> interleaves the critical sections of
  any number of threads, with spurious wake-ups.

  Proved: the ring buffer refines a FIFO list of at most 20 items; under every interleaving
  items leave in the order in which they entered, the \<open>CHECK\<close> never fires, and no wake-up is
  lost.
\<close>

section \<open>Definitions\<close>

subsection \<open>The ring buffer\<close>

abbreviation (input) QUEUE_SIZE :: nat where "QUEUE_SIZE \<equiv> 20"

record 'a queue =
  q_items :: "'a option list"
  q_num_items :: nat
  q_add :: nat
  q_rem :: nat
  q_closed :: bool

datatype condition = producer_con | consumer_con

datatype ('q, 'r) outcome =
    Aborts
  | Waits condition
  | Returns 'q 'r "condition list"

definition queue_create :: "'a queue" where
  "queue_create = \<lparr>q_items = replicate QUEUE_SIZE None, q_num_items = 0, q_add = 0, q_rem = 0, q_closed = False\<rparr>"

text \<open>\<open>queue_close\<close> broadcasts on \<open>producer_con\<close> (see \<open>wake_all\<close> below).\<close>

definition queue_close :: "'a queue \<Rightarrow> 'a queue" where
  "queue_close q = q\<lparr>q_closed := True\<rparr>"

text \<open>\<open>queue_add_item\<close> from the loop test (line 62) on; the thread comes back here when it wakes up.\<close>

definition add_item_loop :: "'a queue \<Rightarrow> 'a option \<Rightarrow> ('a queue, error_t) outcome" where
  "add_item_loop q item =
     (if q_num_items q = QUEUE_SIZE \<and> \<not> q_closed q then Waits producer_con
      else
        let (err, q, sig) =
              (if q_closed q then (err_QUEUE__CLOSED, q, [])
               else (err_SUCCESS,
                     q\<lparr>q_items := (q_items q)[q_add q := item],
                       q_add := (q_add q + 1) mod QUEUE_SIZE,
                       q_num_items := q_num_items q + 1\<rparr>, [consumer_con]))
        in Returns q err (sig @ (if q_num_items q < QUEUE_SIZE then [producer_con] else [])))"

definition queue_add_item :: "'a queue \<Rightarrow> 'a option \<Rightarrow> ('a queue, error_t) outcome" where
  "queue_add_item q item =
     (if \<not> q_num_items q \<le> QUEUE_SIZE then Aborts else add_item_loop q item)"

text \<open>\<open>queue_next_item\<close> inside the conditional (lines 88-100).\<close>

definition next_item_loop :: "'a queue \<Rightarrow> ('a queue, 'a option) outcome" where
  "next_item_loop q =
     (if q_num_items q = 0 then Waits consumer_con
      else
        let result = q_items q ! q_rem q;
            q = q\<lparr>q_rem := (q_rem q + 1) mod QUEUE_SIZE, q_num_items := q_num_items q - 1\<rparr>
        in Returns q result (producer_con # (if q_num_items q > 0 then [consumer_con] else [])))"

definition queue_next_item :: "'a queue \<Rightarrow> bool \<Rightarrow> ('a queue, 'a option) outcome" where
  "queue_next_item q block =
     (if block \<or> q_num_items q > 0 then next_item_loop q else Returns q None [])"

subsection \<open>Threads\<close>

text \<open>
  A thread that has called an operation is about to enter its critical section, asleep in
  \<open>pthread_cond_wait\<close>, or woken up and about to test its loop condition again. The two logs
  record what was added and what was taken.
\<close>

datatype 'a call = Add "'a option" | Next bool | Close

datatype 'a thread = Enter "'a call" | Sleeping "'a call" | Woken "'a call"

record 'a queue_system =
  sys_queue :: "'a queue"
  sys_threads :: "nat \<Rightarrow> 'a thread option"
  sys_added :: "'a option list"
  sys_taken :: "'a option list"
  sys_aborted :: bool

fun sleeps_on :: "condition \<Rightarrow> 'a thread \<Rightarrow> bool" where
  "sleeps_on producer_con (Sleeping (Add x)) = True"
| "sleeps_on consumer_con (Sleeping (Next b)) = True"
| "sleeps_on _ _ = False"

fun runs_for :: "condition \<Rightarrow> 'a thread \<Rightarrow> bool" where
  "runs_for producer_con (Woken (Add x)) = True"
| "runs_for consumer_con (Woken (Next b)) = True"
| "runs_for _ _ = False"

fun wake :: "'a thread \<Rightarrow> 'a thread" where
  "wake (Sleeping c) = Woken c"
| "wake t = t"

text \<open>\<open>pthread_cond_signal\<close> wakes a thread that sleeps on the variable, if there is one.\<close>

inductive signalled :: "condition list \<Rightarrow> (nat \<Rightarrow> 'a thread option) \<Rightarrow> (nat \<Rightarrow> 'a thread option) \<Rightarrow> bool" where
  none: "signalled [] T T"
| no_sleeper: "(\<And>t th. T t = Some th \<Longrightarrow> \<not> sleeps_on c th) \<Longrightarrow> signalled cs T T' \<Longrightarrow> signalled (c # cs) T T'"
| wakes: "T t = Some th \<Longrightarrow> sleeps_on c th \<Longrightarrow> signalled cs (T(t \<mapsto> wake th)) T' \<Longrightarrow> signalled (c # cs) T T'"

definition wake_all :: "condition \<Rightarrow> (nat \<Rightarrow> 'a thread option) \<Rightarrow> nat \<Rightarrow> 'a thread option" where
  "wake_all c T = (\<lambda>t. map_option (\<lambda>th. if sleeps_on c th then wake th else th) (T t))"

inductive queue_step :: "'a queue_system \<Rightarrow> 'a queue_system \<Rightarrow> bool" where
  call: "sys_threads s t = None \<Longrightarrow>
     queue_step s (s\<lparr>sys_threads := (sys_threads s)(t \<mapsto> Enter c)\<rparr>)"
| add_abort: "sys_threads s t = Some (Enter (Add x)) \<Longrightarrow> queue_add_item (sys_queue s) x = Aborts \<Longrightarrow>
     queue_step s (s\<lparr>sys_aborted := True\<rparr>)"
| add_wait: "sys_threads s t = Some (Enter (Add x)) \<and> queue_add_item (sys_queue s) x = Waits c \<or>
             sys_threads s t = Some (Woken (Add x)) \<and> add_item_loop (sys_queue s) x = Waits c \<Longrightarrow>
     queue_step s (s\<lparr>sys_threads := (sys_threads s)(t \<mapsto> Sleeping (Add x))\<rparr>)"
| add_return: "sys_threads s t = Some (Enter (Add x)) \<and> queue_add_item (sys_queue s) x = Returns q err cs \<or>
               sys_threads s t = Some (Woken (Add x)) \<and> add_item_loop (sys_queue s) x = Returns q err cs \<Longrightarrow>
     signalled cs ((sys_threads s)(t := None)) T \<Longrightarrow>
     queue_step s (s\<lparr>sys_queue := q, sys_threads := T,
                     sys_added := sys_added s @ (if err = err_SUCCESS then [x] else [])\<rparr>)"
| next_wait: "sys_threads s t = Some (Enter (Next b)) \<and> queue_next_item (sys_queue s) b = Waits c \<or>
              sys_threads s t = Some (Woken (Next b)) \<and> next_item_loop (sys_queue s) = Waits c \<Longrightarrow>
     queue_step s (s\<lparr>sys_threads := (sys_threads s)(t \<mapsto> Sleeping (Next b))\<rparr>)"
| next_return: "sys_threads s t = Some (Enter (Next b)) \<and> queue_next_item (sys_queue s) b = Returns q r cs \<or>
                sys_threads s t = Some (Woken (Next b)) \<and> next_item_loop (sys_queue s) = Returns q r cs \<Longrightarrow>
     signalled cs ((sys_threads s)(t := None)) T \<Longrightarrow>
     queue_step s (s\<lparr>sys_queue := q, sys_threads := T,
                     sys_taken := sys_taken s @ (if cs = [] then [] else [r])\<rparr>)"
| close: "sys_threads s t = Some (Enter Close) \<Longrightarrow>
     queue_step s (s\<lparr>sys_queue := queue_close (sys_queue s),
                     sys_threads := wake_all producer_con ((sys_threads s)(t := None))\<rparr>)"
| spurious: "sys_threads s t = Some (Sleeping c) \<Longrightarrow>
     queue_step s (s\<lparr>sys_threads := (sys_threads s)(t \<mapsto> Woken c)\<rparr>)"

definition queue_start :: "'a queue_system" where
  "queue_start = \<lparr>sys_queue = queue_create, sys_threads = (\<lambda>_. None), sys_added = [], sys_taken = [], sys_aborted = False\<rparr>"

inductive queue_reachable :: "'a queue_system \<Rightarrow> bool" where
  start: "queue_reachable queue_start"
| step: "queue_reachable s \<Longrightarrow> queue_step s s' \<Longrightarrow> queue_reachable s'"

subsection \<open>Abstraction and invariants\<close>

definition queue_inv :: "'a queue \<Rightarrow> bool" where
  "queue_inv q \<longleftrightarrow> length (q_items q) = QUEUE_SIZE \<and> q_num_items q \<le> QUEUE_SIZE \<and> q_rem q < QUEUE_SIZE
     \<and> q_add q = (q_rem q + q_num_items q) mod QUEUE_SIZE"

definition queue_list :: "'a queue \<Rightarrow> 'a option list" where
  "queue_list q = map (\<lambda>i. q_items q ! ((q_rem q + i) mod QUEUE_SIZE)) [0..<q_num_items q]"

text \<open>Sleeping producers imply a full queue or a producer on its way, and dually for consumers.\<close>

definition has_sleeper :: "condition \<Rightarrow> (nat \<Rightarrow> 'a thread option) \<Rightarrow> bool" where
  "has_sleeper c T \<longleftrightarrow> (\<exists>t th. T t = Some th \<and> sleeps_on c th)"

definition has_runner :: "condition \<Rightarrow> (nat \<Rightarrow> 'a thread option) \<Rightarrow> bool" where
  "has_runner c T \<longleftrightarrow> (\<exists>t th. T t = Some th \<and> runs_for c th)"

definition no_lost_wakeup :: "'a queue_system \<Rightarrow> bool" where
  "no_lost_wakeup s \<longleftrightarrow>
     (has_sleeper producer_con (sys_threads s) \<longrightarrow>
        \<not> q_closed (sys_queue s) \<and>
        (q_num_items (sys_queue s) = QUEUE_SIZE \<or> has_runner producer_con (sys_threads s))) \<and>
     (has_sleeper consumer_con (sys_threads s) \<longrightarrow>
        q_num_items (sys_queue s) = 0 \<or> has_runner consumer_con (sys_threads s))"

definition wakes_some :: "(nat \<Rightarrow> 'a thread option) \<Rightarrow> (nat \<Rightarrow> 'a thread option) \<Rightarrow> bool" where
  "wakes_some T T' \<longleftrightarrow> (\<forall>t. T' t = T t \<or> (\<exists>c. T t = Some (Sleeping c) \<and> T' t = Some (Woken c)))"

definition queue_system_inv :: "'a queue_system \<Rightarrow> bool" where
  "queue_system_inv s \<longleftrightarrow> queue_inv (sys_queue s) \<and> \<not> sys_aborted s \<and>
     sys_added s = sys_taken s @ queue_list (sys_queue s) \<and> no_lost_wakeup s"

section \<open>The ring buffer is a FIFO list\<close>

lemma length_queue_list [simp]: "length (queue_list q) = q_num_items q"
  by (simp add: queue_list_def)

lemma queue_create_inv [inv_intros]: "queue_inv queue_create" "queue_list queue_create = []"
  by (simp_all add: queue_inv_def queue_create_def queue_list_def)

lemma queue_close_inv [inv_intros]: "queue_inv q \<Longrightarrow> queue_inv (queue_close q)"
  by (simp add: queue_inv_def queue_close_def)

lemma queue_close_list [refine_simps]: "queue_list (queue_close q) = queue_list q"
  by (simp add: queue_list_def queue_close_def)

lemma enqueue_list:
  fixes item :: "'a option"
  assumes "queue_inv q" "q_num_items q < QUEUE_SIZE"
  defines "q' \<equiv> q\<lparr>q_items := (q_items q)[q_add q := item], q_add := (q_add q + 1) mod QUEUE_SIZE,
                    q_num_items := q_num_items q + 1\<rparr>"
  shows "queue_inv q'" "queue_list q' = queue_list q @ [item]"
proof -
  have ne: "(q_rem q + q_num_items q) mod QUEUE_SIZE \<noteq> (q_rem q + i) mod QUEUE_SIZE"
    if "i < q_num_items q" for i
    using that assms(1,2) by (auto simp: queue_inv_def mod_if split: if_splits)
  show "queue_inv q'" using assms(1,2) by (simp add: q'_def queue_inv_def mod_simps)
  show "queue_list q' = queue_list q @ [item]"
    using assms(1,2) ne by (simp add: q'_def queue_list_def queue_inv_def)
qed

lemma dequeue_list:
  assumes "queue_inv q" "0 < q_num_items q"
  defines "q' \<equiv> q\<lparr>q_rem := (q_rem q + 1) mod QUEUE_SIZE, q_num_items := q_num_items q - 1\<rparr>"
  shows "queue_inv q'" "queue_list q = q_items q ! q_rem q # queue_list q'"
proof -
  obtain n where n: "q_num_items q = Suc n" using assms(2) by (cases "q_num_items q") auto
  show "queue_inv q'" using assms(1) n by (simp add: q'_def queue_inv_def mod_simps)
  have "[0..<Suc n] = 0 # map Suc [0..<n]" by (simp add: map_Suc_upt upt_conv_Cons del: upt_Suc)
  then show "queue_list q = q_items q ! q_rem q # queue_list q'"
    using n assms(1) by (simp add: q'_def queue_list_def queue_inv_def mod_simps o_def del: upt_Suc)
qed

text \<open>The contract of a bounded FIFO queue, and that the ring buffer meets it.\<close>

locale bounded_fifo =
  fixes create :: 'q
    and put :: "'q \<Rightarrow> 'a \<Rightarrow> ('q, error_t) outcome"
    and take_first :: "'q \<Rightarrow> ('q, 'a) outcome"
    and contents :: "'q \<Rightarrow> 'a list"
    and invar :: "'q \<Rightarrow> bool"
    and closed :: "'q \<Rightarrow> bool"
    and cap :: nat
  assumes create_empty: "invar create" "contents create = []"
    and put_waits: "invar q \<Longrightarrow> \<not> closed q \<Longrightarrow> length (contents q) = cap \<Longrightarrow> put q x = Waits producer_con"
    and put_closed: "invar q \<Longrightarrow> closed q \<Longrightarrow> \<exists>cs. put q x = Returns q err_QUEUE__CLOSED cs"
    and put_adds: "invar q \<Longrightarrow> \<not> closed q \<Longrightarrow> length (contents q) < cap \<Longrightarrow>
        \<exists>q' cs. put q x = Returns q' err_SUCCESS cs \<and> invar q' \<and> contents q' = contents q @ [x] \<and>
                consumer_con \<in> set cs \<and> closed q' = closed q"
    and take_waits: "invar q \<Longrightarrow> contents q = [] \<Longrightarrow> take_first q = Waits consumer_con"
    and take_head: "invar q \<Longrightarrow> contents q = x # xs \<Longrightarrow>
        \<exists>q' cs. take_first q = Returns q' x cs \<and> invar q' \<and> contents q' = xs \<and>
                producer_con \<in> set cs \<and> closed q' = closed q"
    and bounded: "invar q \<Longrightarrow> length (contents q) \<le> cap"
begin

text \<open>Whatever \<open>put\<close> does on a good queue, it does not abort, and an accepted item is the last.\<close>

lemma put_cases:
  assumes "invar q"
  shows "put q x = Waits producer_con \<and> \<not> closed q \<and> length (contents q) = cap \<or>
         (\<exists>cs. put q x = Returns q err_QUEUE__CLOSED cs \<and> closed q) \<or>
         (\<exists>q' cs. put q x = Returns q' err_SUCCESS cs \<and> invar q' \<and> contents q' = contents q @ [x])"
  using put_waits [OF assms] put_closed [OF assms] put_adds [OF assms] bounded [OF assms]
  by (metis nat_less_le)

text \<open>A put and then a take on an empty queue hands the item over.\<close>

lemma put_take:
  assumes "invar q" "\<not> closed q" "contents q = []" "0 < cap"
  shows "\<exists>q' cs q'' cs'. put q x = Returns q' err_SUCCESS cs \<and> take_first q' = Returns q'' x cs' \<and> contents q'' = []"
  using put_adds [OF assms(1,2), of x] assms(3,4) take_head by fastforce

end

interpretation ring: bounded_fifo queue_create queue_add_item next_item_loop queue_list queue_inv q_closed QUEUE_SIZE
proof
  fix q :: "'a queue" and x :: "'a option" and xs
  assume inv: "queue_inv q"
  then have le: "q_num_items q \<le> QUEUE_SIZE" by (simp add: queue_inv_def)
  show "length (queue_list q) \<le> QUEUE_SIZE" using le by simp
  show "queue_add_item q x = Waits producer_con" if "\<not> q_closed q" "length (queue_list q) = QUEUE_SIZE"
    using that by (simp add: queue_add_item_def add_item_loop_def)
  show "\<exists>cs. queue_add_item q x = Returns q err_QUEUE__CLOSED cs" if "q_closed q"
    using that le by (simp add: queue_add_item_def add_item_loop_def)
  show "\<exists>q' cs. queue_add_item q x = Returns q' err_SUCCESS cs \<and> queue_inv q' \<and>
      queue_list q' = queue_list q @ [x] \<and> consumer_con \<in> set cs \<and> q_closed q' = q_closed q"
    if "\<not> q_closed q" "length (queue_list q) < QUEUE_SIZE"
    using that le enqueue_list [OF inv, of x] by (simp add: queue_add_item_def add_item_loop_def)
  show "next_item_loop q = Waits consumer_con" if "queue_list q = []"
    using that length_queue_list [of q] by (simp add: next_item_loop_def)
  show "\<exists>q' cs. next_item_loop q = Returns q' x cs \<and> queue_inv q' \<and> queue_list q' = xs \<and>
      producer_con \<in> set cs \<and> q_closed q' = q_closed q" if "queue_list q = x # xs"
    using that length_queue_list [of q] dequeue_list [OF inv] by (auto simp: next_item_loop_def)
qed (simp_all add: queue_create_inv)

section \<open>Interleavings\<close>

lemmas queue_defs = queue_add_item_def add_item_loop_def queue_next_item_def next_item_loop_def

inductive_cases signalled_NilE: "signalled [] T T'"
inductive_cases signalled_ConsE: "signalled (c # cs) T T'"

lemma sleeps_on_wake: "sleeps_on c th \<Longrightarrow> \<exists>k. th = Sleeping k \<and> runs_for c (Woken k)"
  by (cases th; cases c; rename_tac k; case_tac k) auto

lemma wakes_some_trans: "wakes_some T T' \<Longrightarrow> wakes_some T' T'' \<Longrightarrow> wakes_some T T''"
  unfolding wakes_some_def by (metis option.inject thread.distinct(5))

lemma signalled_wakes_some: "signalled cs T T' \<Longrightarrow> wakes_some T T'"
proof (induction rule: signalled.induct)
  case (wakes T t th c cs T')
  obtain k where "th = Sleeping k" using sleeps_on_wake wakes.hyps(2) by blast
  then have "wakes_some T (T(t \<mapsto> wake th))" using wakes.hyps(1) by (auto simp: wakes_some_def)
  then show ?case using wakes.IH by (rule wakes_some_trans)
qed (auto simp: wakes_some_def)

lemma wakes_some_runner: "wakes_some T T' \<Longrightarrow> has_runner c T \<Longrightarrow> has_runner c T'"
proof -
  assume ws: "wakes_some T T'" and "has_runner c T"
  then obtain t th where th: "T t = Some th" "runs_for c th" unfolding has_runner_def by blast
  then have "T' t = Some th" using ws by (cases th; cases c) (auto simp: wakes_some_def dest!: spec [of _ t])
  then show ?thesis using th unfolding has_runner_def by blast
qed

lemma wakes_some_sleeper: "wakes_some T T' \<Longrightarrow> has_sleeper c T' \<Longrightarrow> has_sleeper c T"
proof -
  assume ws: "wakes_some T T'" and "has_sleeper c T'"
  then obtain t th where th: "T' t = Some th" "sleeps_on c th" unfolding has_sleeper_def by blast
  then have "T t = Some th" using ws by (cases th; cases c) (auto simp: wakes_some_def dest!: spec [of _ t])
  then show ?thesis using th unfolding has_sleeper_def by blast
qed

lemmas signalled_sleeper = wakes_some_sleeper [OF signalled_wakes_some]
lemmas signalled_keeps_runner = wakes_some_runner [OF signalled_wakes_some]

lemma signalled_runner:
  assumes "signalled cs T T'" "c \<in> set cs" "has_sleeper c T'"
  shows "has_runner c T'"
  using assms
proof (induction rule: signalled.induct)
  case (no_sleeper T d cs T')
  then have "c \<noteq> d" using signalled_sleeper unfolding has_sleeper_def by metis
  then show ?case using no_sleeper by simp
next
  case (wakes T u uh d cs T')
  show ?case
  proof (cases "c = d")
    case True
    obtain k where k: "uh = Sleeping k" "runs_for d (Woken k)" using sleeps_on_wake wakes.hyps(2) by blast
    then have "has_runner c (T(u \<mapsto> wake uh))" using True by (auto simp: has_runner_def)
    then show ?thesis by (rule signalled_keeps_runner [OF wakes.hyps(3)])
  qed (use wakes in auto)
qed simp

text \<open>Threads that neither sleep on \<open>c\<close> nor run for it do not matter for \<open>c\<close>.\<close>

lemma update_other:
  assumes "T t = None \<or> (\<exists>th. T t = Some th \<and> \<not> sleeps_on c th \<and> \<not> runs_for c th)"
    and "v = None \<or> (\<exists>th. v = Some th \<and> \<not> sleeps_on c th \<and> \<not> runs_for c th)"
  shows "has_sleeper c (T(t := v)) = has_sleeper c T" "has_runner c (T(t := v)) = has_runner c T"
  using assms unfolding has_sleeper_def has_runner_def by (metis fun_upd_apply option.distinct(1) option.inject)+

lemma has_sleeper_remove: "has_sleeper c (T(t := None)) \<Longrightarrow> has_sleeper c T"
  by (auto simp: has_sleeper_def split: if_splits)

lemma wake_all_wakes_some: "wakes_some T (wake_all c T)"
proof -
  have "wake_all c T t = T t \<or> (\<exists>k. T t = Some (Sleeping k) \<and> wake_all c T t = Some (Woken k))" for t
    by (cases "T t") (auto simp: wake_all_def dest!: sleeps_on_wake)
  then show ?thesis by (simp add: wakes_some_def)
qed

lemma wake_all_no_sleeper: "\<not> has_sleeper c (wake_all c T)"
proof -
  have "\<not> sleeps_on c (wake th)" for th :: "'b thread"
    by (cases th; cases c) auto
  then show ?thesis unfolding has_sleeper_def wake_all_def by (auto split: if_splits)
qed

text \<open>What one critical section returns, in the terms of the invariant.\<close>

lemma add_returnsD:
  assumes "queue_inv q" "add_item_loop q x = Returns q' err cs"
  shows "queue_inv q'" "q_closed q' = q_closed q"
    "queue_list q' = queue_list q @ (if err = err_SUCCESS then [x] else [])"
    "\<not> q_closed q \<Longrightarrow> consumer_con \<in> set cs"
    "\<not> q_closed q \<Longrightarrow> q_num_items q' < QUEUE_SIZE \<Longrightarrow> producer_con \<in> set cs"
    "q_closed q \<Longrightarrow> q' = q"
proof -
  have le: "q_num_items q \<le> QUEUE_SIZE" using assms(1) by (simp add: queue_inv_def)
  show "queue_inv q'" "q_closed q' = q_closed q"
    "queue_list q' = queue_list q @ (if err = err_SUCCESS then [x] else [])"
    "\<not> q_closed q \<Longrightarrow> consumer_con \<in> set cs"
    "\<not> q_closed q \<Longrightarrow> q_num_items q' < QUEUE_SIZE \<Longrightarrow> producer_con \<in> set cs"
    "q_closed q \<Longrightarrow> q' = q"
    using assms enqueue_list [OF assms(1), of x] le by (auto simp: add_item_loop_def split: if_splits)
qed

lemma next_returnsD:
  assumes "queue_inv q" "next_item_loop q = Returns q' r cs"
  shows "queue_inv q'" "q_closed q' = q_closed q" "queue_list q = r # queue_list q'"
    "producer_con \<in> set cs" "0 < q_num_items q' \<Longrightarrow> consumer_con \<in> set cs"
  using assms dequeue_list [OF assms(1)] by (auto simp: next_item_loop_def split: if_splits)

lemma add_enters: "queue_inv q \<Longrightarrow> queue_add_item q x = add_item_loop q x"
  by (simp add: queue_inv_def queue_add_item_def)

lemma add_waitsD: "add_item_loop q x = Waits c \<Longrightarrow> q_num_items q = QUEUE_SIZE \<and> \<not> q_closed q"
  by (auto simp: add_item_loop_def split: if_splits)

lemma next_waitsD: "next_item_loop q = Waits c \<Longrightarrow> q_num_items q = 0"
  by (auto simp: next_item_loop_def split: if_splits)

lemma next_cases:
  "queue_next_item q b = Returns q' r cs \<Longrightarrow> next_item_loop q = Returns q' r cs \<or> q' = q \<and> cs = []"
  "queue_next_item q b = Waits c \<Longrightarrow> next_item_loop q = Waits c"
  by (auto simp: queue_next_item_def split: if_splits)

lemma add_return_wakeup:
  assumes inv: "queue_inv (sys_queue s)" and ok: "no_lost_wakeup s"
    and t: "sys_threads s t = Some (Enter (Add x)) \<or> sys_threads s t = Some (Woken (Add x))"
    and ret: "add_item_loop (sys_queue s) x = Returns q err cs"
    and sig: "signalled cs ((sys_threads s)(t := None)) T"
  shows "no_lost_wakeup (s\<lparr>sys_queue := q, sys_threads := T, sys_added := a\<rparr>)"
proof -
  note D = add_returnsD [OF inv ret]
  have le: "q_num_items q \<le> QUEUE_SIZE" using D(1) by (simp add: queue_inv_def)
  have sl: "has_sleeper c T \<Longrightarrow> has_sleeper c (sys_threads s)" for c
    using signalled_sleeper [OF sig] has_sleeper_remove by blast
  have "has_runner consumer_con ((sys_threads s)(t := None)) = has_runner consumer_con (sys_threads s)"
    using t by (intro update_other) auto
  then have keep: "has_runner consumer_con (sys_threads s) \<Longrightarrow> has_runner consumer_con T"
    using signalled_keeps_runner [OF sig] by simp
  show ?thesis
  proof (cases "q_closed (sys_queue s)")
    case True
    then show ?thesis using ok sl keep D(6) by (auto simp: no_lost_wakeup_def)
  next
    case False
    then show ?thesis using D le signalled_runner [OF sig] by (auto simp: no_lost_wakeup_def nat_less_le)
  qed
qed

lemma next_return_wakeup:
  assumes inv: "queue_inv (sys_queue s)" and ok: "no_lost_wakeup s"
    and ret: "next_item_loop (sys_queue s) = Returns q r cs"
    and sig: "signalled cs ((sys_threads s)(t := None)) T"
  shows "no_lost_wakeup (s\<lparr>sys_queue := q, sys_threads := T, sys_taken := a\<rparr>)"
proof -
  note D = next_returnsD [OF inv ret]
  have "has_sleeper producer_con T \<Longrightarrow> \<not> q_closed (sys_queue s)"
    using signalled_sleeper [OF sig] has_sleeper_remove ok unfolding no_lost_wakeup_def by blast
  then show ?thesis using D signalled_runner [OF sig] by (auto simp: no_lost_wakeup_def)
qed

lemma queue_step_inv:
  assumes "queue_step s s'" "queue_system_inv s"
  shows "queue_system_inv s'"
proof -
  have inv: "queue_inv (sys_queue s)" and ok: "no_lost_wakeup s"
    using assms(2) by (simp_all add: queue_system_inv_def)
  from assms(1) show ?thesis
  proof (cases rule: queue_step.cases)
    case (add_abort t x)
    then show ?thesis using inv
      by (auto simp: queue_add_item_def queue_inv_def add_item_loop_def split: if_splits prod.splits)
  next
    case (add_wait t x c)
    then have "add_item_loop (sys_queue s) x = Waits c" using inv by (auto simp: add_enters)
    then show ?thesis using add_wait assms(2) add_waitsD [of "sys_queue s" x c]
      by (auto simp: queue_system_inv_def no_lost_wakeup_def update_other)
  next
    case (add_return t x q err cs T)
    then have ret: "add_item_loop (sys_queue s) x = Returns q err cs"
      and t: "sys_threads s t = Some (Enter (Add x)) \<or> sys_threads s t = Some (Woken (Add x))"
      using inv by (auto simp: add_enters)
    show ?thesis using add_return(1) assms(2) add_returnsD [OF inv ret]
        add_return_wakeup [OF inv ok t ret add_return(3)] by (simp add: queue_system_inv_def)
  next
    case (next_wait t b c)
    then have "next_item_loop (sys_queue s) = Waits c" using next_cases(2) by blast
    then show ?thesis using next_wait assms(2) next_waitsD
      by (auto simp: queue_system_inv_def no_lost_wakeup_def update_other)
  next
    case (next_return t b q r cs T)
    show ?thesis
    proof (cases "next_item_loop (sys_queue s) = Returns q r cs")
      case True
      have "cs \<noteq> []" using next_returnsD(4) [OF inv True] by auto
      then show ?thesis using next_return(1) assms(2) next_returnsD [OF inv True]
          next_return_wakeup [OF inv ok True next_return(3)] by (simp add: queue_system_inv_def)
    next
      case False
      then have "q = sys_queue s" "cs = []" "sys_threads s t = Some (Enter (Next b))"
        using next_return(2) next_cases(1) by blast+
      moreover from this have "T = (sys_threads s)(t := None)" using next_return(3) by (auto elim: signalled_NilE)
      ultimately show ?thesis using next_return(1) assms(2)
        by (simp add: queue_system_inv_def no_lost_wakeup_def update_other)
    qed
  next
    case (close t)
    let ?T = "(sys_threads s)(t := None)"
    have "has_sleeper c ?T = has_sleeper c (sys_threads s)" "has_runner c ?T = has_runner c (sys_threads s)" for c
      using close(2) by (intro update_other; simp)+
    then have "has_sleeper consumer_con (wake_all producer_con ?T) \<Longrightarrow> has_sleeper consumer_con (sys_threads s)"
      "has_runner consumer_con (sys_threads s) \<Longrightarrow> has_runner consumer_con (wake_all producer_con ?T)"
      using wakes_some_sleeper [OF wake_all_wakes_some] wakes_some_runner [OF wake_all_wakes_some] by metis+
    then have "no_lost_wakeup s'"
      using close(1) ok wake_all_no_sleeper [of producer_con ?T] by (auto simp: no_lost_wakeup_def queue_close_def)
    then show ?thesis using close(1) assms(2)
      by (simp add: queue_system_inv_def queue_close_inv queue_close_list)
  next
    case (spurious t c)
    have "wakes_some (sys_threads s) (sys_threads s')" using spurious by (simp add: wakes_some_def)
    then have "has_sleeper c (sys_threads s') \<Longrightarrow> has_sleeper c (sys_threads s)"
      "has_runner c (sys_threads s) \<Longrightarrow> has_runner c (sys_threads s')" for c
      using wakes_some_sleeper wakes_some_runner by blast+
    then show ?thesis using spurious(1) assms(2) by (auto simp: queue_system_inv_def no_lost_wakeup_def)
  qed (use assms(2) in \<open>simp add: queue_system_inv_def no_lost_wakeup_def update_other\<close>)
qed

lemma queue_reachable_inv: "queue_reachable s \<Longrightarrow> queue_system_inv s"
proof (induction rule: queue_reachable.induct)
  case start
  show ?case
    by (simp add: queue_system_inv_def queue_start_def no_lost_wakeup_def has_sleeper_def queue_create_inv)
qed (rule queue_step_inv)

end
