(* ===== verification/HalfSipHash.thy ===== *)
theory HalfSipHash
  imports Prelude
begin

text \<open>
  The keyed hash of \<^verbatim>\<open>halfsiphash/halfsiphash.jinc\<close>: HalfSipHash-2-4 over a byte string with a
  4 or 8 byte result, and the variant specialised to an 8-byte input and a 64-bit result.
  Memory is a list of bytes; numbers are stored little-endian.

  Proved: the specialised routine computes the general one.
\<close>

section \<open>Definitions\<close>

type_synonym sip_state = "u32 \<times> u32 \<times> u32 \<times> u32"

definition U32T08_LE :: "u32 \<Rightarrow> u8 list" where
  "U32T08_LE v = [ucast v, ucast (drop_bit 8 v), ucast (drop_bit 16 v), ucast (drop_bit 24 v)]"

definition U8T032_LE :: "u8 list \<Rightarrow> u32" where
  "U8T032_LE p = ucast (p ! 0) OR push_bit 8 (ucast (p ! 1)) OR push_bit 16 (ucast (p ! 2))
     OR push_bit 24 (ucast (p ! 3))"

definition SIPROUND :: "sip_state \<Rightarrow> sip_state" where
  "SIPROUND = (\<lambda>(v0, v1, v2, v3).
     let v0 = v0 + v1;
         v1 = word_rotl 5 v1;
         v1 = v1 XOR v0;
         v0 = word_rotl 16 v0;
         v2 = v2 + v3;
         v3 = word_rotl 8 v3;
         v3 = v3 XOR v2;
         v0 = v0 + v3;
         v3 = word_rotl 7 v3;
         v3 = v3 XOR v0;
         v2 = v2 + v1;
         v1 = word_rotl 13 v1;
         v1 = v1 XOR v2;
         v2 = word_rotl 16 v2
     in (v0, v1, v2, v3))"

abbreviation (input) cROUNDS :: nat where "cROUNDS \<equiv> 2"
abbreviation (input) dROUNDS :: nat where "dROUNDS \<equiv> 4"

text \<open>One message word: \<open>v3 ^= m\<close>, the rounds, \<open>v0 ^= m\<close>.\<close>

definition sip_compress :: "u32 \<Rightarrow> sip_state \<Rightarrow> sip_state" where
  "sip_compress m = (\<lambda>(v0, v1, v2, v3).
     let (v0, v1, v2, v3) = (SIPROUND ^^ cROUNDS) (v0, v1, v2, v3 XOR m)
     in (v0 XOR m, v1, v2, v3))"

text \<open>The loop over the whole words of the input; the rest is the tail of at most 3 bytes.\<close>

fun sip_absorb :: "u8 list \<Rightarrow> sip_state \<Rightarrow> sip_state \<times> u8 list" where
  "sip_absorb (b0 # b1 # b2 # b3 # ni) v = sip_absorb ni (sip_compress (U8T032_LE [b0, b1, b2, b3]) v)"
| "sip_absorb ni v = (v, ni)"

definition sip_init :: "u8 list \<Rightarrow> sip_state" where
  "sip_init k = (let k0 = U8T032_LE (take 4 k); k1 = U8T032_LE (take 4 (drop 4 k)) in
     (0 XOR k0, 0 XOR k1, 0x6c796765 XOR k0, 0x74656462 XOR k1))"

text \<open>The output bytes for the input \<open>in\<close> under the key \<open>k\<close>.\<close>

definition halfsiphash :: "u8 list \<Rightarrow> u8 list \<Rightarrow> u64 \<Rightarrow> u8 list" where
  "halfsiphash input k outlen = (
     let inlen = (of_nat (length input) :: u64);
         (v0, v1, v2, v3) = sip_init k;
         b = push_bit 24 (ucast inlen :: u32);
         v1 = (if outlen = 8 then v1 XOR 0xee else v1);
         (v, ni) = sip_absorb input (v0, v1, v2, v3);
         left = length ni;
         b = (if left \<ge> 3 then b OR push_bit 16 (ucast (ni ! 2)) else b);
         b = (if left \<ge> 2 then b OR push_bit 8 (ucast (ni ! 1)) else b);
         b = (if left \<ge> 1 then b OR ucast (ni ! 0) else b);
         (v0, v1, v2, v3) = sip_compress b v;
         v2 = (if outlen = 8 then v2 XOR 0xee else v2 XOR 0xff);
         (v0, v1, v2, v3) = (SIPROUND ^^ dROUNDS) (v0, v1, v2, v3);
         out = U32T08_LE (v1 XOR v3)
     in if outlen \<noteq> 4 then
          let (v0, v1, v2, v3) = (SIPROUND ^^ dROUNDS) (v0, v1 XOR 0xdd, v2, v3)
          in out @ U32T08_LE (v1 XOR v3)
        else out)"

definition halfsiphash_u64 :: "u8 list \<Rightarrow> u8 list \<Rightarrow> u64" where
  "halfsiphash_u64 input k = (
     let (v0, v1, v2, v3) = sip_init k;
         b = push_bit 24 (8 :: u32);
         v1 = v1 XOR 0xee;
         (v, ni) = sip_absorb (take 8 input) (v0, v1, v2, v3);
         (v0, v1, v2, v3) = sip_compress b v;
         v2 = v2 XOR 0xee;
         (v0, v1, v2, v3) = (SIPROUND ^^ dROUNDS) (v0, v1, v2, v3);
         retval = (ucast (v1 XOR v3) :: u64);
         (v0, v1, v2, v3) = (SIPROUND ^^ dROUNDS) (v0, v1 XOR 0xdd, v2, v3)
     in retval OR push_bit 32 (ucast (v1 XOR v3)))"

text \<open>A 64-bit number read from memory.\<close>

definition u64_of_bytes :: "u8 list \<Rightarrow> u64" where
  "u64_of_bytes p = ucast (U8T032_LE (take 4 p)) OR push_bit 32 (ucast (U8T032_LE (take 4 (drop 4 p))))"

section \<open>The specialised routine\<close>

lemma length_U32T08_LE [simp]: "length (U32T08_LE v) = 4"
  by (simp add: U32T08_LE_def)

lemma U8T032_U32T08 [simp]: "U8T032_LE (U32T08_LE v) = v"
proof (rule bit_word_eqI)
  fix n assume n: "n < LENGTH(32)"
  have eq: "16 \<le> n \<Longrightarrow> 16 + (n - 16) = n" "24 \<le> n \<Longrightarrow> 24 + (n - 24) = n" by simp_all
  consider "n < 8" | "8 \<le> n" "n < 16" | "16 \<le> n" "n < 24" | "24 \<le> n" by linarith
  then show "bit (U8T032_LE (U32T08_LE v)) n = bit v n"
    by cases (use n eq in \<open>auto simp: U8T032_LE_def U32T08_LE_def bit_simps nth_Cons\<close>)
qed

lemma length_halfsiphash: "length (halfsiphash input k outlen) = (if outlen = 4 then 4 else 8)"
  by (simp add: halfsiphash_def Let_def split: prod.split)

lemma halfsiphash_u64_eq:
  assumes "length input = 8"
  shows "halfsiphash_u64 input k = u64_of_bytes (halfsiphash input k 8)"
proof -
  obtain b0 b1 b2 b3 b4 b5 b6 b7 where "input = [b0, b1, b2, b3, b4, b5, b6, b7]"
    using assms by (auto simp: length_Suc_conv eval_nat_numeral)
  then show ?thesis
    by (simp add: halfsiphash_u64_def halfsiphash_def u64_of_bytes_def Let_def split: prod.split)
qed

section \<open>Evaluation\<close>

lemma rotl32:
  assumes "0 < n" "n < 32"
  shows "word_rotl n (w :: u32) = push_bit n w OR drop_bit (32 - n) w"
proof (rule bit_word_eqI)
  fix i :: nat assume "i < LENGTH(32)"
  then have i: "i < 32" by simp
  have c: "32 + i = i + 32" by simp
  have m: "(i + 32 - n) mod 32 = (if i < n then i + 32 - n else i - n)"
    using assms i by (auto simp: mod_if)
  have b: "\<not> n > i \<Longrightarrow> \<not> bit w (i + 32 - n)"
    using bit_imp_le_length [of w "i + 32 - n"] by auto
  show "bit (word_rotl n w) i \<longleftrightarrow> bit (push_bit n w OR drop_bit (32 - n) w) i"
    using assms i m b by (simp add: bit_simps bit_word_rotl_iff c)
qed

lemma Let_Pair: "Let (a, b) f = f (a, b)" by simp

lemma Let_Cons: "Let (a # b) f = f (a # b)" by simp

lemma funpow_SIPROUND:
  "(SIPROUND ^^ 2) v = SIPROUND (SIPROUND v)"
  "(SIPROUND ^^ 4) v = SIPROUND (SIPROUND (SIPROUND (SIPROUND v)))"
  by (simp_all add: eval_nat_numeral)

lemmas sip_eval =
  halfsiphash_def sip_init_def U8T032_LE_def U32T08_LE_def u64_of_bytes_def rotl32 funpow_SIPROUND Let_Pair Let_Cons
  SIPROUND_def [THEN fun_cong, of "(v0, v1, v2, v3)" for v0 v1 v2 v3, simplified prod.case]
  sip_compress_def [THEN fun_cong, of _ "(v0, v1, v2, v3)" for v0 v1 v2 v3, simplified prod.case]

end
