(* ===== verification/Bytes.thy ===== *)
theory Bytes
  imports HalfSipHash
begin

text \<open>
  Memory as lists of bytes: arrays of 64-bit numbers stored little-endian, and copying.

  Proved: storing numbers and reading them back is the identity, and what a copy changes.
\<close>

section \<open>Definitions\<close>

text \<open>An array of \<open>uint64_t\<close> and its bytes.\<close>

fun u64s_of_bytes :: "u8 list \<Rightarrow> u64 list" where
  "u64s_of_bytes (b0 # b1 # b2 # b3 # b4 # b5 # b6 # b7 # bs) =
     u64_of_bytes [b0, b1, b2, b3, b4, b5, b6, b7] # u64s_of_bytes bs"
| "u64s_of_bytes _ = []"

definition bytes_of_u64 :: "u64 \<Rightarrow> u8 list" where
  "bytes_of_u64 x = U32T08_LE (ucast x) @ U32T08_LE (ucast (drop_bit 32 x))"

definition bytes_of_u64s :: "u64 list \<Rightarrow> u8 list" where
  "bytes_of_u64s xs = concat (map bytes_of_u64 xs)"

text \<open>Bytes of a memory, and overwriting them (\<open>memcpy\<close>, \<open>memmove\<close>).\<close>

definition mem_read :: "u8 list \<Rightarrow> nat \<Rightarrow> nat \<Rightarrow> u8 list" where
  "mem_read mem p n = take n (drop p mem)"

definition mem_write :: "u8 list \<Rightarrow> nat \<Rightarrow> u8 list \<Rightarrow> u8 list" where
  "mem_write mem p bs = take p mem @ bs @ drop (p + length bs) mem"

section \<open>Arrays of numbers\<close>

lemma length_bytes_of_u64 [simp]: "length (bytes_of_u64 x) = 8"
  by (simp add: bytes_of_u64_def)

lemma u64_of_bytes_of_u64 [simp]: "u64_of_bytes (bytes_of_u64 x) = x"
proof -
  have "take 4 (U32T08_LE a @ U32T08_LE b) = U32T08_LE a" "take 4 (drop 4 (U32T08_LE a @ U32T08_LE b)) = U32T08_LE b" for a b
    by simp_all
  then have "u64_of_bytes (bytes_of_u64 x) = ucast (ucast x :: u32) OR push_bit 32 (ucast (ucast (drop_bit 32 x) :: u32))"
    unfolding u64_of_bytes_def bytes_of_u64_def by simp
  also have "\<dots> = x"
    by (rule bit_word_eqI) (auto simp: bit_simps)
  finally show ?thesis .
qed

lemma u64s_of_bytes_append:
  "length a mod 8 = 0 \<Longrightarrow> u64s_of_bytes (a @ b) = u64s_of_bytes a @ u64s_of_bytes b"
proof (induction a rule: u64s_of_bytes.induct)
  case (1 b0 b1 b2 b3 b4 b5 b6 b7 bs)
  then have "length bs mod 8 = 0" by simp
  then show ?case using 1 by simp
qed simp_all

lemma length_u64s_of_bytes: "length (u64s_of_bytes a) = length a div 8"
  by (induction a rule: u64s_of_bytes.induct) simp_all

lemma u64s_of_bytes_of_u64s [simp]: "u64s_of_bytes (bytes_of_u64s xs) = xs"
proof (induction xs)
  case (Cons x xs)
  obtain b0 b1 b2 b3 b4 b5 b6 b7 where b: "bytes_of_u64 x = [b0, b1, b2, b3, b4, b5, b6, b7]"
    using length_bytes_of_u64 [of x] by (auto simp: length_Suc_conv eval_nat_numeral simp del: length_bytes_of_u64)
  then have "u64_of_bytes [b0, b1, b2, b3, b4, b5, b6, b7] = x" by (metis u64_of_bytes_of_u64)
  then show ?case using Cons b by (simp add: bytes_of_u64s_def)
qed (simp add: bytes_of_u64s_def)

lemma length_bytes_of_u64s [simp]: "length (bytes_of_u64s xs) = 8 * length xs"
  by (induction xs) (simp_all add: bytes_of_u64s_def)

section \<open>Memory\<close>

lemma length_mem_write [simp]: "p + length bs \<le> length mem \<Longrightarrow> length (mem_write mem p bs) = length mem"
  by (simp add: mem_write_def)

lemma length_mem_read [simp]: "p + n \<le> length mem \<Longrightarrow> length (mem_read mem p n) = n"
  by (simp add: mem_read_def)

lemma nth_mem_read: "p + n \<le> length mem \<Longrightarrow> i < n \<Longrightarrow> mem_read mem p n ! i = mem ! (p + i)"
  by (simp add: mem_read_def)

lemma nth_mem_write:
  "p + length bs \<le> length mem \<Longrightarrow> i < length mem \<Longrightarrow>
    mem_write mem p bs ! i = (if p \<le> i \<and> i < p + length bs then bs ! (i - p) else mem ! i)"
  by (auto simp: mem_write_def nth_append)

lemma mem_read_write_same: "p + length bs \<le> length mem \<Longrightarrow> mem_read (mem_write mem p bs) p (length bs) = bs"
  by (simp add: mem_read_def mem_write_def)

lemma mem_read_write_other:
  assumes "p + length bs \<le> length mem" "q + n \<le> length mem" "q + n \<le> p \<or> p + length bs \<le> q"
  shows "mem_read (mem_write mem p bs) q n = mem_read mem q n"
  using assms by (intro nth_equalityI) (auto simp: nth_mem_read nth_mem_write)

lemma mem_read_append: "mem_read mem p m @ mem_read mem (p + m) n = mem_read mem p (m + n)"
  by (simp add: mem_read_def take_add add.commute)

lemma mem_read_0 [simp]: "mem_read mem p 0 = []"
  by (simp add: mem_read_def)

lemma mem_read_all: "mem_read mem 0 (length mem) = mem"
  by (simp add: mem_read_def)

end
