(* ===== verification/RobinHood.thy ===== *)
theory RobinHood
  imports Prelude
begin

text \<open>
  Robin Hood tables with linear probing, as the array of jumps \<open>J\<close> (0 for an empty slot) and
  the array of keys \<open>K\<close> of \<open>N\<close> slots: the notions and the two steps, placing a key and
  closing the gap of a removed one, that \<^verbatim>\<open>fixedset/fixedset.c\<close> is built from.
\<close>

section \<open>Definitions\<close>

definition robin :: "nat \<Rightarrow> ('k \<Rightarrow> nat) \<Rightarrow> (nat \<Rightarrow> nat) \<Rightarrow> (nat \<Rightarrow> 'k) \<Rightarrow> bool" where
  "robin N H J K \<longleftrightarrow>
     (\<forall>i<N. J i \<noteq> 0 \<longrightarrow> (H (K i) + J i) mod N = i) \<and>
     (\<forall>i<N. \<forall>i'<N. J i \<noteq> 0 \<and> J i' \<noteq> 0 \<and> K i = K i' \<longrightarrow> i = i') \<and>
     (\<forall>i<N. J (Suc i mod N) \<le> Suc (J i))"

definition table_keys :: "nat \<Rightarrow> (nat \<Rightarrow> nat) \<Rightarrow> (nat \<Rightarrow> 'k) \<Rightarrow> 'k set" where
  "table_keys N J K = K ` {i. i < N \<and> J i \<noteq> 0}"

text \<open>
  A table with a hole at position \<open>P\<close>: the entry behind the hole may be too far from home.
\<close>

definition robin_hole :: "nat \<Rightarrow> ('k \<Rightarrow> nat) \<Rightarrow> (nat \<Rightarrow> nat) \<Rightarrow> (nat \<Rightarrow> 'k) \<Rightarrow> nat \<Rightarrow> bool" where
  "robin_hole N H J K P \<longleftrightarrow>
     (\<forall>i<N. J i \<noteq> 0 \<longrightarrow> (H (K i) + J i) mod N = i) \<and>
     (\<forall>i<N. \<forall>i'<N. J i \<noteq> 0 \<and> J i' \<noteq> 0 \<and> K i = K i' \<longrightarrow> i = i') \<and>
     J (P mod N) = 0 \<and>
     (\<forall>i<N. i \<noteq> P mod N \<longrightarrow> J (Suc i mod N) \<le> Suc (J i)) \<and>
     J (Suc P mod N) \<le> J ((P + N - 1) mod N) + 2"

section \<open>Neighbouring slots\<close>

lemma prev_mod [simp]: "0 < N \<Longrightarrow> (P mod N + N - Suc 0) mod N = (P + N - Suc 0) mod (N::nat)"
proof -
  assume N: "0 < N"
  have "(P mod N + (N - 1)) mod N = (P + (N - 1)) mod N" by (rule mod_add_left_eq)
  then show ?thesis using N by simp
qed

lemma prev_slot:
  assumes "i < (N::nat)" "Suc i mod N = P mod N" shows "i = (P + N - 1) mod N"
proof -
  have "(Suc i + (N - 1)) mod N = (P + (N - 1)) mod N" by (metis assms(2) mod_add_left_eq)
  then show ?thesis using assms(1) by simp
qed

section \<open>Occupied slots\<close>

lemma robinD:
  assumes "robin N H J K"
  shows "i < N \<Longrightarrow> J i \<noteq> 0 \<Longrightarrow> (H (K i) + J i) mod N = i"
    and "i < N \<Longrightarrow> i' < N \<Longrightarrow> J i \<noteq> 0 \<Longrightarrow> J i' \<noteq> 0 \<Longrightarrow> K i = K i' \<Longrightarrow> i = i'"
    and "0 < N \<Longrightarrow> J (Suc P mod N) \<le> Suc (J (P mod N))"
proof -
  show "0 < N \<Longrightarrow> J (Suc P mod N) \<le> Suc (J (P mod N))"
    using assms unfolding robin_def by (metis mod_Suc_eq mod_less_divisor)
qed (use assms in \<open>unfold robin_def, blast+\<close>)

lemma finite_table_keys [simp]: "finite (table_keys N J K)"
  by (simp add: table_keys_def)

lemma card_table_keys:
  assumes "robin N H J K"
  shows "card (table_keys N J K) = card {i. i < N \<and> J i \<noteq> 0}"
  unfolding table_keys_def by (rule card_image) (auto intro!: inj_onI dest: robinD(2) [OF assms])

lemma empty_slot:
  assumes "robin N H J K" "card (table_keys N J K) < N"
  shows "\<exists>q < N. J q = 0"
proof (rule ccontr)
  assume "\<not> ?thesis"
  then have "{i. i < N \<and> J i \<noteq> 0} = {..<N}" by auto
  then show False using assms card_table_keys [OF assms(1)] by simp
qed

lemma jump_chain:
  assumes "robin N H J K" "0 < N"
  shows "J ((P + d) mod N) \<le> J (P mod N) + d"
proof (induction d)
  case (Suc d)
  then show ?case using robinD(3) [OF assms, of "P + d"] by simp
qed simp

text \<open>An entry is at most as far from home as the next empty slot before it.\<close>

lemma reach_slot: "q < N \<Longrightarrow> \<exists>d < N. (q + d) mod N = P mod (N::nat)"
proof -
  assume q: "q < N"
  let ?d = "(P mod N + N - q) mod N"
  have "(q + ?d) mod N = (P mod N + N) mod N" using q by (simp add: mod_simps)
  then show ?thesis using q by (intro exI [of _ ?d]) simp
qed

lemma jump_lt:
  assumes "robin N H J K" "q < N" "J q = 0"
  shows "J (P mod N) < N"
proof -
  obtain d where "d < N" "(q + d) mod N = P mod N" using reach_slot [OF assms(2)] by blast
  then show ?thesis using jump_chain [OF assms(1), of q d] assms by simp
qed

text \<open>The keys outside one slot.\<close>

lemma keys_outside:
  assumes "\<And>i i'. i < N \<Longrightarrow> i' < N \<Longrightarrow> J i \<noteq> 0 \<Longrightarrow> J i' \<noteq> 0 \<Longrightarrow> K i = K i' \<Longrightarrow> i = i'" "p < N"
  shows "K ` {i. i < N \<and> i \<noteq> p \<and> J i \<noteq> 0} = table_keys N J K - (if J p = 0 then {} else {K p})"
proof (cases "J p = 0")
  case True
  then have "{i. i < N \<and> i \<noteq> p \<and> J i \<noteq> 0} = {i. i < N \<and> J i \<noteq> 0}" by auto
  then show ?thesis using True by (simp add: table_keys_def)
next
  case False
  have "K i \<noteq> K p" if "i < N" "i \<noteq> p" "J i \<noteq> 0" for i using assms that False by blast
  then show ?thesis using False by (auto simp: table_keys_def)
qed

lemma table_keys_set:
  assumes "p < N" "j \<noteq> 0"
  shows "table_keys N (J(p := j)) (K(p := c)) = insert c (K ` {i. i < N \<and> i \<noteq> p \<and> J i \<noteq> 0})"
  using assms by (auto simp: table_keys_def image_iff)

lemma table_keys_clear: "table_keys N (J(p := 0)) K = K ` {i. i < N \<and> i \<noteq> p \<and> J i \<noteq> 0}"
  unfolding table_keys_def by (rule arg_cong [where f = "image K"]) auto

section \<open>Placing a key\<close>

lemma robin_place:
  assumes R: "robin N H J K" and N: "2 \<le> N"
    and j: "J (P mod N) < j" "(H c + j) mod N = P mod N" and link: "j \<le> Suc (J ((P + N - 1) mod N))"
    and c: "c \<notin> table_keys N J K"
  defines "p \<equiv> P mod N"
  shows "robin N H (J(p := j)) (K(p := c))"
    and "table_keys N (J(p := j)) (K(p := c)) =
           insert c (table_keys N J K - (if J p = 0 then {} else {K p}))"
proof -
  have p: "p < N" using N by (simp add: p_def)
  have new: "i < N \<Longrightarrow> J i \<noteq> 0 \<Longrightarrow> K i \<noteq> c" for i using c by (auto simp: table_keys_def)
  have 1: "(J(p := j)) (Suc i mod N) \<le> Suc ((J(p := j)) i)" if i: "i < N" for i
  proof -
    have old: "J (Suc i mod N) \<le> Suc (J i)" using robinD(3) [OF R, of i] i by simp
    have "Suc i mod N \<noteq> i" using i N by (cases "Suc i = N") auto
    then show ?thesis using old prev_slot [OF i, of P] link j(1) by (auto simp: p_def)
  qed
  have 2: "(H ((K(p := c)) i) + (J(p := j)) i) mod N = i" if "i < N" "(J(p := j)) i \<noteq> 0" for i
    using that j(2) robinD(1) [OF R, of i] by (cases "i = p") (simp_all add: p_def)
  have 3: "i = i'" if "i < N" "i' < N" "(J(p := j)) i \<noteq> 0" "(J(p := j)) i' \<noteq> 0" "(K(p := c)) i = (K(p := c)) i'" for i i'
    using that robinD(2) [OF R, of i i'] new [of i] new [of i'] by (cases "i = p"; cases "i' = p") simp_all
  show "robin N H (J(p := j)) (K(p := c))"
    unfolding robin_def using 1 2 3 by blast
  show "table_keys N (J(p := j)) (K(p := c)) =
      insert c (table_keys N J K - (if J p = 0 then {} else {K p}))"
    using table_keys_set [OF p, of j J K c] keys_outside [of N J K p] robinD(2) [OF R] p j(1) by auto
qed

section \<open>Closing a gap\<close>

lemma slot_neighbours:
  assumes "3 \<le> (N::nat)"
  shows "Suc P mod N \<noteq> P mod N" "(P + N - 1) mod N \<noteq> P mod N" "Suc ((P + N - 1) mod N) mod N = P mod N"
    "Suc P mod N = Suc (P mod N) mod N" "Suc P mod N \<noteq> (P + N - 1) mod N" "(Suc P + N - 1) mod N = P mod N"
proof -
  have r: "(P + N - 1) mod N = (if P mod N = 0 then N - 1 else P mod N - 1)"
    using assms prev_mod [of N P] mod_less_divisor [of N P] by (cases "P mod N") auto
  have s: "Suc P mod N = (if Suc (P mod N) = N then 0 else Suc (P mod N))" using assms by (simp add: mod_Suc)
  have lt: "P mod N < N" using assms by simp
  show "Suc P mod N = Suc (P mod N) mod N" "(Suc P + N - 1) mod N = P mod N" using assms by (simp_all add: mod_simps)
  show "Suc P mod N \<noteq> P mod N" "(P + N - 1) mod N \<noteq> P mod N" "Suc P mod N \<noteq> (P + N - 1) mod N"
    unfolding r s using lt assms by auto
  show "Suc ((P + N - 1) mod N) mod N = P mod N" unfolding r using lt assms by auto
qed

lemma hole_start:
  assumes R: "robin N H J K" and N: "3 \<le> N"
  shows "robin_hole N H (J(P mod N := 0)) K P"
    and "table_keys N (J(P mod N := 0)) K = table_keys N J K - (if J (P mod N) = 0 then {} else {K (P mod N)})"
proof -
  have p: "P mod N < N" using N by simp
  have 1: "J (Suc P mod N) \<le> Suc (J (P mod N))" using robinD(3) [OF R, of P] N by simp
  have 2: "J (P mod N) \<le> Suc (J ((P + N - 1) mod N))"
    using robinD(3) [OF R, of "(P + N - 1) mod N"] N slot_neighbours(3) [OF N, of P] by simp
  have 3: "\<And>i. i < N \<Longrightarrow> J (Suc i mod N) \<le> Suc (J i)" using R by (simp add: robin_def)
  note nb = slot_neighbours [OF N, of P]
  have "(J(P mod N := 0)) (Suc P mod N) \<le> (J(P mod N := 0)) ((P + N - 1) mod N) + 2" using 1 2 nb by simp
  moreover have "(J(P mod N := 0)) (Suc i mod N) \<le> Suc ((J(P mod N := 0)) i)" if "i < N" "i \<noteq> P mod N" for i
    using 3 [OF that(1)] that(2) by simp
  moreover have "i = i'" if "i < N" "i' < N" "(J(P mod N := 0)) i \<noteq> 0" "(J(P mod N := 0)) i' \<noteq> 0" "K i = K i'" for i i'
    using that robinD(2) [OF R, of i i'] by (auto split: if_splits)
  moreover have "(H (K i) + (J(P mod N := 0)) i) mod N = i" if "i < N" "(J(P mod N := 0)) i \<noteq> 0" for i
    using that robinD(1) [OF R, of i] by (auto split: if_splits)
  ultimately show "robin_hole N H (J(P mod N := 0)) K P"
    unfolding robin_hole_def by (metis fun_upd_same)
  show "table_keys N (J(P mod N := 0)) K = table_keys N J K - (if J (P mod N) = 0 then {} else {K (P mod N)})"
    unfolding table_keys_clear using robinD(2) [OF R] p by (intro keys_outside) auto
qed

lemma hole_close:
  assumes "robin_hole N H J K P" "0 < N" "J (Suc P mod N) < 2"
  shows "robin N H J K"
proof -
  have "J (Suc i mod N) \<le> Suc (J i)" if "i < N" for i
    using that assms by (cases "i = P mod N") (auto simp: robin_hole_def mod_Suc_eq)
  then show ?thesis using assms(1) by (auto simp: robin_def robin_hole_def)
qed

lemma hole_shift:
  assumes R: "robin_hole N H J K P" and N: "3 \<le> N" and J: "2 \<le> J (Suc P mod N)"
  defines "p \<equiv> P mod N" and "p' \<equiv> Suc P mod N"
  defines "J' \<equiv> J(p := J p' - 1, p' := 0)" and "K' \<equiv> K(p := K p')"
  shows "robin_hole N H J' K' (Suc P)" and "table_keys N J' K' = table_keys N J K"
proof -
  note nb = slot_neighbours [OF N, of P, folded p_def p'_def] slot_neighbours [OF N, of "Suc P", folded p'_def]
  have p: "p < N" "p' < N" "p \<noteq> p'" using N nb(1) by (simp_all add: p_def p'_def)
  have home: "\<And>i. i < N \<Longrightarrow> J i \<noteq> 0 \<Longrightarrow> (H (K i) + J i) mod N = i"
    and inj: "\<And>i i'. i < N \<Longrightarrow> i' < N \<Longrightarrow> J i \<noteq> 0 \<Longrightarrow> J i' \<noteq> 0 \<Longrightarrow> K i = K i' \<Longrightarrow> i = i'"
    and hole: "J p = 0" and adj: "\<And>i. i < N \<Longrightarrow> i \<noteq> p \<Longrightarrow> J (Suc i mod N) \<le> Suc (J i)"
    and link: "J p' \<le> J ((P + N - 1) mod N) + 2" and J2: "2 \<le> J p'"
    using R J by (auto simp: robin_hole_def p_def p'_def)
  have shifted: "(H (K p') + (J p' - 1)) mod N = p"
  proof -
    have "Suc (H (K p') + (J p' - 1)) mod N = p'" using home [of p'] p J2 by simp
    then have "(H (K p') + (J p' - 1)) mod N = (P + N) mod N"
      using prev_slot [of "(H (K p') + (J p' - 1)) mod N" N "Suc P"] N by (simp add: p'_def mod_simps)
    then show ?thesis by (simp add: p_def)
  qed
  have 1: "J' (Suc i mod N) \<le> Suc (J' i)" if i: "i < N" "i \<noteq> p'" for i
  proof (cases "i = p")
    case True
    then show ?thesis using nb(4) by (simp add: p'_def J'_def)
  next
    case False
    have "Suc i mod N = p \<Longrightarrow> i = (P + N - 1) mod N" using prev_slot i(1) unfolding p_def by blast
    then show ?thesis using adj [OF i(1) False] link i False p(3) by (cases "Suc i mod N = p") (simp_all add: J'_def)
  qed
  have 2: "(H (K' i) + J' i) mod N = i" if "i < N" "J' i \<noteq> 0" for i
    using that shifted home [of i] by (cases "i = p"; cases "i = p'") (simp_all add: J'_def K'_def)
  have 3: "i = i'" if "i < N" "i' < N" "J' i \<noteq> 0" "J' i' \<noteq> 0" "K' i = K' i'" for i i'
  proof -
    have ne: "i \<noteq> p'" "i' \<noteq> p'" using that(3,4) by (auto simp: J'_def)
    have J0: "J p' \<noteq> 0" using J2 by simp
    consider "i = p" "i' = p" | "i = p" "i' \<noteq> p" | "i \<noteq> p" "i' = p" | "i \<noteq> p" "i' \<noteq> p" by blast
    then show ?thesis
    proof cases
      case 2
      then have "J i' \<noteq> 0" "K p' = K i'" using that ne by (simp_all add: J'_def K'_def)
      then show ?thesis using inj [OF p(2) that(2) J0] ne by blast
    next
      case 3
      then have "J i \<noteq> 0" "K i = K p'" using that ne by (simp_all add: J'_def K'_def)
      then show ?thesis using inj [OF that(1) p(2) _ J0] ne by blast
    next
      case 4
      then have "J i \<noteq> 0" "J i' \<noteq> 0" "K i = K i'" using that ne by (simp_all add: J'_def K'_def)
      then show ?thesis by (rule inj [OF that(1,2)])
    qed simp
  qed
  have 4: "J' (Suc (Suc P) mod N) \<le> J' ((Suc P + N - 1) mod N) + 2"
  proof -
    have "J (Suc p' mod N) \<le> Suc (J p')" using adj [of p'] p by simp
    moreover have "Suc (Suc P) mod N \<noteq> p" using nb(11) nb(6) by simp
    ultimately show ?thesis using nb(6,7,10) J2 p(3) by (simp add: J'_def)
  qed
  show "robin_hole N H J' K' (Suc P)"
    unfolding robin_hole_def p'_def [symmetric] using 1 2 3 4 by (metis J'_def fun_upd_same)
  have "table_keys N J' K' = K' ` {i. i < N \<and> i \<noteq> p' \<and> (J(p := J p' - 1)) i \<noteq> 0}"
    unfolding J'_def by (rule table_keys_clear)
  also have "\<dots> = K ` {i. i < N \<and> J i \<noteq> 0}"
    using p hole J2 by (auto simp: K'_def image_iff)
  finally show "table_keys N J' K' = table_keys N J K" by (simp add: table_keys_def)
qed

end
