(* ===== verification/FixedSet.thy ===== *)
theory FixedSet
  imports HalfSipHash RobinHood "HOL-Library.Monad_Syntax"
begin

text \<open>
  The set of fixed-size keys of \<^verbatim>\<open>fixedset/fixedset.c\<close>: a growing Robin Hood hash table.
  The block of entries is a list of \<open>cap\<close> records at an address; the lookup accumulates the
  index and the address of the matching entry with masks and exclusive-or, as the code does.
  Loops without a bound (\<open>for (jump = 1; ; jump++)\<close>) are \<open>partial_function\<close>s. \<open>fixedset_upsert\<close>
  and \<open>fixedset_resize\<close> call each other; the recursion depth is an argument, and depth 2
  suffices. Parameters: \<open>rnd\<close>, the values of \<open>rand()\<close>, and \<open>alloc\<close>, the address that an
  allocation returns (\<open>None\<close> when it fails), both by depth.

  Proved: the operations are those of a finite set, and all of them return. The hypotheses on
  a key say that its hash is not among the last \<open>2^33\<close> values, where \<open>hash + jump\<close> would wrap.
\<close>

section \<open>Definitions\<close>

record fixedset_entry =
  e_jump :: u32
  e_kv :: "u8 list"

record fixedset =
  fs_addr :: u64
  fs_block :: "fixedset_entry list"
  fs_tmpk :: "u8 list"
  fs_ksize :: size_t
  fs_cap :: size_t
  fs_size :: size_t
  fs_maxjump :: size_t
  fs_key :: "u8 list"

definition zero_entry :: "size_t \<Rightarrow> fixedset_entry" where
  "zero_entry ksize = \<lparr>e_jump = 0, e_kv = replicate (unat ksize) 0\<rparr>"

definition khash :: "fixedset \<Rightarrow> u8 list \<Rightarrow> size_t" where
  "khash h k = u64_of_bytes (halfsiphash (take (unat (fs_ksize h)) k) (fs_key h) 8)"

definition keq :: "fixedset \<Rightarrow> u8 list \<Rightarrow> u8 list \<Rightarrow> bool" where
  "keq h a b = (fold (\<lambda>i out. out OR (a ! i XOR b ! i)) [0..<unat (fs_ksize h)] 0 = 0)"

definition fixedset_entry_size :: "fixedset \<Rightarrow> size_t" where
  "fixedset_entry_size h = fs_ksize h + 4"

text \<open>\<open>fixedset_entry_n\<close>: the slot an index selects, and the address of its entry.\<close>

definition slot :: "fixedset \<Rightarrow> size_t \<Rightarrow> nat" where
  "slot h i = unat (i mod fs_cap h)"

definition fixedset_entry_n :: "fixedset \<Rightarrow> size_t \<Rightarrow> u64" where
  "fixedset_entry_n h i = fs_addr h + (i mod fs_cap h) * fixedset_entry_size h"

text \<open>The slot of the entry at an address.\<close>

definition slot_at :: "fixedset \<Rightarrow> u64 \<Rightarrow> nat" where
  "slot_at h e = unat ((e - fs_addr h) div fixedset_entry_size h)"

text \<open>\<open>a1\<close>, \<open>a2\<close>, \<open>a3\<close> are the addresses that the three allocations return.\<close>

definition fixedset_new :: "u64 option \<Rightarrow> u64 option \<Rightarrow> u64 option \<Rightarrow> size_t \<Rightarrow> u8 list \<Rightarrow> error_t \<times> fixedset option" where
  "fixedset_new a1 a2 a3 ksize sipkey =
     (case (a1, a2, a3) of
        (Some _, Some blk, Some _) \<Rightarrow>
          (err_SUCCESS, Some \<lparr>fs_addr = blk, fs_block = replicate 32 (zero_entry ksize),
             fs_tmpk = replicate (unat ksize) 0, fs_ksize = ksize, fs_cap = 32, fs_size = 0,
             fs_maxjump = 0, fs_key = sipkey\<rparr>)
      | _ \<Rightarrow> (err_OOM, None))"

definition fixedset_maybe_set_max_jump :: "fixedset \<Rightarrow> size_t \<Rightarrow> fixedset" where
  "fixedset_maybe_set_max_jump h jump = (if jump > fs_maxjump h then h\<lparr>fs_maxjump := jump\<rparr> else h)"

definition find_step :: "fixedset \<Rightarrow> u8 list \<Rightarrow> size_t \<Rightarrow> size_t \<Rightarrow> size_t \<times> u64 \<Rightarrow> size_t \<times> u64" where
  "find_step h k hash jump = (\<lambda>(idx, outp).
     let e = fs_block h ! slot h (hash + jump);
         got = keq h k (e_kv e) \<and> ucast (e_jump e) = jump
     in (idx XOR ((hash + jump) AND (if got then 0 - 1 else 0)),
         outp XOR (fixedset_entry_n h (hash + jump) AND (if got then 0 - 1 else 0))))"

text \<open>\<open>fixedset_find\<close> returns whether an entry was found, its index and its address.\<close>

definition fixedset_find :: "fixedset \<Rightarrow> u8 list \<Rightarrow> bool \<times> size_t \<times> u64" where
  "fixedset_find h k = (
     let hash = khash h k;
         (idx, outp) = fold (\<lambda>j. find_step h k hash (of_nat j)) [1..<Suc (unat (fs_maxjump h))] (0, 0)
     in (outp \<noteq> 0, idx, outp))"

text \<open>The insertion loop (lines 212-243). \<open>k\<close> is the key to be placed.\<close>

partial_function (option) upsert_loop :: "fixedset \<Rightarrow> u8 list \<Rightarrow> size_t \<Rightarrow> size_t \<Rightarrow> fixedset option" where
  "upsert_loop h k hash jump = (
     let i = slot h (hash + jump);
         e = fs_block h ! i
     in if e_jump e = 0 then
          Some (fixedset_maybe_set_max_jump
                  (h\<lparr>fs_block := (fs_block h)[i := \<lparr>e_jump = ucast jump, e_kv = k\<rparr>],
                     fs_size := fs_size h + 1\<rparr>) jump)
        else if ucast (e_jump e) < jump then
          let hash = hash + jump - ucast (e_jump e);
              tmpjump = ucast (e_jump e);
              h = h\<lparr>fs_block := (fs_block h)[i := \<lparr>e_jump = ucast jump, e_kv = k\<rparr>]\<rparr>;
              h = fixedset_maybe_set_max_jump h jump;
              h = h\<lparr>fs_tmpk := e_kv e\<rparr>
          in upsert_loop h (e_kv e) hash (tmpjump + 1)
        else upsert_loop h k hash (jump + 1))"

declare upsert_loop.simps [code]

text \<open>The copying loop of \<open>fixedset_resize\<close>, over the old entries, with the upsert it calls.\<close>

fun resize_loop ::
    "(fixedset \<Rightarrow> u8 list \<Rightarrow> (error_t \<times> fixedset \<times> bool option) option) \<Rightarrow> fixedset_entry list \<Rightarrow> fixedset
     \<Rightarrow> (error_t \<times> fixedset) option" where
  "resize_loop up [] h = Some (err_SUCCESS, h)"
| "resize_loop up (e # old) h =
     (if e_jump e \<noteq> 0 then
        do { (err, h, _) \<leftarrow> up h (e_kv e);
             if err \<noteq> err_SUCCESS then Some (err, h) else resize_loop up old h }
      else resize_loop up old h)"

definition fixedset_resize ::
    "(fixedset \<Rightarrow> u8 list \<Rightarrow> (error_t \<times> fixedset \<times> bool option) option) \<Rightarrow> u64 option \<Rightarrow> fixedset \<Rightarrow> size_t
     \<Rightarrow> (error_t \<times> fixedset) option" where
  "fixedset_resize up alloc h newcap =
     (if \<not> newcap > fs_cap h then Some (err_FIXEDSET__RESIZE_INVALID, h)
      else case alloc of
        None \<Rightarrow> Some (err_OOM, h)
      | Some a \<Rightarrow>
          do { (err, h') \<leftarrow> resize_loop up (fs_block h)
                 (h\<lparr>fs_addr := a, fs_block := replicate (unat newcap) (zero_entry (fs_ksize h)),
                    fs_cap := newcap, fs_size := 0, fs_maxjump := 0\<rparr>);
               Some (if err \<noteq> err_SUCCESS then (err, h\<lparr>fs_tmpk := fs_tmpk h'\<rparr>) else (err, h')) })"

text \<open>The third result is what \<open>*replaced\<close> is set to, if anything.\<close>

fun upsert_depth :: "nat \<Rightarrow> (nat \<Rightarrow> u64) \<Rightarrow> (nat \<Rightarrow> u64 option) \<Rightarrow> fixedset \<Rightarrow> u8 list
     \<Rightarrow> (error_t \<times> fixedset \<times> bool option) option" where
  "upsert_depth 0 rnd alloc h k = None"
| "upsert_depth (Suc d) rnd alloc h k = (
     let captest = fs_size h + fs_size h div 8 in
     do { (err, h) \<leftarrow>
            (if captest > fs_cap h then
               let new_cap = fs_cap h + fs_cap h div 4 + rnd d mod (fs_cap h div 2)
               in fixedset_resize (upsert_depth d rnd alloc) (alloc d) h new_cap
             else Some (err_SUCCESS, h));
          if err \<noteq> err_SUCCESS then Some (err, h, None)
          else if fst (fixedset_find h k) then Some (err_SUCCESS, h, Some True)
          else do { h \<leftarrow> upsert_loop h k (khash h k) 1;
                    Some (err_SUCCESS, h, Some False) } })"

abbreviation fixedset_upsert ::
    "(nat \<Rightarrow> u64) \<Rightarrow> (nat \<Rightarrow> u64 option) \<Rightarrow> fixedset \<Rightarrow> u8 list \<Rightarrow> (error_t \<times> fixedset \<times> bool option) option" where
  "fixedset_upsert \<equiv> upsert_depth 2"

definition fixedset_get :: "fixedset \<Rightarrow> u8 list \<Rightarrow> bool" where
  "fixedset_get h k = fst (fixedset_find h k)"

text \<open>The shifting loop of \<open>fixedset_remove\<close> (lines 261-268); \<open>e\<close> is the slot to be filled.\<close>

partial_function (option) remove_loop :: "fixedset \<Rightarrow> size_t \<Rightarrow> size_t \<Rightarrow> nat \<Rightarrow> fixedset option" where
  "remove_loop h idx i e = (
     let n = slot h (idx + i);
         next = fs_block h ! n
     in if e_jump next < 2 then
          Some (h\<lparr>fs_block := (fs_block h)[e := (fs_block h ! e)\<lparr>e_jump := 0\<rparr>]\<rparr>)
        else
          remove_loop (h\<lparr>fs_block := (fs_block h)[e := \<lparr>e_jump = e_jump next - 1, e_kv = e_kv next\<rparr>]\<rparr>)
            idx (i + 1) n)"

declare remove_loop.simps [code]

definition fixedset_remove :: "fixedset \<Rightarrow> u8 list \<Rightarrow> (bool \<times> fixedset) option" where
  "fixedset_remove h k = (
     let (found, idx, e) = fixedset_find h k in
     if \<not> found then Some (False, h)
     else do { h \<leftarrow> remove_loop (h\<lparr>fs_size := fs_size h - 1\<rparr>) idx 1 (slot_at h e);
               Some (True, h) })"

definition fixedset_size :: "fixedset \<Rightarrow> size_t" where
  "fixedset_size h = fs_size h"

definition fixedset_capacity :: "fixedset \<Rightarrow> size_t" where
  "fixedset_capacity h = fs_cap h"

definition fixedset_clear :: "fixedset \<Rightarrow> fixedset" where
  "fixedset_clear h = h\<lparr>fs_block := replicate (unat (fs_cap h)) (zero_entry (fs_ksize h)), fs_size := 0\<rparr>"

subsection \<open>Abstraction and invariant\<close>

abbreviation jump_of :: "fixedset \<Rightarrow> nat \<Rightarrow> nat" where
  "jump_of h i \<equiv> unat (e_jump (fs_block h ! i))"

abbreviation key_of :: "fixedset \<Rightarrow> nat \<Rightarrow> u8 list" where
  "key_of h i \<equiv> e_kv (fs_block h ! i)"

abbreviation hash_of :: "fixedset \<Rightarrow> u8 list \<Rightarrow> nat" where
  "hash_of h k \<equiv> unat (khash h k)"

definition fixedset_keys :: "fixedset \<Rightarrow> u8 list set" where
  "fixedset_keys h = table_keys (unat (fs_cap h)) (jump_of h) (key_of h)"

definition key_fits :: "fixedset \<Rightarrow> u8 list \<Rightarrow> bool" where
  "key_fits h k \<longleftrightarrow> length k = unat (fs_ksize h) \<and> hash_of h k + 2 ^ 33 < 2 ^ 64"

definition addr_fits :: "u64 \<Rightarrow> nat \<Rightarrow> nat \<Rightarrow> bool" where
  "addr_fits a cap ksize \<longleftrightarrow> a \<noteq> 0 \<and> unat a + cap * (ksize + 4) < 2 ^ 64"

definition fixedset_table :: "fixedset \<Rightarrow> bool" where
  "fixedset_table h \<longleftrightarrow> (let N = unat (fs_cap h) in
     length (fs_block h) = N \<and> 32 \<le> N \<and> N < 2 ^ 32 \<and> addr_fits (fs_addr h) N (unat (fs_ksize h)) \<and>
     (\<forall>i<N. length (key_of h i) = unat (fs_ksize h)) \<and>
     robin N (hash_of h) (jump_of h) (key_of h) \<and>
     (\<forall>i<N. jump_of h i \<le> unat (fs_maxjump h)) \<and> unat (fs_maxjump h) \<le> N \<and>
     (\<forall>k \<in> fixedset_keys h. key_fits h k))"

definition fixedset_inv :: "fixedset \<Rightarrow> bool" where
  "fixedset_inv h \<longleftrightarrow> fixedset_table h \<and> unat (fs_size h) = card (fixedset_keys h) \<and>
     unat (fs_size h) < unat (fs_cap h)"

text \<open>What a call may assume of the allocator: a fresh block does not wrap around the address space.\<close>

definition alloc_ok :: "(nat \<Rightarrow> u64 option) \<Rightarrow> fixedset \<Rightarrow> bool" where
  "alloc_ok alloc h \<longleftrightarrow> (\<forall>d a. alloc d = Some a \<longrightarrow> addr_fits a (2 ^ 32) (unat (fs_ksize h)))"

subsection \<open>Notions of the proofs\<close>

definition same_shape :: "fixedset \<Rightarrow> fixedset \<Rightarrow> bool" where
  "same_shape h h' \<longleftrightarrow> fs_addr h' = fs_addr h \<and> fs_cap h' = fs_cap h \<and> fs_ksize h' = fs_ksize h \<and> fs_key h' = fs_key h"

text \<open>Storing a key with its jump in a slot.\<close>

definition put_entry :: "fixedset \<Rightarrow> nat \<Rightarrow> size_t \<Rightarrow> u8 list \<Rightarrow> fixedset" where
  "put_entry h i jump k =
     fixedset_maybe_set_max_jump (h\<lparr>fs_block := (fs_block h)[i := \<lparr>e_jump = ucast jump, e_kv = k\<rparr>]\<rparr>) jump"

definition find_or_insert :: "fixedset \<Rightarrow> u8 list \<Rightarrow> (error_t \<times> fixedset \<times> bool option) option" where
  "find_or_insert h k =
     (if fst (fixedset_find h k) then Some (err_SUCCESS, h, Some True)
      else do { h \<leftarrow> upsert_loop h k (khash h k) 1; Some (err_SUCCESS, h, Some False) })"

definition same_config :: "fixedset \<Rightarrow> fixedset \<Rightarrow> bool" where
  "same_config h h' \<longleftrightarrow> fs_ksize h' = fs_ksize h \<and> fs_key h' = fs_key h"

text \<open>The part of the table invariant that does not concern the probe order.\<close>

definition table_frame :: "fixedset \<Rightarrow> bool" where
  "table_frame h \<longleftrightarrow> (let N = unat (fs_cap h) in
     length (fs_block h) = N \<and> 32 \<le> N \<and> N < 2 ^ 32 \<and> addr_fits (fs_addr h) N (unat (fs_ksize h)) \<and>
     (\<forall>i<N. length (key_of h i) = unat (fs_ksize h)) \<and>
     (\<forall>i<N. jump_of h i \<le> unat (fs_maxjump h)) \<and> unat (fs_maxjump h) \<le> N)"

section \<open>Words and entries\<close>

lemma unat_ucast_32_64 [simp]: "unat (ucast (x :: u32) :: u64) = unat x"
  using less_trans [OF unat_lt_32 [of x], of "2 ^ 64"] by (simp add: unsigned_ucast_eq take_bit_nat_eq_self)

lemma unat_ucast_64_32: "unat (x :: u64) < 4294967296 \<Longrightarrow> unat (ucast x :: u32) = unat x"
  by (simp add: unsigned_ucast_eq take_bit_nat_eq_self)

lemma fold_or_zero: "fold (\<lambda>i out. out OR f i) xs (a :: u8) = 0 \<longleftrightarrow> a = 0 \<and> (\<forall>i \<in> set xs. f i = 0)"
  by (induction xs arbitrary: a) (auto simp: or_eq_0_iff)

lemma xor_zero_iff: "a XOR b = 0 \<longleftrightarrow> a = (b :: u8)"
  by (auto simp: bit_eq_iff bit_simps)

lemma keq_iff:
  "length a = unat (fs_ksize h) \<Longrightarrow> length b = unat (fs_ksize h) \<Longrightarrow> keq h a b \<longleftrightarrow> a = b"
  unfolding keq_def fold_or_zero by (auto simp: list_eq_iff_nth_eq xor_zero_iff)

lemma tableD:
  assumes "fixedset_table h"
  shows "length (fs_block h) = unat (fs_cap h)" "32 \<le> unat (fs_cap h)" "unat (fs_cap h) < 4294967296"
    "addr_fits (fs_addr h) (unat (fs_cap h)) (unat (fs_ksize h))"
    "\<And>i. i < unat (fs_cap h) \<Longrightarrow> length (key_of h i) = unat (fs_ksize h)"
    "robin (unat (fs_cap h)) (hash_of h) (jump_of h) (key_of h)"
    "\<And>i. i < unat (fs_cap h) \<Longrightarrow> jump_of h i \<le> unat (fs_maxjump h)" "unat (fs_maxjump h) \<le> unat (fs_cap h)"
    "\<And>k. k \<in> fixedset_keys h \<Longrightarrow> key_fits h k" "0 < unat (fs_cap h)"
  using assms by (auto simp: fixedset_table_def Let_def)

lemma slot_eq: "slot h i = unat i mod unat (fs_cap h)"
  by (simp add: slot_def unat_mod_distrib)

lemma keys_iff: "k \<in> fixedset_keys h \<longleftrightarrow> (\<exists>i < unat (fs_cap h). jump_of h i \<noteq> 0 \<and> key_of h i = k)"
  by (auto simp: fixedset_keys_def table_keys_def)

section \<open>Lookup\<close>

text \<open>Masking and exclusive-or pick the value at the only index that matches.\<close>

lemma fold_xor_select:
  fixes f g :: "nat \<Rightarrow> u64"
  assumes "distinct js" "\<And>j. j \<in> set js \<Longrightarrow> P j \<longleftrightarrow> j = j0"
  shows "fold (\<lambda>j (a, b). (a XOR (f j AND (if P j then 0 - 1 else 0)), b XOR (g j AND (if P j then 0 - 1 else 0)))) js (a, b)
    = (if j0 \<in> set js then (a XOR f j0, b XOR g j0) else (a, b))"
  using assms by (induction js arbitrary: a b) auto

text \<open>The address of an entry determines its slot and is not null.\<close>

lemma entry_addr:
  assumes "fixedset_table h"
  shows "fixedset_entry_n h i \<noteq> 0" "slot_at h (fixedset_entry_n h i) = slot h i"
proof -
  let ?s = "i mod fs_cap h" and ?N = "unat (fs_cap h)" and ?K = "unat (fs_ksize h) + 4"
  note T = tableD [OF assms]
  define M where "M = ?N * ?K"
  have a: "fs_addr h \<noteq> 0" "unat (fs_addr h) + M < 2 ^ 64" using T(4) by (auto simp: addr_fits_def M_def)
  have "1 * ?K \<le> M" unfolding M_def using T(10) by (intro mult_le_mono1) simp
  then have "?K < 2 ^ 64" using a(2) add_lessD2 le_less_trans by (metis mult_1)
  then have e: "unat (fixedset_entry_size h) = ?K"
    unfolding fixedset_entry_size_def by (subst unat_add_64) simp_all
  have s: "unat ?s < ?N" using T(10) by (simp add: unat_mod_distrib)
  then have "unat ?s * ?K \<le> M" unfolding M_def by (intro mult_le_mono1) simp
  then have le: "unat (fs_addr h) + unat ?s * ?K < 2 ^ 64" using a(2) by (rule add_lt_mono_right)
  then have m: "unat (?s * fixedset_entry_size h) = unat ?s * ?K" by (simp add: unat_mult_64 e)
  have "unat (fixedset_entry_n h i) = unat (fs_addr h) + unat ?s * ?K"
    using le unfolding fixedset_entry_n_def by (simp add: unat_add_64 m)
  moreover have "0 < unat (fs_addr h)" using a(1) by (simp add: unat_gt_0)
  ultimately show "fixedset_entry_n h i \<noteq> 0" by auto
  show "slot_at h (fixedset_entry_n h i) = slot h i"
    by (simp add: slot_at_def fixedset_entry_n_def unat_div_distrib m e slot_def)
qed

lemma find_got:
  assumes T: "fixedset_table h" and k: "length k = unat (fs_ksize h)" and j: "0 < j" "j < 4294967296"
  shows "keq h k (key_of h (slot h i)) \<and> ucast (e_jump (fs_block h ! slot h i)) = (of_nat j :: u64) \<longleftrightarrow>
    key_of h (slot h i) = k \<and> jump_of h (slot h i) = j"
proof -
  have "slot h i < unat (fs_cap h)" using tableD(10) [OF T] by (simp add: slot_eq)
  then have "keq h k (key_of h (slot h i)) \<longleftrightarrow> k = key_of h (slot h i)"
    using k tableD(5) [OF T] by (intro keq_iff) auto
  moreover have "ucast (e_jump (fs_block h ! slot h i)) = (of_nat j :: u64) \<longleftrightarrow> jump_of h (slot h i) = j"
    using j by (simp add: word_unat_eq_iff unat_of_nat_64)
  ultimately show ?thesis by auto
qed

lemma find_fold:
  assumes T: "fixedset_table h" and k: "length k = unat (fs_ksize h)"
    and j0: "\<And>j. 0 < j \<Longrightarrow> j \<le> unat (fs_maxjump h) \<Longrightarrow>
      key_of h (slot h (hash + of_nat j)) = k \<and> jump_of h (slot h (hash + of_nat j)) = j \<longleftrightarrow> j = j0"
  shows "fold (\<lambda>j. find_step h k hash (of_nat j)) [1..<Suc (unat (fs_maxjump h))] (0, 0) =
    (if j0 \<in> set [1..<Suc (unat (fs_maxjump h))] then (hash + of_nat j0, fixedset_entry_n h (hash + of_nat j0)) else (0, 0))"
proof -
  let ?js = "[1..<Suc (unat (fs_maxjump h))]"
  let ?P = "\<lambda>j. keq h k (key_of h (slot h (hash + of_nat j))) \<and>
      ucast (e_jump (fs_block h ! slot h (hash + of_nat j))) = (of_nat j :: u64)"
  have P: "?P j \<longleftrightarrow> j = j0" if "j \<in> set ?js" for j
  proof -
    have j: "0 < j" "j \<le> unat (fs_maxjump h)" "j < 4294967296" using that tableD(3,8) [OF T] by auto
    show ?thesis unfolding find_got [OF T k j(1,3)] using j0 [OF j(1,2)] .
  qed
  have step: "find_step h k hash (of_nat j) = (\<lambda>(a, b).
      (a XOR ((hash + of_nat j) AND (if ?P j then 0 - 1 else 0)),
       b XOR (fixedset_entry_n h (hash + of_nat j) AND (if ?P j then 0 - 1 else 0))))" for j
    by (simp add: find_step_def Let_def)
  show ?thesis
    unfolding step by (subst fold_xor_select [OF distinct_upt P]) (simp_all only: xor.left_neutral)
qed

lemma slot_lt: "fixedset_table h \<Longrightarrow> slot h i < unat (fs_cap h)"
  using tableD(10) by (simp add: slot_eq)

lemma fixedset_find_absent:
  assumes T: "fixedset_table h" and k: "length k = unat (fs_ksize h)" "k \<notin> fixedset_keys h"
  shows "fixedset_find h k = (False, 0, 0)"
proof -
  have "fold (\<lambda>j. find_step h k (khash h k) (of_nat j)) [1..<Suc (unat (fs_maxjump h))] (0, 0) = (0, 0)"
  proof (subst find_fold [OF T k(1), of _ 0])
    fix j :: nat assume "0 < j"
    let ?s = "slot h (khash h k + of_nat j)"
    have "jump_of h ?s = 0 \<or> key_of h ?s \<noteq> k"
      using k(2) slot_lt [OF T, of "khash h k + of_nat j"] by (auto simp: keys_iff)
    then show "key_of h ?s = k \<and> jump_of h ?s = j \<longleftrightarrow> j = 0" using \<open>0 < j\<close> by auto
  qed auto
  then show ?thesis by (simp add: fixedset_find_def)
qed

lemma hash_room: "a + 2 ^ 33 < 2 ^ 64 \<Longrightarrow> b < 8589934592 \<Longrightarrow> a + b < (18446744073709551616 :: nat)"
  by simp

lemma fixedset_find_present:
  assumes T: "fixedset_table h" and k: "length k = unat (fs_ksize h)" "k \<in> fixedset_keys h"
  obtains idx where "fixedset_find h k = (True, idx, fixedset_entry_n h idx)"
    "unat idx = hash_of h k + jump_of h (slot h idx)" "jump_of h (slot h idx) \<noteq> 0" "key_of h (slot h idx) = k"
proof -
  obtain i where i: "i < unat (fs_cap h)" "jump_of h i \<noteq> 0" "key_of h i = k" using k(2) by (auto simp: keys_iff)
  let ?j = "jump_of h i"
  let ?idx = "khash h k + of_nat ?j"
  have "hash_of h k + 2 ^ 33 < 2 ^ 64" using tableD(9) [OF T k(2)] by (simp add: key_fits_def)
  then have "hash_of h k + ?j < 18446744073709551616"
    by (rule hash_room) (rule less_trans [OF unat_lt_32], simp)
  then have u: "unat ?idx = hash_of h k + ?j" by (simp add: unat_add_64)
  then have s: "slot h ?idx = i" using robinD(1) [OF tableD(6) [OF T] i(1,2)] i(3) by (simp add: slot_eq)
  have "fold (\<lambda>j. find_step h k (khash h k) (of_nat j)) [1..<Suc (unat (fs_maxjump h))] (0, 0) = (?idx, fixedset_entry_n h ?idx)"
  proof (subst find_fold [OF T k(1), of _ ?j])
    fix j :: nat assume "0 < j"
    let ?s = "slot h (khash h k + of_nat j)"
    show "key_of h ?s = k \<and> jump_of h ?s = j \<longleftrightarrow> j = ?j"
    proof
      assume "key_of h ?s = k \<and> jump_of h ?s = j"
      then show "j = ?j"
        using robinD(2) [OF tableD(6) [OF T] slot_lt [OF T, of "khash h k + of_nat j"] i(1)] i \<open>0 < j\<close> by auto
    qed (use s i in auto)
  qed (use tableD(7) [OF T i(1)] i(2) in auto)
  then have "fixedset_find h k = (True, ?idx, fixedset_entry_n h ?idx)"
    using entry_addr(1) [OF T] by (simp add: fixedset_find_def)
  then show ?thesis by (rule that) (use u s i in simp_all)
qed

section \<open>Insertion\<close>

lemma same_shapeD:
  assumes "same_shape h h'"
  shows "fs_addr h' = fs_addr h" "fs_cap h' = fs_cap h" "fs_ksize h' = fs_ksize h" "khash h' = khash h"
    "slot h' = slot h" "key_fits h' = key_fits h"
  using assms by (auto simp: same_shape_def khash_def slot_def key_fits_def fun_eq_iff)

lemma same_shape_trans: "same_shape h h' \<Longrightarrow> same_shape h' h'' \<Longrightarrow> same_shape h h''"
  by (simp add: same_shape_def)

lemma put_entry_simps [simp]:
  "fs_block (put_entry h i jump k) = (fs_block h)[i := \<lparr>e_jump = ucast jump, e_kv = k\<rparr>]"
  "fs_maxjump (put_entry h i jump k) = max (fs_maxjump h) jump"
  "fs_addr (put_entry h i jump k) = fs_addr h" "fs_cap (put_entry h i jump k) = fs_cap h"
  "fs_ksize (put_entry h i jump k) = fs_ksize h" "fs_size (put_entry h i jump k) = fs_size h"
  "fs_key (put_entry h i jump k) = fs_key h" "fs_tmpk (put_entry h i jump k) = fs_tmpk h"
  by (auto simp: put_entry_def fixedset_maybe_set_max_jump_def max_def)

lemma put_entry_table:
  assumes T: "fixedset_table h" and k: "k \<notin> fixedset_keys h" "key_fits h k"
    and j: "jump_of h (P mod unat (fs_cap h)) < unat jump" "unat jump \<le> unat (fs_cap h)"
      "(hash_of h k + unat jump) mod unat (fs_cap h) = P mod unat (fs_cap h)"
      "unat jump \<le> Suc (jump_of h ((P + unat (fs_cap h) - 1) mod unat (fs_cap h)))"
  defines "p \<equiv> P mod unat (fs_cap h)" and "h' \<equiv> put_entry h (P mod unat (fs_cap h)) jump k"
  shows "fixedset_table h'" "same_shape h h'"
    "fixedset_keys h' = insert k (fixedset_keys h - (if jump_of h p = 0 then {} else {key_of h p}))"
    "jump_of h' = (jump_of h)(p := unat jump)" "key_of h' = (key_of h)(p := k)"
proof -
  let ?N = "unat (fs_cap h)"
  note D = tableD [OF T]
  have p: "p < ?N" using D(10) by (simp add: p_def)
  have u: "unat (ucast jump :: u32) = unat jump"
    using j(2) D(3) by (intro unat_ucast_64_32) (rule le_less_trans)
  show J: "jump_of h' = (jump_of h)(p := unat jump)" and K: "key_of h' = (key_of h)(p := k)"
    using p u D(1) by (auto simp: fun_eq_iff h'_def p_def nth_list_update)
  show sh: "same_shape h h'" by (simp add: same_shape_def h'_def)
  note R = robin_place [OF D(6) _ j(1) j(3) j(4), folded p_def]
  have k': "k \<notin> table_keys ?N (jump_of h) (key_of h)" using k(1) by (simp add: fixedset_keys_def)
  have cap: "fs_cap h' = fs_cap h" by (simp add: h'_def)
  show keys: "fixedset_keys h' = insert k (fixedset_keys h - (if jump_of h p = 0 then {} else {key_of h p}))"
    unfolding fixedset_keys_def J K cap using R(2) D(2) k' by simp
  have mx: "unat (fs_maxjump h') = max (unat (fs_maxjump h)) (unat jump)"
    by (simp add: h'_def max_def word_le_nat_alt)
  have "robin ?N (hash_of h') (jump_of h') (key_of h')"
    unfolding J K same_shapeD(4) [OF sh] using R(1) D(2) k' by simp
  moreover have "\<forall>i<?N. jump_of h' i \<le> unat (fs_maxjump h')"
    using D(7) fun_cong [OF J] unfolding mx by (auto simp: le_max_iff_disj)
  moreover have "unat (fs_maxjump h') \<le> ?N" using D(8) j(2) unfolding mx by simp
  moreover have "\<forall>i<?N. length (key_of h' i) = unat (fs_ksize h)" using D(5) k(2) fun_cong [OF K] by (simp add: key_fits_def)
  moreover have "\<forall>k\<in>fixedset_keys h'. key_fits h' k"
    using D(9) k(2) unfolding keys same_shapeD(6) [OF sh] by auto
  ultimately show "fixedset_table h'"
    unfolding fixedset_table_def Let_def same_shapeD [OF sh] using D(1-4) by (simp add: h'_def)
qed
text \<open>Fields that the table does not depend on.\<close>

lemma table_other_fields [simp]:
  "fixedset_table (h\<lparr>fs_size := n\<rparr>) = fixedset_table h" "fixedset_table (h\<lparr>fs_tmpk := t\<rparr>) = fixedset_table h"
  "fixedset_keys (h\<lparr>fs_size := n\<rparr>) = fixedset_keys h" "fixedset_keys (h\<lparr>fs_tmpk := t\<rparr>) = fixedset_keys h"
  "same_shape h' (h\<lparr>fs_size := n\<rparr>) = same_shape h' h" "same_shape h' (h\<lparr>fs_tmpk := t\<rparr>) = same_shape h' h"
  "khash (h\<lparr>fs_size := n\<rparr>) = khash h" "khash (h\<lparr>fs_tmpk := t\<rparr>) = khash h"
  "key_fits (h\<lparr>fs_size := n\<rparr>) = key_fits h" "key_fits (h\<lparr>fs_tmpk := t\<rparr>) = key_fits h"
  by (simp_all add: fixedset_table_def fixedset_keys_def same_shape_def khash_def key_fits_def fun_eq_iff)

lemma mod_step: "(a + b) mod N = P mod N \<Longrightarrow> (a + (b + 1)) mod N = (P + 1) mod (N::nat)"
proof -
  assume "(a + b) mod N = P mod N"
  then have "((a + b) mod N + 1) mod N = (P mod N + 1) mod N" by simp
  then show ?thesis by (simp add: mod_simps add.assoc)
qed

lemma upsert_loop_unfold:
  fixes h :: fixedset
  assumes "unat hash + unat jump < 18446744073709551616"
  defines "p \<equiv> (unat hash + unat jump) mod unat (fs_cap h)"
  shows "upsert_loop h k hash jump =
    (if jump_of h p = 0 then Some ((put_entry h p jump k)\<lparr>fs_size := fs_size h + 1\<rparr>)
     else if jump_of h p < unat jump then
       upsert_loop ((put_entry h p jump k)\<lparr>fs_tmpk := key_of h p\<rparr>) (key_of h p)
         (hash + jump - ucast (e_jump (fs_block h ! p))) (ucast (e_jump (fs_block h ! p)) + 1)
     else upsert_loop h k hash (jump + 1))"
proof -
  have s: "slot h (hash + jump) = p" using assms(1) by (simp add: slot_eq unat_add_64 p_def)
  have m: "fixedset_maybe_set_max_jump (h\<lparr>fs_block := b, fs_size := n\<rparr>) j =
      (fixedset_maybe_set_max_jump (h\<lparr>fs_block := b\<rparr>) j)\<lparr>fs_size := n\<rparr>" for b n j
    by (simp add: fixedset_maybe_set_max_jump_def)
  have "(ucast (e_jump (fs_block h ! p)) < jump) = (jump_of h p < unat jump)"
    by (simp add: word_less_nat_alt)
  then show ?thesis
    by (subst upsert_loop.simps) (simp add: Let_def s m put_entry_def unat_eq_0)
qed

text \<open>
  The loop with a key in hand at position \<open>P = hash + jump\<close>, with an empty slot at most \<open>n\<close>
  positions ahead.
\<close>

lemma upsert_loop_correct:
  assumes "fixedset_table h" "k \<notin> fixedset_keys h" "key_fits h k" "0 < unat jump"
    "unat hash + unat jump = P" "P + n < 18446744073709551616"
    "(hash_of h k + unat jump) mod unat (fs_cap h) = P mod unat (fs_cap h)"
    "unat jump \<le> Suc (jump_of h ((P + unat (fs_cap h) - 1) mod unat (fs_cap h)))"
    "jump_of h ((P + n) mod unat (fs_cap h)) = 0"
  shows "\<exists>h'. upsert_loop h k hash jump = Some h' \<and> fixedset_table h' \<and> same_shape h h' \<and>
    fixedset_keys h' = insert k (fixedset_keys h) \<and> fs_size h' = fs_size h + 1"
  using assms
proof (induction n arbitrary: h k hash jump P)
  case 0
  note D = tableD [OF 0(1)]
  have "unat jump \<le> unat (fs_cap h)"
    using 0(8) jump_lt [OF D(6), of "P mod unat (fs_cap h)" "P + unat (fs_cap h) - 1"] 0(9) D(10) by simp
  then show ?case
    using put_entry_table [OF 0(1-3), of P jump] 0(4-) upsert_loop_unfold [of hash jump h k] by simp
next
  case (Suc n)
  let ?N = "unat (fs_cap h)"
  let ?p = "P mod ?N"
  note D = tableD [OF Suc.prems(1)]
  have jN: "unat jump \<le> ?N"
    using Suc.prems(8) jump_lt [OF D(6), of "(P + Suc n) mod ?N" "P + ?N - 1"] Suc.prems(9) D(10) by simp
  have P: "unat hash + unat jump < 18446744073709551616" using Suc.prems(5,6) by simp
  note unf = upsert_loop_unfold [OF P, of h k, unfolded Suc.prems(5)]
  consider "jump_of h ?p = 0" | "jump_of h ?p \<noteq> 0" "jump_of h ?p < unat jump" | "unat jump \<le> jump_of h ?p" "jump_of h ?p \<noteq> 0"
    using Suc.prems(4) by linarith
  then show ?case
  proof cases
    case 1
    then show ?thesis using put_entry_table [OF Suc.prems(1-3), of P jump] Suc.prems(4,7,8) jN unf by simp
  next
    case 2
    let ?kp = "key_of h ?p" and ?jp = "jump_of h ?p" and ?e = "e_jump (fs_block h ! ?p)"
    let ?h = "(put_entry h ?p jump k)\<lparr>fs_tmpk := ?kp\<rparr>"
    note E = put_entry_table [OF Suc.prems(1-3) 2(2) jN Suc.prems(7,8)]
    have pN: "?p < ?N" using D(10) by simp
    have kp: "?kp \<in> fixedset_keys h" unfolding keys_iff using pN 2(1) by blast
    have jp: "?jp \<le> P" "unat (ucast ?e + 1 :: u64) = ?jp + 1"
      using 2(2) Suc.prems(5) less_trans [OF unat_lt_32 [of ?e]] by (simp_all add: unat_add_64)
    have hash': "unat (hash + jump - ucast ?e) = P - ?jp"
      using jp(1) P Suc.prems(5) by (subst unat_sub) (simp_all add: word_le_nat_alt unat_add_64)
    have home: "(hash_of h ?kp + (?jp + 1)) mod ?N = (P + 1) mod ?N"
      using robinD(1) [OF D(6) pN 2(1)] by (rule mod_step)
    obtain h' where h': "upsert_loop ?h ?kp (hash + jump - ucast ?e) (ucast ?e + 1) = Some h'"
        "fixedset_table h'" "same_shape ?h h'" "fixedset_keys h' = insert ?kp (fixedset_keys ?h)" "fs_size h' = fs_size ?h + 1"
    proof -
      have "\<exists>h'. upsert_loop ?h ?kp (hash + jump - ucast ?e) (ucast ?e + 1) = Some h' \<and> fixedset_table h' \<and>
        same_shape ?h h' \<and> fixedset_keys h' = insert ?kp (fixedset_keys ?h) \<and> fs_size h' = fs_size ?h + 1"
    proof (rule Suc.IH [where P = "P + 1"])
      show "fixedset_table ?h" using E(1) by simp
      show "?kp \<notin> fixedset_keys ?h" using E(3) 2(1) kp Suc.prems(2) by auto
      show "key_fits ?h ?kp" using D(9) [OF kp] same_shapeD(6) [OF E(2)] by simp
      show "unat (hash + jump - ucast ?e) + unat (ucast ?e + 1 :: u64) = P + 1" using hash' jp by simp
      show "(hash_of ?h ?kp + unat (ucast ?e + 1 :: u64)) mod unat (fs_cap ?h) = (P + 1) mod unat (fs_cap ?h)"
        using home jp(2) same_shapeD(4) [OF E(2)] by simp
      have "(P + 1 + ?N - 1) mod ?N = ?p" by simp
      then show "unat (ucast ?e + 1 :: u64) \<le> Suc (jump_of ?h ((P + 1 + unat (fs_cap ?h) - 1) mod unat (fs_cap ?h)))"
        using fun_cong [OF E(4), of ?p] jp(2) 2(2) by simp
      have "(P + Suc n) mod ?N \<noteq> ?p" using Suc.prems(9) 2(1) by metis
      then show "jump_of ?h ((P + 1 + n) mod unat (fs_cap ?h)) = 0"
        using fun_cong [OF E(4), of "(P + Suc n) mod ?N"] Suc.prems(9) by simp
    qed (use Suc.prems(6) jp in simp_all)
    then show ?thesis using that by blast
    qed
    have "insert ?kp (fixedset_keys ?h) = insert k (fixedset_keys h)" using E(3) kp 2(1) by auto
    moreover have "upsert_loop h k hash jump = upsert_loop ?h ?kp (hash + jump - ucast ?e) (ucast ?e + 1)"
      using 2 unf by simp
    moreover have "same_shape h h'" using E(2) h'(3) by (simp add: same_shape_def)
    ultimately show ?thesis using h' by simp
  next
    case 3
    have j1: "unat (jump + 1) = unat jump + 1"
      using le_less_trans [OF jN D(3)] by (simp add: unat_add_64)
    have "\<exists>h'. upsert_loop h k hash (jump + 1) = Some h' \<and> fixedset_table h' \<and> same_shape h h' \<and>
        fixedset_keys h' = insert k (fixedset_keys h) \<and> fs_size h' = fs_size h + 1"
    proof (rule Suc.IH [where P = "P + 1"])
      show "(hash_of h k + unat (jump + 1)) mod ?N = (P + 1) mod ?N"
        unfolding j1 using Suc.prems(7) by (rule mod_step)
      have "(P + 1 + ?N - 1) mod ?N = ?p" by simp
      then show "unat (jump + 1) \<le> Suc (jump_of h ((P + 1 + ?N - 1) mod ?N))" using j1 3(1) by simp
    qed (use Suc.prems j1 in simp_all)
    then show ?thesis using 3 unf by simp
  qed
qed

lemma invD:
  assumes "fixedset_inv h"
  shows "fixedset_table h" "unat (fs_size h) = card (fixedset_keys h)" "unat (fs_size h) < unat (fs_cap h)"
  using assms by (simp_all add: fixedset_inv_def)

lemma has_empty_slot:
  assumes "fixedset_inv h" shows "\<exists>q < unat (fs_cap h). jump_of h q = 0"
  using empty_slot [OF tableD(6) [OF invD(1) [OF assms]]] invD(2,3) [OF assms] by (simp add: fixedset_keys_def)

lemma empty_slot_ahead:
  assumes "fixedset_inv h"
  shows "\<exists>n < unat (fs_cap h). jump_of h ((P + n) mod unat (fs_cap h)) = 0"
proof -
  let ?N = "unat (fs_cap h)"
  obtain q where q: "q < ?N" "jump_of h q = 0" using has_empty_slot [OF assms] by blast
  have "P mod ?N < ?N" using q(1) by simp
  then obtain n where "n < ?N" "(P mod ?N + n) mod ?N = q mod ?N" using reach_slot by blast
  then show ?thesis using q by (auto simp: mod_simps)
qed

lemma fixedset_find_iff:
  assumes T: "fixedset_table h" and k: "length k = unat (fs_ksize h)"
  shows "fst (fixedset_find h k) \<longleftrightarrow> k \<in> fixedset_keys h"
proof (cases "k \<in> fixedset_keys h")
  case True
  show ?thesis by (rule fixedset_find_present [OF T k True]) (simp add: True)
next
  case False
  then show ?thesis using fixedset_find_absent [OF T k] by simp
qed

lemma insert_new:
  assumes inv: "fixedset_inv h" and k: "k \<notin> fixedset_keys h" "key_fits h k" and room: "unat (fs_size h) + 1 < unat (fs_cap h)"
  shows "\<exists>h'. upsert_loop h k (khash h k) 1 = Some h' \<and> fixedset_inv h' \<and> same_shape h h' \<and>
    fixedset_keys h' = insert k (fixedset_keys h)"
proof -
  let ?N = "unat (fs_cap h)" and ?P = "hash_of h k + 1"
  note T = invD(1) [OF inv]
  obtain n where n: "n < ?N" "jump_of h ((?P + n) mod ?N) = 0" using empty_slot_ahead [OF inv] by blast
  have "1 + n < 8589934592" using n(1) tableD(3) [OF T] by linarith
  then have "hash_of h k + (1 + n) < 18446744073709551616"
    using k(2) by (intro hash_room) (simp_all add: key_fits_def)
  then obtain h' where h': "upsert_loop h k (khash h k) 1 = Some h'" "fixedset_table h'" "same_shape h h'"
      "fixedset_keys h' = insert k (fixedset_keys h)" "fs_size h' = fs_size h + 1"
    using upsert_loop_correct [OF T k, of 1 "khash h k" ?P n] n(2) by (auto simp: add.assoc)
  have "unat (fs_size h') = unat (fs_size h) + 1"
    using room tableD(3) [OF T] unfolding h'(5) by (simp add: unat_add_64)
  then have "fixedset_inv h'"
    using h' room invD(2) [OF inv] k(1) same_shapeD(2) [OF h'(3)]
    by (simp add: fixedset_inv_def fixedset_keys_def)
  then show ?thesis using h' by blast
qed

lemma finite_fixedset_keys [simp]: "finite (fixedset_keys h)"
  by (simp add: fixedset_keys_def)

lemma same_shape_refl [simp]: "same_shape h h"
  by (simp add: same_shape_def)

lemma find_or_insert_correct:
  assumes inv: "fixedset_inv h" and k: "key_fits h k" and room: "unat (fs_size h) + 1 < unat (fs_cap h)"
  shows "\<exists>h'. find_or_insert h k = Some (err_SUCCESS, h', Some (k \<in> fixedset_keys h)) \<and> fixedset_inv h' \<and>
    same_shape h h' \<and> fixedset_keys h' = insert k (fixedset_keys h)"
proof (cases "k \<in> fixedset_keys h")
  case True
  then show ?thesis using inv fixedset_find_iff [OF invD(1) [OF inv], of k] k
    by (simp add: find_or_insert_def key_fits_def insert_absorb)
next
  case False
  then show ?thesis using insert_new [OF inv False k room] fixedset_find_iff [OF invD(1) [OF inv], of k] k
    by (auto simp: find_or_insert_def key_fits_def)
qed

lemma captest_iff:
  assumes "fixedset_inv h"
  shows "fs_size h + fs_size h div 8 > fs_cap h \<longleftrightarrow> unat (fs_size h) + unat (fs_size h) div 8 > unat (fs_cap h)"
proof -
  have s: "unat (fs_size h) < 4294967296" using less_trans [OF invD(3) tableD(3)] invD(1) assms by blast
  then have "unat (fs_size h) + unat (fs_size h) div 8 < 18446744073709551616" by simp
  then show ?thesis by (simp add: word_less_nat_alt unat_add_64 unat_div_distrib)
qed

lemma upsert_depth_alt:
  "upsert_depth (Suc d) rnd alloc h k =
     (if fs_size h + fs_size h div 8 > fs_cap h then
        do { (err, h) \<leftarrow> fixedset_resize (upsert_depth d rnd alloc) (alloc d) h
               (fs_cap h + fs_cap h div 4 + rnd d mod (fs_cap h div 2));
             if err \<noteq> err_SUCCESS then Some (err, h, None) else find_or_insert h k }
      else find_or_insert h k)"
  by (simp add: Let_def find_or_insert_def cong: if_cong)

declare upsert_depth.simps(2) [simp del]

section \<open>Growing\<close>

lemma resize_loop_correct:
  assumes "fixedset_inv h" "\<And>e. e \<in> set es \<Longrightarrow> e_jump e \<noteq> 0 \<Longrightarrow> key_fits h (e_kv e)"
    "fixedset_keys h \<union> e_kv ` {e \<in> set es. e_jump e \<noteq> 0} \<subseteq> A" "finite A"
    "card A + card A div 8 \<le> unat (fs_cap h)" "card A + 1 < unat (fs_cap h)"
  shows "\<exists>h'. resize_loop (upsert_depth (Suc d) rnd alloc) es h = Some (err_SUCCESS, h') \<and> fixedset_inv h' \<and>
    same_shape h h' \<and> fixedset_keys h' = fixedset_keys h \<union> e_kv ` {e \<in> set es. e_jump e \<noteq> 0}"
  using assms(1-3,5,6)
proof (induction es arbitrary: h)
  case (Cons e es)
  show ?case
  proof (cases "e_jump e = 0")
    case True
    have "e_kv ` {x \<in> set (e # es). e_jump x \<noteq> 0} = e_kv ` {x \<in> set es. e_jump x \<noteq> 0}" using True by auto
    then show ?thesis using Cons.IH [OF Cons.prems(1)] Cons.prems True by simp
  next
    case False
    have "unat (fs_size h) \<le> card A"
      using invD(2) [OF Cons.prems(1)] Cons.prems(3) assms(4) by (simp add: card_mono)
    then have room: "unat (fs_size h) + 1 < unat (fs_cap h)"
        "unat (fs_size h) + unat (fs_size h) div 8 \<le> unat (fs_cap h)"
      using Cons.prems(4,5) div_le_mono [of "unat (fs_size h)" "card A" 8] by linarith+
    obtain h1 where h1: "find_or_insert h (e_kv e) = Some (err_SUCCESS, h1, Some (e_kv e \<in> fixedset_keys h))"
        "fixedset_inv h1" "same_shape h h1" "fixedset_keys h1 = insert (e_kv e) (fixedset_keys h)"
      using find_or_insert_correct [OF Cons.prems(1) Cons.prems(2) room(1), of e] False by auto
    have up: "upsert_depth (Suc d) rnd alloc h (e_kv e) = Some (err_SUCCESS, h1, Some (e_kv e \<in> fixedset_keys h))"
      unfolding upsert_depth_alt using captest_iff [OF Cons.prems(1)] room(2) h1(1) by simp
    have eq: "e_kv ` {x \<in> set (e # es). e_jump x \<noteq> 0} = insert (e_kv e) (e_kv ` {x \<in> set es. e_jump x \<noteq> 0})"
      using False by auto
    have "\<exists>h'. resize_loop (upsert_depth (Suc d) rnd alloc) es h1 = Some (err_SUCCESS, h') \<and> fixedset_inv h' \<and>
        same_shape h1 h' \<and> fixedset_keys h' = fixedset_keys h1 \<union> e_kv ` {e \<in> set es. e_jump e \<noteq> 0}"
      using h1(2-4) Cons.prems same_shapeD [OF h1(3)] unfolding eq by (intro Cons.IH) auto
    then show ?thesis using up False h1(3,4) same_shape_trans [OF h1(3)] unfolding eq by auto
  qed
qed (simp add: same_shape_def)

lemma empty_block_inv:
  assumes "length (fs_block h) = unat (fs_cap h)" "fs_block h = replicate (unat (fs_cap h)) (zero_entry (fs_ksize h))"
    "32 \<le> unat (fs_cap h)" "unat (fs_cap h) < 4294967296" "addr_fits (fs_addr h) (unat (fs_cap h)) (unat (fs_ksize h))"
    "unat (fs_maxjump h) \<le> unat (fs_cap h)" "fs_size h = 0"
  shows "fixedset_inv h" "fixedset_keys h = {}"
proof -
  have J: "\<And>i. i < unat (fs_cap h) \<Longrightarrow> jump_of h i = 0" "\<And>i. i < unat (fs_cap h) \<Longrightarrow> length (key_of h i) = unat (fs_ksize h)"
    using assms(2) by (simp_all add: zero_entry_def)
  show keys: "fixedset_keys h = {}" using J(1) by (auto simp: keys_iff)
  have "robin (unat (fs_cap h)) (hash_of h) (jump_of h) (key_of h)" using J(1) assms(3) by (simp add: robin_def)
  then show "fixedset_inv h" unfolding fixedset_inv_def fixedset_table_def Let_def using assms J keys by simp
qed

lemma block_keys:
  assumes "fixedset_table h"
  shows "e_kv ` {e \<in> set (fs_block h). e_jump e \<noteq> 0} = fixedset_keys h"
  unfolding set_eq_iff keys_iff tableD(1) [OF assms, symmetric] by (auto simp: in_set_conv_nth unat_eq_0)

lemma same_configD: "same_config h h' \<Longrightarrow> key_fits h' = key_fits h" "same_shape h h' \<Longrightarrow> same_config h h'"
  by (auto simp: same_config_def same_shape_def key_fits_def khash_def fun_eq_iff)

lemma addr_fits_mono: "addr_fits a n k \<Longrightarrow> m \<le> n \<Longrightarrow> addr_fits a m k"
  unfolding addr_fits_def by (meson add_left_mono le_less_trans mult_le_mono1)

lemma fixedset_resize_correct:
  assumes inv: "fixedset_inv h" and cap: "unat (fs_cap h) + unat (fs_cap h) div 4 \<le> unat newcap" "unat newcap < 4294967296"
    and a: "addr_fits a (2 ^ 32) (unat (fs_ksize h))"
  shows "\<exists>h'. fixedset_resize (upsert_depth (Suc d) rnd alloc) (Some a) h newcap = Some (err_SUCCESS, h') \<and>
    fixedset_inv h' \<and> same_config h h' \<and> fs_cap h' = newcap \<and> fixedset_keys h' = fixedset_keys h"
proof -
  let ?h0 = "h\<lparr>fs_addr := a, fs_block := replicate (unat newcap) (zero_entry (fs_ksize h)),
      fs_cap := newcap, fs_size := 0, fs_maxjump := 0\<rparr>"
  note T = invD(1) [OF inv]
  have N: "32 \<le> unat (fs_cap h)" "unat (fs_cap h) < unat newcap" using tableD(2) [OF T] cap(1) by simp_all
  have ad: "addr_fits a (unat newcap) (unat (fs_ksize h))" using addr_fits_mono [OF a, of "unat newcap"] cap(2) by simp
  have h0: "fixedset_inv ?h0" "fixedset_keys ?h0 = {}" using N cap(2) ad by (intro empty_block_inv; simp)+
  have cf: "same_config h ?h0" by (simp add: same_config_def)
  have c: "card (fixedset_keys h) < unat (fs_cap h)" using invD(2,3) [OF inv] by simp
  then have "card (fixedset_keys h) div 8 \<le> unat (fs_cap h) div 4" by linarith
  then have room: "card (fixedset_keys h) + card (fixedset_keys h) div 8 \<le> unat newcap" "card (fixedset_keys h) + 1 < unat newcap"
    using c cap(1) N by linarith+
  have "\<exists>h'. resize_loop (upsert_depth (Suc d) rnd alloc) (fs_block h) ?h0 = Some (err_SUCCESS, h') \<and>
      fixedset_inv h' \<and> same_shape ?h0 h' \<and> fixedset_keys h' = fixedset_keys ?h0 \<union> e_kv ` {e \<in> set (fs_block h). e_jump e \<noteq> 0}"
  proof (rule resize_loop_correct [OF h0(1), where A = "fixedset_keys h"])
    fix e assume "e \<in> set (fs_block h)" "e_jump e \<noteq> 0"
    then have "e_kv e \<in> fixedset_keys h" using block_keys [OF T] by blast
    then show "key_fits ?h0 (e_kv e)" using tableD(9) [OF T] same_configD(1) [OF cf] by simp
  qed (use room block_keys [OF T] h0(2) in simp_all)
  then obtain h' where h': "resize_loop (upsert_depth (Suc d) rnd alloc) (fs_block h) ?h0 = Some (err_SUCCESS, h')"
      "fixedset_inv h'" "same_shape ?h0 h'" "fixedset_keys h' = fixedset_keys h"
    using block_keys [OF T] h0(2) by auto
  moreover have "newcap > fs_cap h" using N(2) by (simp add: word_less_nat_alt)
  moreover have "same_config h h'" "fs_cap h' = newcap" using h'(3) by (simp_all add: same_shape_def same_config_def)
  ultimately show ?thesis by (simp add: fixedset_resize_def)
qed

lemma new_cap_bounds:
  fixes cap r :: u64
  assumes "32 \<le> unat cap" "unat cap < 2147483648"
  defines "n \<equiv> cap + cap div 4 + r mod (cap div 2)"
  shows "unat cap + unat cap div 4 \<le> unat n" "unat n < 4294967296" "4 * unat n \<le> 7 * unat cap"
proof -
  let ?c = "unat cap"
  have d: "unat (cap div 4) = ?c div 4" "unat (cap div 2) = ?c div 2" by (simp_all add: unat_div_distrib)
  have m: "unat (r mod (cap div 2)) < ?c div 2" using assms(1) by (simp add: unat_mod_distrib d)
  have s: "?c + ?c div 4 < 18446744073709551616" "?c + ?c div 4 + ?c div 2 < 4294967296" using assms(2) by simp_all
  have "unat (cap + cap div 4) = ?c + ?c div 4" using s(1) d by (simp add: unat_add_64)
  then have "unat n = ?c + ?c div 4 + unat (r mod (cap div 2))"
    unfolding n_def using s(2) m by (subst unat_add_64) simp_all
  then show "?c + ?c div 4 \<le> unat n" "unat n < 4294967296" "4 * unat n \<le> 7 * ?c" using s(2) m by simp_all
qed

lemma fixedset_upsert_result:
  assumes inv: "fixedset_inv h" and small: "unat (fs_cap h) < 2147483648" and al: "alloc_ok alloc h" and k: "key_fits h k"
  shows "(\<exists>h'. fixedset_upsert rnd alloc h k = Some (err_SUCCESS, h', Some (k \<in> fixedset_keys h)) \<and>
            fixedset_inv h' \<and> same_config h h' \<and> fixedset_keys h' = insert k (fixedset_keys h) \<and>
            unat (fs_cap h') \<le> max (unat (fs_cap h)) (2 * unat (fs_size h))) \<or>
         fixedset_upsert rnd alloc h k = Some (err_OOM, h, None) \<and> alloc 1 = None"
proof -
  note T = invD(1) [OF inv]
  let ?s = "unat (fs_size h)" and ?N = "unat (fs_cap h)" and ?new = "fs_cap h + fs_cap h div 4 + rnd 1 mod (fs_cap h div 2)"
  have two: "upsert_depth 2 = upsert_depth (Suc 1)" by (simp add: numeral_2_eq_2)
  note nb = new_cap_bounds [OF tableD(2) [OF T] small, of "rnd 1"]
  show ?thesis
  proof (cases "?s + ?s div 8 > ?N")
    case False
    then have "?s + 1 < ?N" using tableD(2) [OF T] by linarith
    then obtain h' where h': "find_or_insert h k = Some (err_SUCCESS, h', Some (k \<in> fixedset_keys h))" "fixedset_inv h'"
        "same_shape h h'" "fixedset_keys h' = insert k (fixedset_keys h)"
      using find_or_insert_correct [OF inv k] by auto
    then show ?thesis using False captest_iff [OF inv] same_configD(2) [OF h'(3)] same_shapeD(2) [OF h'(3)]
      unfolding two upsert_depth_alt by (intro disjI1 exI [of _ h']) simp
  next
    case big: True
    show ?thesis
    proof (cases "alloc 1")
      case None
      have "fs_cap h < ?new" using nb(1) tableD(2) [OF T] by (simp add: word_less_nat_alt)
      then show ?thesis using None big captest_iff [OF inv] unfolding two upsert_depth_alt by (simp add: fixedset_resize_def)
    next
      case (Some a)
      have "addr_fits a (2 ^ 32) (unat (fs_ksize h))" using al Some by (simp add: alloc_ok_def)
      from fixedset_resize_correct [OF inv nb(1,2) this, of 0 rnd alloc] obtain h1 where
        h1: "fixedset_resize (upsert_depth 1 rnd alloc) (Some a) h ?new = Some (err_SUCCESS, h1)" "fixedset_inv h1"
          "same_config h h1" "fs_cap h1 = ?new" "fixedset_keys h1 = fixedset_keys h" by auto
      have "unat (fs_size h1) + 1 < unat (fs_cap h1)"
        using invD(2,3) [OF inv] invD(2) [OF h1(2)] h1(4,5) nb(1) tableD(2) [OF T] by simp
      then obtain h' where "find_or_insert h1 k = Some (err_SUCCESS, h', Some (k \<in> fixedset_keys h))" "fixedset_inv h'"
          "same_shape h1 h'" "fixedset_keys h' = insert k (fixedset_keys h)"
        using find_or_insert_correct [OF h1(2), of k] k same_configD(1) [OF h1(3)] h1(5) by auto
      moreover from this have "same_config h h'" "fs_cap h' = ?new"
        using h1(3,4) by (simp_all add: same_config_def same_shape_def)
      moreover from this have "unat (fs_cap h') \<le> 2 * ?s" using nb(3) big by simp
      ultimately show ?thesis using Some big captest_iff [OF inv] h1(1) unfolding two upsert_depth_alt by simp
    qed
  qed
qed

section \<open>Removal\<close>

lemma table_frame_iff:
  "fixedset_table h \<longleftrightarrow> table_frame h \<and> robin (unat (fs_cap h)) (hash_of h) (jump_of h) (key_of h) \<and>
     (\<forall>k \<in> fixedset_keys h. key_fits h k)"
  by (auto simp: fixedset_table_def table_frame_def Let_def)

lemma frame_update:
  assumes "table_frame h" "p < unat (fs_cap h)" "length (e_kv e) = unat (fs_ksize h)" "unat (e_jump e) \<le> unat (fs_maxjump h)"
  shows "table_frame (h\<lparr>fs_block := (fs_block h)[p := e]\<rparr>)"
    "jump_of (h\<lparr>fs_block := (fs_block h)[p := e]\<rparr>) = (jump_of h)(p := unat (e_jump e))"
    "key_of (h\<lparr>fs_block := (fs_block h)[p := e]\<rparr>) = (key_of h)(p := e_kv e)"
  using assms by (auto simp: table_frame_def Let_def nth_list_update fun_eq_iff)

lemma remove_loop_unfold:
  fixes h :: fixedset
  assumes "unat idx + unat i = Suc P" "Suc P < 18446744073709551616"
  defines "p' \<equiv> Suc P mod unat (fs_cap h)"
  shows "remove_loop h idx i e =
    (if jump_of h p' < 2 then Some (h\<lparr>fs_block := (fs_block h)[e := (fs_block h ! e)\<lparr>e_jump := 0\<rparr>]\<rparr>)
     else remove_loop (h\<lparr>fs_block := (fs_block h)[e := \<lparr>e_jump = e_jump (fs_block h ! p') - 1, e_kv = key_of h p'\<rparr>]\<rparr>)
       idx (i + 1) p')"
proof -
  have "slot h (idx + i) = p'" using assms(1,2) by (simp add: slot_eq unat_add_64 p'_def)
  moreover have "(e_jump (fs_block h ! p') < 2) = (jump_of h p' < 2)" by (simp add: word_less_nat_alt)
  ultimately show ?thesis by (subst remove_loop.simps) (simp add: Let_def)
qed

text \<open>
  The loop with the hole at position \<open>P\<close>, whose slot still holds a stale entry, and an empty
  slot \<open>n\<close> positions behind the next one.
\<close>

lemma remove_loop_correct:
  fixes P :: nat
  assumes "table_frame h" "unat idx + unat i = Suc P" "Suc P + n < 18446744073709551616"
    "robin_hole (unat (fs_cap h)) (hash_of h) ((jump_of h)(P mod unat (fs_cap h) := 0)) (key_of h) P"
    "jump_of h (P mod unat (fs_cap h)) \<noteq> 0" "jump_of h ((Suc P + n) mod unat (fs_cap h)) = 0"
  shows "\<exists>h'. remove_loop h idx i (P mod unat (fs_cap h)) = Some h' \<and> table_frame h' \<and> same_shape h h' \<and>
    fs_size h' = fs_size h \<and> robin (unat (fs_cap h)) (hash_of h) (jump_of h') (key_of h') \<and>
    fixedset_keys h' = table_keys (unat (fs_cap h)) ((jump_of h)(P mod unat (fs_cap h) := 0)) (key_of h)"
  using assms
proof (induction n arbitrary: h i P rule: less_induct)
  case (less n h i P)
  let ?N = "unat (fs_cap h)" and ?H = "hash_of h"
  let ?p = "P mod ?N" and ?p' = "Suc P mod ?N"
  have N: "32 \<le> ?N" using less.prems(1) by (simp add: table_frame_def Let_def)
  then have p: "?p < ?N" "?p' < ?N" "?p' \<noteq> ?p" using slot_neighbours(1) [of ?N P] by simp_all
  have lt: "Suc P < 18446744073709551616" using less.prems(3) by simp
  note unf = remove_loop_unfold [OF less.prems(2) lt, of h ?p]
  have kv: "\<And>j. j < ?N \<Longrightarrow> length (key_of h j) = unat (fs_ksize h)" and
      mj: "\<And>j. j < ?N \<Longrightarrow> jump_of h j \<le> unat (fs_maxjump h)"
    using less.prems(1) by (simp_all add: table_frame_def Let_def)
  show ?case
  proof (cases "jump_of h ?p' < 2")
    case True
    let ?e = "(fs_block h ! ?p)\<lparr>e_jump := 0\<rparr>"
    let ?h = "h\<lparr>fs_block := (fs_block h)[?p := ?e]\<rparr>"
    have f: "table_frame ?h" and J: "jump_of ?h = (jump_of h)(?p := 0)"
      using frame_update(1,2) [OF less.prems(1) p(1), of ?e] kv [OF p(1)] by simp_all
    have K: "key_of ?h = key_of h"
      using p(1) less.prems(1) by (auto simp: fun_eq_iff nth_list_update table_frame_def Let_def)
    have "robin ?N ?H ((jump_of h)(?p := 0)) (key_of h)"
      using less.prems(4) by (rule hole_close) (use N True p(3) in simp_all)
    moreover have "fixedset_keys ?h = table_keys ?N ((jump_of h)(?p := 0)) (key_of h)"
      unfolding fixedset_keys_def J K by simp
    ultimately show ?thesis using True unf f unfolding J [symmetric] K [symmetric] by (simp add: same_shape_def)
  next
    case False
    let ?e = "\<lparr>e_jump = e_jump (fs_block h ! ?p') - 1, e_kv = key_of h ?p'\<rparr>"
    let ?h = "h\<lparr>fs_block := (fs_block h)[?p := ?e]\<rparr>"
    have ej: "unat (e_jump ?e) = jump_of h ?p' - 1"
      using False by (simp add: unat_minus_one unat_eq_0 [symmetric])
    have f: "table_frame ?h" and J: "jump_of ?h = (jump_of h)(?p := jump_of h ?p' - 1)" and K: "key_of ?h = (key_of h)(?p := key_of h ?p')"
      using frame_update [OF less.prems(1) p(1), of ?e] kv [OF p(2)] mj [OF p(2)] ej by simp_all
    have twist: "((jump_of h)(?p := 0))(?p := ((jump_of h)(?p := 0)) ?p' - 1, ?p' := 0) = (jump_of ?h)(?p' := 0)"
      unfolding J using p(3) by auto
    have "2 \<le> ((jump_of h)(?p := 0)) ?p'" "3 \<le> ?N" using False p(3) N by simp_all
    note S = hole_shift [OF less.prems(4) this(2,1)]
    have hs: "robin_hole ?N ?H ((jump_of ?h)(?p' := 0)) (key_of ?h) (Suc P)"
      and tk: "table_keys ?N ((jump_of ?h)(?p' := 0)) (key_of ?h) = table_keys ?N ((jump_of h)(?p := 0)) (key_of h)"
      unfolding K twist [symmetric] by (rule S)+
    have n0: "n \<noteq> 0" using less.prems(6) False by (cases n) auto
    then obtain m where m: "n = Suc m" by (cases n) auto
    have i1: "unat idx + unat (i + 1) = Suc (Suc P)"
    proof -
      have "unat i + 1 < 18446744073709551616" using less.prems(2,3) n0 by simp
      then show ?thesis using less.prems(2) by (simp add: unat_add_64)
    qed
    have ne: "(Suc P + n) mod ?N \<noteq> ?p" using less.prems(5,6) by metis
    have "\<exists>h'. remove_loop ?h idx (i + 1) (Suc P mod unat (fs_cap ?h)) = Some h' \<and> table_frame h' \<and> same_shape ?h h' \<and>
        fs_size h' = fs_size ?h \<and> robin (unat (fs_cap ?h)) (hash_of ?h) (jump_of h') (key_of h') \<and>
        fixedset_keys h' = table_keys (unat (fs_cap ?h)) ((jump_of ?h)(Suc P mod unat (fs_cap ?h) := 0)) (key_of ?h)"
      (is "\<exists>h'. ?Q h'")
    proof (rule less.IH [of m])
      show "robin_hole (unat (fs_cap ?h)) (hash_of ?h) ((jump_of ?h)(Suc P mod unat (fs_cap ?h) := 0)) (key_of ?h) (Suc P)"
        using hs by (simp add: khash_def)
      show "jump_of ?h (Suc P mod unat (fs_cap ?h)) \<noteq> 0" using fun_cong [OF J, of ?p'] p(3) False by simp
      show "jump_of ?h ((Suc (Suc P) + m) mod unat (fs_cap ?h)) = 0"
        using fun_cong [OF J, of "(Suc P + n) mod ?N"] ne less.prems(6) m by simp
    qed (use f i1 less.prems(3) m in simp_all)
    then obtain h' where h': "?Q h'" by blast
    have "remove_loop h idx i ?p = Some h'" using unf False h' by simp
    moreover have "same_shape h h'" "fs_size h' = fs_size h" using h' by (simp_all add: same_shape_def)
    moreover have "robin ?N ?H (jump_of h') (key_of h')" using h' by (simp add: khash_def)
    moreover have "fixedset_keys h' = table_keys ?N ((jump_of h)(?p := 0)) (key_of h)"
      unfolding tk [symmetric] using h' by simp
    ultimately show ?thesis using h' by blast
  qed
qed

lemma fixedset_remove_result:
  assumes inv: "fixedset_inv h" and k: "length k = unat (fs_ksize h)"
  shows "\<exists>h'. fixedset_remove h k = Some (k \<in> fixedset_keys h, h') \<and> fixedset_inv h' \<and> same_shape h h' \<and>
    fixedset_keys h' = fixedset_keys h - {k}"
proof (cases "k \<in> fixedset_keys h")
  case False
  then show ?thesis using fixedset_find_absent [OF invD(1) [OF inv] k] inv by (auto simp: fixedset_remove_def)
next
  case True
  note T = invD(1) [OF inv]
  let ?N = "unat (fs_cap h)"
  show ?thesis
  proof (rule fixedset_find_present [OF T k True])
    fix idx
    assume find: "fixedset_find h k = (True, idx, fixedset_entry_n h idx)"
      and idx: "unat idx = hash_of h k + jump_of h (slot h idx)" "jump_of h (slot h idx) \<noteq> 0" "key_of h (slot h idx) = k"
    let ?h = "h\<lparr>fs_size := fs_size h - 1\<rparr>" and ?P = "unat idx"
    have s: "slot h idx = ?P mod ?N" by (rule slot_eq)
    obtain n where n: "n < ?N" "jump_of h ((Suc ?P + n) mod ?N) = 0" using empty_slot_ahead [OF inv] by blast
    have "jump_of h (slot h idx) + (1 + n) < 8589934592"
      using n(1) tableD(3) [OF T] unat_lt_32 [of "e_jump (fs_block h ! slot h idx)"] by linarith
    then have "hash_of h k + (jump_of h (slot h idx) + (1 + n)) < 18446744073709551616"
      using tableD(9) [OF T True] by (intro hash_room) (simp_all add: key_fits_def)
    then have lt: "Suc ?P + n < 18446744073709551616" using idx(1) by simp
    note hole = hole_start [OF tableD(6) [OF T], of ?P]
    have "\<exists>h'. remove_loop ?h idx 1 (?P mod unat (fs_cap ?h)) = Some h' \<and> table_frame h' \<and> same_shape ?h h' \<and>
        fs_size h' = fs_size ?h \<and> robin (unat (fs_cap ?h)) (hash_of ?h) (jump_of h') (key_of h') \<and>
        fixedset_keys h' = table_keys (unat (fs_cap ?h)) ((jump_of ?h)(?P mod unat (fs_cap ?h) := 0)) (key_of ?h)"
      using lt n hole(1) tableD(2) [OF T] idx(2) T
      by (intro remove_loop_correct [where n = n]) (simp_all add: table_frame_iff s table_frame_def khash_def)
    then obtain h' where h': "remove_loop ?h idx 1 (?P mod ?N) = Some h'" "table_frame h'" "same_shape h h'"
        "fs_size h' = fs_size h - 1" "robin ?N (hash_of h) (jump_of h') (key_of h')"
        "fixedset_keys h' = fixedset_keys h - {k}"
      using hole(2) tableD(2) [OF T] idx(2,3) by (auto simp: same_shape_def khash_def s fixedset_keys_def)
    have "fixedset_table h'" using h' tableD(9) [OF T] same_shapeD [OF h'(3)] by (auto simp: table_frame_iff)
    moreover have "fs_size h \<noteq> 0" using invD(2) [OF inv] True by auto
    then have "unat (fs_size h') = card (fixedset_keys h')"
      using h'(4,6) invD(2) [OF inv] True by (simp add: unat_minus_one)
    moreover from this have "unat (fs_size h') < unat (fs_cap h')"
      using h'(6) invD(2,3) [OF inv] same_shapeD(2) [OF h'(3)] card_Diff1_le [of "fixedset_keys h" k] by simp
    ultimately show ?thesis using find h' True entry_addr(2) [OF T, of idx] s
      by (auto simp: fixedset_remove_def fixedset_inv_def)
  qed
qed

lemma fixedset_clear_result:
  assumes "fixedset_inv h"
  shows "fixedset_inv (fixedset_clear h)" "fixedset_keys (fixedset_clear h) = {}"
  using tableD [OF invD(1) [OF assms]] by (intro empty_block_inv; simp add: fixedset_clear_def)+

lemma fixedset_new_result:
  assumes "addr_fits b 32 (unat ksize)"
  shows "\<exists>h. fixedset_new (Some a) (Some b) (Some c) ksize key = (err_SUCCESS, Some h) \<and> fixedset_inv h \<and>
    fixedset_keys h = {} \<and> fs_ksize h = ksize \<and> fs_key h = key"
proof -
  let ?h = "\<lparr>fs_addr = b, fs_block = replicate 32 (zero_entry ksize), fs_tmpk = replicate (unat ksize) 0,
      fs_ksize = ksize, fs_cap = 32, fs_size = 0, fs_maxjump = 0, fs_key = key\<rparr>"
  have "fixedset_inv ?h" "fixedset_keys ?h = {}" using assms by (intro empty_block_inv; simp)+
  then show ?thesis by (simp add: fixedset_new_def)
qed

section \<open>The set interface\<close>

text \<open>
  The contract of a growing set of keys, as its clients use it. \<open>ok\<close> says which keys the set can
  hold; an insertion either succeeds or runs out of memory and leaves the set as it was.
\<close>

locale key_set =
  fixes lookup :: "'s \<Rightarrow> 'k \<Rightarrow> bool"
    and insert_key :: "'s \<Rightarrow> 'k \<Rightarrow> (error_t \<times> 's \<times> bool option) option"
    and delete_key :: "'s \<Rightarrow> 'k \<Rightarrow> (bool \<times> 's) option"
    and wipe :: "'s \<Rightarrow> 's"
    and elems :: "'s \<Rightarrow> 'k set"
    and invar :: "'s \<Rightarrow> bool"
    and growable :: "'s \<Rightarrow> bool"
    and ok :: "'s \<Rightarrow> 'k \<Rightarrow> bool"
    and valid :: "'s \<Rightarrow> 'k \<Rightarrow> bool"
  assumes lookup_iff: "invar s \<Longrightarrow> valid s k \<Longrightarrow> lookup s k \<longleftrightarrow> k \<in> elems s"
    and ok_valid: "ok s k \<Longrightarrow> valid s k"
    and insert_cases: "invar s \<Longrightarrow> growable s \<Longrightarrow> ok s k \<Longrightarrow>
      (\<exists>s'. insert_key s k = Some (err_SUCCESS, s', Some (k \<in> elems s)) \<and> invar s' \<and>
            elems s' = insert k (elems s) \<and> ok s' = ok s \<and> valid s' = valid s) \<or>
      insert_key s k = Some (err_OOM, s, None)"
    and delete_cases: "invar s \<Longrightarrow> valid s k \<Longrightarrow>
      \<exists>s'. delete_key s k = Some (k \<in> elems s, s') \<and> invar s' \<and> elems s' = elems s - {k} \<and> ok s' = ok s \<and> valid s' = valid s"
    and wipe_empty: "invar s \<Longrightarrow> invar (wipe s) \<and> elems (wipe s) = {}"
begin

lemma insert_lookup:
  assumes "invar s" "growable s" "ok s k" "insert_key s k = Some (err_SUCCESS, s', r)" "valid s k'"
  shows "lookup s' k' \<longleftrightarrow> k' = k \<or> lookup s k'"
proof -
  have s': "invar s'" "elems s' = insert k (elems s)" "valid s' k'"
    using insert_cases [OF assms(1-3)] assms(4,5) by auto
  then have "lookup s' k' \<longleftrightarrow> k' \<in> insert k (elems s)" using lookup_iff [of s' k'] by simp
  then show ?thesis using lookup_iff [OF assms(1,5)] by simp
qed

lemma insert_delete:
  assumes "invar s" "growable s" "ok s k" "\<not> lookup s k" "insert_key s k = Some (err_SUCCESS, s', r)"
  shows "\<exists>s''. delete_key s' k = Some (True, s'') \<and> elems s'' = elems s"
proof -
  have s': "invar s'" "elems s' = insert k (elems s)" "valid s' k"
    using insert_cases [OF assms(1-3)] assms(5) ok_valid [OF assms(3)] by auto
  moreover have "k \<notin> elems s" using assms(1,3,4) lookup_iff ok_valid by blast
  ultimately show ?thesis using delete_cases [of s' k] by auto
qed

end

lemma fixedset_get_result: "fixedset_inv h \<Longrightarrow> length k = unat (fs_ksize h) \<Longrightarrow> fixedset_get h k \<longleftrightarrow> k \<in> fixedset_keys h"
  unfolding fixedset_get_def using fixedset_find_iff invD(1) by blast

interpretation fixedset: key_set fixedset_get "fixedset_upsert rnd alloc" fixedset_remove fixedset_clear
    fixedset_keys fixedset_inv "\<lambda>h. unat (fs_cap h) < 2147483648 \<and> alloc_ok alloc h" key_fits
    "\<lambda>h k. length k = unat (fs_ksize h)" for rnd alloc
proof
  fix h :: fixedset and k :: "u8 list"
  show "length k = unat (fs_ksize h)" if "key_fits h k" using that by (simp add: key_fits_def)
  assume inv: "fixedset_inv h"
  show "fixedset_get h k \<longleftrightarrow> k \<in> fixedset_keys h" if "length k = unat (fs_ksize h)"
    using inv that by (rule fixedset_get_result)
  show "(\<exists>s'. fixedset_upsert rnd alloc h k = Some (err_SUCCESS, s', Some (k \<in> fixedset_keys h)) \<and> fixedset_inv s' \<and>
        fixedset_keys s' = insert k (fixedset_keys h) \<and> key_fits s' = key_fits h \<and>
        (\<lambda>k. length k = unat (fs_ksize s')) = (\<lambda>k. length k = unat (fs_ksize h))) \<or>
      fixedset_upsert rnd alloc h k = Some (err_OOM, h, None)"
    if gr: "unat (fs_cap h) < 2147483648 \<and> alloc_ok alloc h" and fits: "key_fits h k"
  proof -
    have g: "unat (fs_cap h) < 2147483648" "alloc_ok alloc h" using gr by simp_all
    consider h' where "fixedset_upsert rnd alloc h k = Some (err_SUCCESS, h', Some (k \<in> fixedset_keys h))" "fixedset_inv h'"
        "same_config h h'" "fixedset_keys h' = insert k (fixedset_keys h)"
      | "fixedset_upsert rnd alloc h k = Some (err_OOM, h, None)"
      using fixedset_upsert_result [OF inv g fits, of rnd] by blast
    then show ?thesis
    proof cases
      case 1
      then show ?thesis using same_configD(1) [of h h'] by (intro disjI1 exI [of _ h']) (simp add: same_config_def)
    qed simp
  qed
  show "\<exists>s'. fixedset_remove h k = Some (k \<in> fixedset_keys h, s') \<and> fixedset_inv s' \<and> fixedset_keys s' = fixedset_keys h - {k} \<and>
      key_fits s' = key_fits h \<and> (\<lambda>k. length k = unat (fs_ksize s')) = (\<lambda>k. length k = unat (fs_ksize h))"
    if len: "length k = unat (fs_ksize h)"
  proof -
    obtain s' where "fixedset_remove h k = Some (k \<in> fixedset_keys h, s')" "fixedset_inv s'" "same_shape h s'"
        "fixedset_keys s' = fixedset_keys h - {k}" using fixedset_remove_result [OF inv len] by blast
    then show ?thesis using same_shapeD(3,6) [of h s'] by simp
  qed
  show "fixedset_inv (fixedset_clear h) \<and> fixedset_keys (fixedset_clear h) = {}"
    using fixedset_clear_result [OF inv] by simp
qed

end
