(* ===== verification/RateLimit.thy ===== *)
theory RateLimit
  imports OSort Bytes
begin

text \<open>
  The rate limiter of \<^verbatim>\<open>ratelimit/ratelimit.c\<close>. A client carries a token: a version byte, 32 bytes
  of entropy, and a keyed hash of the numbers it has asked about. The numbers are merged by the
  oblivious sort, so that the hash does not depend on their order. The SHA-256 of the noise library
  is the parameter \<open>sha256\<close>; a hash context is the list of bytes fed so far.

  Proved: the merge sorts, the hash is the HMAC construction, and a request is accepted exactly
  when its token is the one computed for its numbers, in whatever order they are listed.
\<close>

section \<open>Definitions\<close>

abbreviation (input) RATELIMIT_ENTROPY_SIZE :: nat where "RATELIMIT_ENTROPY_SIZE \<equiv> 32"
abbreviation (input) RATELIMIT_HASH_SIZE :: nat where "RATELIMIT_HASH_SIZE \<equiv> 32"
abbreviation (input) RATELIMIT_VERSION :: u8 where "RATELIMIT_VERSION \<equiv> 1"
abbreviation (input) RATELIMIT_VERSION_SIZE :: nat where "RATELIMIT_VERSION_SIZE \<equiv> 1"
abbreviation (input) RATELIMIT_TOKEN_SIZE :: nat where "RATELIMIT_TOKEN_SIZE \<equiv> 65"

text \<open>The globals \<open>g_shared_secret_bytes\<close> and \<open>g_shared_secret_size\<close>.\<close>

record ratelimit_state =
  g_shared_secret_bytes :: "u8 list"
  g_shared_secret_size :: nat

definition ratelimit_initial :: ratelimit_state where
  "ratelimit_initial = \<lparr>g_shared_secret_bytes = replicate 64 0, g_shared_secret_size = 0\<rparr>"

definition ratelimit_set_shared_secret :: "ratelimit_state \<Rightarrow> u8 list \<Rightarrow> error_t \<times> ratelimit_state" where
  "ratelimit_set_shared_secret g bytes =
     (if \<not> length bytes \<le> 64 then (err_ENCLAVE__LOADPB__SECRET_TOO_LARGE, g)
      else (err_SUCCESS,
            g\<lparr>g_shared_secret_bytes := bytes @ drop (length bytes) (g_shared_secret_bytes g),
              g_shared_secret_size := length bytes\<rparr>))"

text \<open>\<open>cmp_function\<close> and \<open>odd_even_msort_uint64s\<close> of \<^verbatim>\<open>ratelimit.jinc\<close> and \<^verbatim>\<open>jratelimit.jazz\<close>.\<close>

definition cmp_u64 :: "u64 \<Rightarrow> u64 \<Rightarrow> bool" where
  "cmp_u64 lhs rhs = (lhs > rhs)"

definition odd_even_msort_uint64s :: "u64 list \<Rightarrow> nat \<Rightarrow> nat \<Rightarrow> u64 list" where
  "odd_even_msort_uint64s data lb ub = osort cmp_u64 lb ub data"

text \<open>\<open>mem\<close> tells whether the allocation of the output succeeds.\<close>

definition ratelimit_merge_e164s :: "bool \<Rightarrow> u8 list \<Rightarrow> u8 list \<Rightarrow> error_t \<times> u8 list" where
  "ratelimit_merge_e164s mem a_bytes b_bytes =
     (if length a_bytes mod 8 \<noteq> 0 then (err_ENCLAVE__RATELIMIT__INVALID_E164S, [])
      else if length b_bytes mod 8 \<noteq> 0 then (err_ENCLAVE__RATELIMIT__INVALID_E164S, [])
      else if \<not> mem then (err_OOM, [])
      else
        let out = u64s_of_bytes (a_bytes @ b_bytes);
            out = odd_even_msort_uint64s out 0 (length a_bytes div 8 + length b_bytes div 8)
        in (err_SUCCESS, bytes_of_u64s out))"

text \<open>Both arrays must have at least \<open>s\<close> bytes.\<close>

definition ratelimit_constant_time_equal :: "u8 list \<Rightarrow> u8 list \<Rightarrow> nat \<Rightarrow> bool" where
  "ratelimit_constant_time_equal a b s = (fold (\<lambda>i c. c OR (a ! i XOR b ! i)) [0..<s] 0 = 0)"

definition xor_bytes :: "u8 list \<Rightarrow> u8 \<Rightarrow> u8 list" where
  "xor_bytes data x = map (\<lambda>b. b XOR x) data"

text \<open>The shared secret in a zeroed block of 64 bytes.\<close>

definition secret_pad :: "ratelimit_state \<Rightarrow> u8 list" where
  "secret_pad g = take (g_shared_secret_size g) (g_shared_secret_bytes g) @ replicate (64 - g_shared_secret_size g) 0"

text \<open>Returns the error and the token with its hash part overwritten.\<close>

definition ratelimit_compute_token ::
    "(u8 list \<Rightarrow> u8 list) \<Rightarrow> ratelimit_state \<Rightarrow> bool \<Rightarrow> u8 list \<Rightarrow> u8 list \<Rightarrow> u8 list \<Rightarrow> error_t \<times> u8 list" where
  "ratelimit_compute_token sha256 g mem e164s_a e164s_b token = (
     let (err, merged) = ratelimit_merge_e164s mem e164s_a e164s_b in
     if err \<noteq> err_SUCCESS then (err, token)
     else
       let sha = [];
           pad = xor_bytes (secret_pad g) 0x36;
           sha = sha @ pad;
           sha = sha @ take (RATELIMIT_VERSION_SIZE + RATELIMIT_ENTROPY_SIZE) token;
           sha = sha @ merged;
           hash1 = sha256 sha;
           sha = [];
           pad = xor_bytes (secret_pad g) 0x5c;
           sha = sha @ pad;
           sha = sha @ hash1
       in (err_SUCCESS, take (RATELIMIT_VERSION_SIZE + RATELIMIT_ENTROPY_SIZE) token @ sha256 sha))"

definition ratelimit_token_hash :: "(u8 list \<Rightarrow> u8 list) \<Rightarrow> u8 list \<Rightarrow> u8 list" where
  "ratelimit_token_hash sha256 token = sha256 (take RATELIMIT_TOKEN_SIZE token)"

text \<open>The fields of the client's request message that the validation reads.\<close>

record client_request =
  req_token :: "u8 list"
  req_prev_e164s :: "u8 list"
  req_discard_e164s :: "u8 list"

definition ratelimit_validate_received_rate_limit_token ::
    "(u8 list \<Rightarrow> u8 list) \<Rightarrow> ratelimit_state \<Rightarrow> bool \<Rightarrow> 'a client_request_scheme \<Rightarrow> error_t" where
  "ratelimit_validate_received_rate_limit_token sha256 g mem req =
     (if length (req_token req) = 0 then
        (if length (req_prev_e164s req) > 0 then err_ENCLAVE__RATELIMIT__NO_TOKEN else err_SUCCESS)
      else if length (req_token req) \<noteq> RATELIMIT_TOKEN_SIZE then err_ENCLAVE__RATELIMIT__INVALID_TOKEN_FORMAT
      else if req_token req ! 0 \<noteq> RATELIMIT_VERSION then err_ENCLAVE__RATELIMIT__UNSUPPORTED_VERSION
      else
        let token = req_token req;
            computed_token = take (RATELIMIT_VERSION_SIZE + RATELIMIT_ENTROPY_SIZE) token @ replicate RATELIMIT_HASH_SIZE 0;
            (err, computed_token) =
              ratelimit_compute_token sha256 g mem (req_prev_e164s req) (req_discard_e164s req) computed_token
        in if err \<noteq> err_SUCCESS then err
           else if \<not> ratelimit_constant_time_equal computed_token token RATELIMIT_TOKEN_SIZE
                then err_ENCLAVE__RATELIMIT__INVALID_TOKEN
           else err_SUCCESS)"

text \<open>The HMAC construction over a block of 64 bytes, for reference.\<close>

definition hmac :: "(u8 list \<Rightarrow> u8 list) \<Rightarrow> u8 list \<Rightarrow> u8 list \<Rightarrow> u8 list" where
  "hmac H key msg = (
     let block = key @ replicate (64 - length key) 0
     in H (map (\<lambda>b. b XOR 0x5c) block @ H (map (\<lambda>b. b XOR 0x36) block @ msg)))"

section \<open>Merging\<close>

interpretation u64_sort: sort_order cmp_u64 "\<lambda>x. x"
  by unfold_locales (simp add: cmp_u64_def)

lemma odd_even_msort_sort: "odd_even_msort_uint64s xs 0 (length xs) = sort xs"
  using u64_sort.osort_all [of xs]
  by (intro properties_for_sort [symmetric]) (simp_all add: odd_even_msort_uint64s_def)

lemma merge_result:
  assumes "length a mod 8 = 0" "length b mod 8 = 0"
  shows "ratelimit_merge_e164s True a b = (err_SUCCESS, bytes_of_u64s (sort (u64s_of_bytes a @ u64s_of_bytes b)))"
proof -
  have "length a div 8 + length b div 8 = length (u64s_of_bytes a @ u64s_of_bytes b)"
    by (simp add: length_u64s_of_bytes)
  then show ?thesis
    using assms odd_even_msort_sort [of "u64s_of_bytes a @ u64s_of_bytes b"]
    unfolding ratelimit_merge_e164s_def by (simp add: u64s_of_bytes_append)
qed

lemma merge_mset:
  assumes "length a mod 8 = 0" "length b mod 8 = 0" "length c mod 8 = 0" "length d mod 8 = 0"
    "mset (u64s_of_bytes a) + mset (u64s_of_bytes b) = mset (u64s_of_bytes c) + mset (u64s_of_bytes d)"
  shows "ratelimit_merge_e164s mem a b = ratelimit_merge_e164s mem c d"
proof (cases mem)
  case True
  have "sort (u64s_of_bytes a @ u64s_of_bytes b) = sort (u64s_of_bytes c @ u64s_of_bytes d)"
    using assms(5) by (intro properties_for_sort) simp_all
  then show ?thesis using True assms by (simp add: merge_result)
qed (use assms in \<open>simp add: ratelimit_merge_e164s_def\<close>)

section \<open>Tokens\<close>

lemma constant_time_equal_iff:
  assumes "s \<le> length a" "s \<le> length b"
  shows "ratelimit_constant_time_equal a b s \<longleftrightarrow> take s a = take s b"
proof -
  have z: "fold (\<lambda>i c. c OR f i) xs (x :: u8) = 0 \<longleftrightarrow> x = 0 \<and> (\<forall>i \<in> set xs. f i = 0)" for f xs x
    by (induction xs arbitrary: x) (auto simp: or_eq_0_iff)
  have "a ! i XOR b ! i = 0 \<longleftrightarrow> a ! i = b ! i" for i by (auto simp: bit_eq_iff bit_simps)
  then show ?thesis
    using assms unfolding ratelimit_constant_time_equal_def z by (auto simp: list_eq_iff_nth_eq)
qed

definition secret :: "ratelimit_state \<Rightarrow> u8 list" where
  "secret g = take (g_shared_secret_size g) (g_shared_secret_bytes g)"

definition ratelimit_inv :: "ratelimit_state \<Rightarrow> bool" where
  "ratelimit_inv g \<longleftrightarrow> length (g_shared_secret_bytes g) = 64 \<and> g_shared_secret_size g \<le> 64"

lemma compute_token_hmac:
  assumes "ratelimit_inv g" "length a mod 8 = 0" "length b mod 8 = 0"
  shows "ratelimit_compute_token sha256 g True a b token =
    (err_SUCCESS, take 33 token @ hmac sha256 (secret g) (take 33 token @ bytes_of_u64s (sort (u64s_of_bytes a @ u64s_of_bytes b))))"
proof -
  have "secret_pad g = secret g @ replicate (64 - length (secret g)) 0"
    using assms(1) by (simp add: secret_pad_def secret_def ratelimit_inv_def)
  then show ?thesis
    using merge_result [OF assms(2,3)] by (simp add: ratelimit_compute_token_def xor_bytes_def hmac_def Let_def)
qed

lemma set_shared_secret_inv [inv_intros]:
  assumes "ratelimit_inv g" "ratelimit_set_shared_secret g bytes = (err, g')"
  shows "ratelimit_inv g'" "err = err_SUCCESS \<Longrightarrow> secret g' = bytes"
  using assms by (auto simp: ratelimit_set_shared_secret_def ratelimit_inv_def secret_def split: if_splits)

lemma validate_iff:
  assumes inv: "ratelimit_inv g" and sha: "\<And>x. length (sha256 x) = 32"
    and req: "length (req_token req) = 65" "req_token req ! 0 = 1"
      "length (req_prev_e164s req) mod 8 = 0" "length (req_discard_e164s req) mod 8 = 0"
  shows "ratelimit_validate_received_rate_limit_token sha256 g True req = err_SUCCESS \<longleftrightarrow>
    drop 33 (req_token req) = hmac sha256 (secret g) (take 33 (req_token req) @
      bytes_of_u64s (sort (u64s_of_bytes (req_prev_e164s req) @ u64s_of_bytes (req_discard_e164s req))))"
    (is "_ \<longleftrightarrow> _ = ?mac")
proof -
  let ?t = "req_token req"
  have len: "length ?mac = 32" by (simp add: hmac_def sha Let_def)
  have "ratelimit_validate_received_rate_limit_token sha256 g True req =
      (if ratelimit_constant_time_equal (take 33 ?t @ ?mac) ?t 65 then err_SUCCESS else err_ENCLAVE__RATELIMIT__INVALID_TOKEN)"
    using req by (simp add: ratelimit_validate_received_rate_limit_token_def compute_token_hmac [OF inv])
  also have "ratelimit_constant_time_equal (take 33 ?t @ ?mac) ?t 65 \<longleftrightarrow> take 33 ?t @ ?mac = ?t"
    using req(1) len by (subst constant_time_equal_iff) simp_all
  also have "\<dots> \<longleftrightarrow> drop 33 ?t = ?mac"
    by (metis append_eq_conv_conj append_take_drop_id)
  finally show ?thesis by auto
qed

end
