(* ===== verification/AciPniUak.thy ===== *)
theory AciPniUak
  imports FixedSet Bytes
begin

text \<open>
  \<^verbatim>\<open>aci_pni_uak_helpers/aci_pni_uak_helpers.c\<close>: the client's (ACI, UAK) pairs are put in a set, and
  the records found in the table are turned into the (e164, PNI, ACI) triples of the response.
  The ACI is only revealed to a client that knows the UAK; records are selected by bit masks.

  Proved: loading makes the set hold exactly the pairs, and every triple is the specified one.
\<close>

section \<open>Definitions\<close>

record aci_uak_pair =
  pair_aci :: "u64 \<times> u64"
  pair_uak :: "u64 \<times> u64"

record signal_user_record =
  r_e164 :: u64
  r_aci :: "u64 \<times> u64"
  r_pni :: "u64 \<times> u64"
  r_uak :: "u64 \<times> u64"

record e164_pni_aci_triple =
  t_e164 :: u64
  t_pni :: "u64 \<times> u64"
  t_aci :: "u64 \<times> u64"

text \<open>The 32 bytes of a pair: it is used as a key by its address.\<close>

definition pair_bytes :: "aci_uak_pair \<Rightarrow> u8 list" where
  "pair_bytes p = bytes_of_u64s [fst (pair_aci p), snd (pair_aci p), fst (pair_uak p), snd (pair_uak p)]"

text \<open>\<open>rnd i\<close> and \<open>alloc i\<close> are the random numbers and the allocations of the \<open>i\<close>-th insertion.\<close>

fun load_aci_uak_pairs_from ::
    "nat \<Rightarrow> (nat \<Rightarrow> nat \<Rightarrow> u64) \<Rightarrow> (nat \<Rightarrow> nat \<Rightarrow> u64 option) \<Rightarrow> fixedset \<Rightarrow> aci_uak_pair list
     \<Rightarrow> (error_t \<times> fixedset) option" where
  "load_aci_uak_pairs_from i rnd alloc index [] = Some (err_SUCCESS, index)"
| "load_aci_uak_pairs_from i rnd alloc index (p # pairs) =
     do { (err, index, _) \<leftarrow> fixedset_upsert (rnd i) (alloc i) index (pair_bytes p);
          if err \<noteq> err_SUCCESS then Some (err, index)
          else load_aci_uak_pairs_from (Suc i) rnd alloc index pairs }"

definition load_aci_uak_pairs ::
    "(nat \<Rightarrow> nat \<Rightarrow> u64) \<Rightarrow> (nat \<Rightarrow> nat \<Rightarrow> u64 option) \<Rightarrow> fixedset \<Rightarrow> aci_uak_pair list \<Rightarrow> (error_t \<times> fixedset) option" where
  "load_aci_uak_pairs = load_aci_uak_pairs_from 0"

definition ZERO_OR_U64MAX :: "u64 \<Rightarrow> u64" where
  "ZERO_OR_U64MAX v = (if v = 0 then 0 else 0xFFFFFFFFFFFFFFFF)"

text \<open>The body of the loop, for the record at index \<open>i\<close>.\<close>

definition create_triple :: "fixedset \<Rightarrow> u64 \<Rightarrow> signal_user_record \<Rightarrow> e164_pni_aci_triple" where
  "create_triple index i r = (
     let got_and = ZERO_OR_U64MAX (NOT (r_e164 r)) AND
                     (ZERO_OR_U64MAX (fst (r_aci r)) OR ZERO_OR_U64MAX (snd (r_aci r)));
         r = r\<lparr>r_uak := ((fst (r_uak r) AND got_and) OR (i AND NOT got_and), snd (r_uak r))\<rparr>;
         pair = \<lparr>pair_aci = r_aci r, pair_uak = r_uak r\<rparr>;
         get = fixedset_get index (pair_bytes pair);
         add_aci = (get \<and> fst (r_uak r) OR snd (r_uak r) \<noteq> 0);
         aci_and = (if add_aci then 0xFFFFFFFFFFFFFFFF else 0)
     in \<lparr>t_e164 = got_and AND r_e164 r,
         t_pni = (got_and AND fst (r_pni r), got_and AND snd (r_pni r)),
         t_aci = (got_and AND aci_and AND fst (r_aci r), got_and AND aci_and AND snd (r_aci r))\<rparr>)"

definition create_e164_pni_aci_triples :: "fixedset \<Rightarrow> signal_user_record list \<Rightarrow> error_t \<times> e164_pni_aci_triple list" where
  "create_e164_pni_aci_triples index ohtable_response =
     (err_SUCCESS, map (\<lambda>i. create_triple index (of_nat i) (ohtable_response ! i)) [0..<length ohtable_response])"

subsection \<open>What is to be returned\<close>

definition record_found :: "signal_user_record \<Rightarrow> bool" where
  "record_found r \<longleftrightarrow> r_e164 r \<noteq> 0xFFFFFFFFFFFFFFFF \<and> r_aci r \<noteq> (0, 0)"

definition zero_triple :: e164_pni_aci_triple where
  "zero_triple = \<lparr>t_e164 = 0, t_pni = (0, 0), t_aci = (0, 0)\<rparr>"

definition triple_spec :: "aci_uak_pair set \<Rightarrow> signal_user_record \<Rightarrow> e164_pni_aci_triple" where
  "triple_spec known r =
     (if \<not> record_found r then zero_triple
      else \<lparr>t_e164 = r_e164 r, t_pni = r_pni r,
            t_aci = (if r_uak r \<noteq> (0, 0) \<and> \<lparr>pair_aci = r_aci r, pair_uak = r_uak r\<rparr> \<in> known then r_aci r else (0, 0))\<rparr>)"

text \<open>The pairs that the set holds.\<close>

definition index_pairs :: "fixedset \<Rightarrow> aci_uak_pair set" where
  "index_pairs h = {p. pair_bytes p \<in> fixedset_keys h}"

section \<open>Pairs as keys\<close>

lemma length_pair_bytes [simp]: "length (pair_bytes p) = 32"
  by (simp add: pair_bytes_def)

lemma pair_bytes_inject [simp]: "pair_bytes p = pair_bytes q \<longleftrightarrow> p = q"
proof
  assume "pair_bytes p = pair_bytes q"
  then have "u64s_of_bytes (pair_bytes p) = u64s_of_bytes (pair_bytes q)" by simp
  then show "p = q" by (simp add: pair_bytes_def prod_eq_iff)
qed simp

section \<open>Loading\<close>

lemma load_pairs_result:
  assumes "fixedset_inv h" "fs_ksize h = 32" "\<forall>p \<in> set pairs. key_fits h (pair_bytes p)"
    "\<forall>j. alloc_ok (alloc j) h" "unat (fs_cap h) < 2147483648" "card (fixedset_keys h) + length pairs < 1073741824"
  shows "\<exists>err h'. load_aci_uak_pairs_from i rnd alloc h pairs = Some (err, h') \<and>
    fixedset_inv h' \<and> same_config h h' \<and>
    (err = err_SUCCESS \<and> fixedset_keys h' = fixedset_keys h \<union> pair_bytes ` set pairs \<or>
     err = err_OOM \<and> (\<exists>j. i \<le> j \<and> j < i + length pairs \<and> alloc j 1 = None))"
  using assms
proof (induction pairs arbitrary: i h)
  case Nil
  then show ?case by (simp add: same_config_def)
next
  case (Cons p pairs)
  have al: "alloc_ok (alloc i) h" and kf: "key_fits h (pair_bytes p)" using Cons.prems by simp_all
  consider (ok) h1 where "fixedset_upsert (rnd i) (alloc i) h (pair_bytes p) = Some (err_SUCCESS, h1, Some (pair_bytes p \<in> fixedset_keys h))"
      "fixedset_inv h1" "same_config h h1" "fixedset_keys h1 = insert (pair_bytes p) (fixedset_keys h)"
      "unat (fs_cap h1) \<le> max (unat (fs_cap h)) (2 * unat (fs_size h))"
    | (oom) "fixedset_upsert (rnd i) (alloc i) h (pair_bytes p) = Some (err_OOM, h, None)" "alloc i 1 = None"
    using fixedset_upsert_result [OF Cons.prems(1,5) al kf, of "rnd i"] by (elim disjE exE conjE) simp_all
  then show ?case
  proof cases
    case oom
    then show ?thesis using Cons.prems(1)
      by (intro exI [of _ err_OOM] exI [of _ h] conjI disjI2 exI [of _ i]) (simp_all add: same_config_def)
  next
    case ok
    have c: "same_config h h1" by (rule ok(3))
    have k: "fs_ksize h1 = 32" "key_fits h1 = key_fits h" using Cons.prems(2) same_configD(1) [OF c] c by (simp_all add: same_config_def)
    have a: "\<forall>j. alloc_ok (alloc j) h1" using Cons.prems(2,4) k(1) by (simp add: alloc_ok_def)
    have f: "\<forall>p \<in> set pairs. key_fits h1 (pair_bytes p)" using Cons.prems(3) k(2) by simp
    have "card (insert (pair_bytes p) (fixedset_keys h)) \<le> Suc (card (fixedset_keys h))" by (simp add: card_insert_if)
    then have n: "card (fixedset_keys h1) + length pairs < 1073741824" using Cons.prems(6) ok(4) by simp
    have "unat (fs_size h) = card (fixedset_keys h)" using invD(2) [OF Cons.prems(1)] .
    then have "max (unat (fs_cap h)) (2 * unat (fs_size h)) < 2147483648" using Cons.prems(5,6) by simp
    then have cap: "unat (fs_cap h1) < 2147483648" by (rule le_less_trans [OF ok(5)])
    from Cons.IH [OF ok(2) k(1) f a cap n, of "Suc i"] obtain err h' where
      IH: "load_aci_uak_pairs_from (Suc i) rnd alloc h1 pairs = Some (err, h')" "fixedset_inv h'" "same_config h1 h'"
        "err = err_SUCCESS \<and> fixedset_keys h' = fixedset_keys h1 \<union> pair_bytes ` set pairs \<or>
         err = err_OOM \<and> (\<exists>j. Suc i \<le> j \<and> j < Suc i + length pairs \<and> alloc j 1 = None)" by blast
    have "same_config h h'" using c IH(3) by (simp add: same_config_def)
    moreover have "load_aci_uak_pairs_from i rnd alloc h (p # pairs) = Some (err, h')" using ok(1) IH(1) by simp
    moreover have "err = err_SUCCESS \<and> fixedset_keys h' = fixedset_keys h \<union> pair_bytes ` set (p # pairs) \<or>
         err = err_OOM \<and> (\<exists>j. i \<le> j \<and> j < i + length (p # pairs) \<and> alloc j 1 = None)"
      using IH(4)
    proof (elim disjE conjE exE)
      fix j assume j: "err = err_OOM" "Suc i \<le> j" "j < Suc i + length pairs" "alloc j 1 = None"
      then show ?thesis by (intro disjI2 conjI exI [of _ j]) simp_all
    qed (simp add: ok(4))
    ultimately show ?thesis using IH(2) by blast
  qed
qed

section \<open>Triples\<close>

lemma u64max: "0xFFFFFFFFFFFFFFFF = (NOT 0 :: u64)"
  by simp

lemma got_mask:
  "ZERO_OR_U64MAX (NOT (r_e164 r)) AND (ZERO_OR_U64MAX (fst (r_aci r)) OR ZERO_OR_U64MAX (snd (r_aci r))) =
     (if record_found r then NOT 0 else 0)"
proof -
  have n: "NOT (r_e164 r) = 0 \<longleftrightarrow> r_e164 r = NOT 0" by (metis bit.double_compl)
  have m: "NOT 0 AND NOT 0 = (NOT 0 :: u64)" "NOT 0 OR x = (NOT 0 :: u64)" "0 OR x = x" "NOT 0 AND x = x" "0 AND x = 0" for x :: u64
    by (simp_all)
  show ?thesis
    unfolding record_found_def ZERO_OR_U64MAX_def u64max n prod_eq_iff fst_conv snd_conv
    by (simp only: m if_True if_False simp_thms split: if_split) blast
qed

lemma create_triple_result:
  assumes "fixedset_inv h" "fs_ksize h = 32"
  shows "create_triple h i r = triple_spec (index_pairs h) r"
proof (cases "record_found r")
  case False
  then show ?thesis unfolding create_triple_def got_mask by (simp add: triple_spec_def zero_triple_def)
next
  case True
  have get: "fixedset_get h (pair_bytes p) \<longleftrightarrow> p \<in> index_pairs h" for p
    using fixedset_get_result [OF assms(1), of "pair_bytes p"] assms(2) by (simp add: index_pairs_def)
  have nz: "fst (r_uak r) OR snd (r_uak r) \<noteq> 0 \<longleftrightarrow> r_uak r \<noteq> (0, 0)"
    by (simp add: or_eq_0_iff prod_eq_iff)
  have m: "NOT 0 AND x = x" "x AND NOT 0 = x" "(x AND NOT 0) OR (i AND NOT (NOT 0)) = x" for x :: u64
    by (simp_all)
  show ?thesis using True nz
    unfolding create_triple_def got_mask triple_spec_def u64max
    by (simp add: get m del: bit.compl_zero)
qed

lemma create_triples_result:
  assumes "fixedset_inv h" "fs_ksize h = 32"
  shows "create_e164_pni_aci_triples h rs = (err_SUCCESS, map (triple_spec (index_pairs h)) rs)"
  unfolding create_e164_pni_aci_triples_def create_triple_result [OF assms] prod.inject
  by (intro conjI refl nth_equalityI) simp_all

lemma index_pairs_load:
  assumes "fixedset_keys h' = fixedset_keys h \<union> pair_bytes ` set pairs" "fixedset_keys h = {}"
  shows "index_pairs h' = set pairs"
  using assms by (auto simp: index_pairs_def)

end
