(* ===== verification/NoiseUtil.thy ===== *)
theory NoiseUtil
  imports Bytes
begin

text \<open>
  The packet layer of \<^verbatim>\<open>noiseutil/noise.c\<close>: a message of any size is sent as a sequence of Noise
  packets, each with its authentication tag. The noise library is a parameter: the record
  \<open>noise_lib\<close> holds its constants and the functions that the code calls.

  Memory is one list of bytes and a buffer is an offset with a size, so that decrypting in place,
  where both buffers are the same, is an instance of the general case. An access outside of a
  buffer has no result (None). Sizes are natural numbers: they count bytes of a memory.

  Proved: encryption succeeds exactly when the output fits, and decryption, in place or into
  another buffer, gives back the message.
\<close>

section \<open>Definitions\<close>

abbreviation (input) NOISE_KEY_SIZE :: nat where "NOISE_KEY_SIZE \<equiv> 32"
abbreviation (input) NOISE_MAC_SIZE :: nat where "NOISE_MAC_SIZE \<equiv> 16"

text \<open>
  The noise library. A cipher is called on the bytes of its buffer and the buffer's capacity; it
  returns a code, its next state and the bytes it leaves in the buffer. A key exchange state is
  created, given a private key, and asked for the public key.
\<close>

record ('c, 'd) noise_lib =
  NOISE_ERROR_NONE :: int
  NOISE_ERROR_BASE :: int
  NOISE_MAX_PAYLOAD_LEN :: nat
  noise_cipherstate_encrypt :: "'c \<Rightarrow> u8 list \<Rightarrow> nat \<Rightarrow> int \<times> 'c \<times> u8 list"
  noise_cipherstate_decrypt :: "'c \<Rightarrow> u8 list \<Rightarrow> nat \<Rightarrow> int \<times> 'c \<times> u8 list"
  noise_cipherstate_get_mac_length :: "'c \<Rightarrow> nat"
  noise_dhstate_new_by_id :: "int \<times> 'd"
  noise_dhstate_set_keypair_private :: "'d \<Rightarrow> u8 list \<Rightarrow> int \<times> 'd"
  noise_dhstate_get_public_key :: "'d \<Rightarrow> int \<times> u8 list"

definition NOISE_MAX_PACKET_SIZE :: "('c, 'd) noise_lib \<Rightarrow> nat" where
  "NOISE_MAX_PACKET_SIZE lib = NOISE_MAX_PAYLOAD_LEN lib"

definition NOISE_MAX_DATA_SIZE :: "('c, 'd) noise_lib \<Rightarrow> nat" where
  "NOISE_MAX_DATA_SIZE lib = NOISE_MAX_PACKET_SIZE lib - NOISE_MAC_SIZE"

definition noise_errort :: "('c, 'd) noise_lib \<Rightarrow> error_t \<Rightarrow> int \<Rightarrow> error_t" where
  "noise_errort lib space noise_error =
     (if noise_error = NOISE_ERROR_NONE lib then err_SUCCESS else space + noise_error - NOISE_ERROR_BASE lib)"

text \<open>
  The loop of \<open>noise_encrypt_message\<close>. \<open>pt\<close> and \<open>ct\<close> are the two buffers; the result is the error,
  the cipher, the ciphertext buffer and \<open>*ciphertext_size\<close>.
\<close>

partial_function (option) noise_encrypt_loop ::
    "('c, 'd) noise_lib \<Rightarrow> 'c \<Rightarrow> u8 list \<Rightarrow> u8 list \<Rightarrow> nat \<Rightarrow> nat \<Rightarrow> (error_t \<times> 'c \<times> u8 list \<times> nat) option" where
  "noise_encrypt_loop lib tx pt ct plaintext_offset ciphertext_offset =
     (if plaintext_offset < length pt then
        let to_encrypt = NOISE_MAX_DATA_SIZE lib;
            to_encrypt = (if plaintext_offset + to_encrypt > length pt then length pt - plaintext_offset else to_encrypt)
        in if ciphertext_offset + to_encrypt + noise_cipherstate_get_mac_length lib tx > length ct
           then Some (err_ENCLAVE__GENERAL__BUFFER_TOO_SMALL, tx, ct, length ct)
           else
             let ct = mem_write ct ciphertext_offset (mem_read pt plaintext_offset to_encrypt);
                 (e, tx, buf) = noise_cipherstate_encrypt lib tx (mem_read ct ciphertext_offset to_encrypt)
                                  (length ct - ciphertext_offset);
                 ct = mem_write ct ciphertext_offset buf;
                 err = noise_errort lib err_NOISE__CIPHERSTATE__ENCRYPT e
             in if err \<noteq> err_SUCCESS then Some (err, tx, ct, length ct)
                else noise_encrypt_loop lib tx pt ct (plaintext_offset + NOISE_MAX_DATA_SIZE lib)
                       (ciphertext_offset + length buf)
      else Some (err_SUCCESS, tx, ct, ciphertext_offset))"

declare noise_encrypt_loop.simps [code]

definition noise_encrypt_message ::
    "('c, 'd) noise_lib \<Rightarrow> 'c \<Rightarrow> u8 list \<Rightarrow> u8 list \<Rightarrow> (error_t \<times> 'c \<times> u8 list \<times> nat) option" where
  "noise_encrypt_message lib tx pt ct = noise_encrypt_loop lib tx pt ct 0 0"

text \<open>
  The loop of \<open>noise_decrypt_message\<close>, in the memory \<open>mem\<close>: the ciphertext is at \<open>src\<close> with \<open>csize\<close>
  bytes, the plaintext buffer at \<open>dst\<close> with \<open>psize\<close> bytes. The result is the error, the cipher, the
  memory and \<open>*plaintext_size\<close>.
\<close>

partial_function (option) noise_decrypt_loop ::
    "('c, 'd) noise_lib \<Rightarrow> 'c \<Rightarrow> u8 list \<Rightarrow> nat \<Rightarrow> nat \<Rightarrow> nat \<Rightarrow> nat \<Rightarrow> nat \<Rightarrow> nat
     \<Rightarrow> (error_t \<times> 'c \<times> u8 list \<times> nat) option" where
  "noise_decrypt_loop lib rx mem src csize dst psize ciphertext_offset plaintext_offset =
     (if ciphertext_offset < csize then
        let to_decrypt = NOISE_MAX_PACKET_SIZE lib;
            to_decrypt = (if ciphertext_offset + to_decrypt > csize then csize - ciphertext_offset else to_decrypt)
        in if plaintext_offset + to_decrypt > psize then None
           else
             let mem = mem_write mem (dst + plaintext_offset) (mem_read mem (src + ciphertext_offset) to_decrypt);
                 (e, rx, buf) = noise_cipherstate_decrypt lib rx (mem_read mem (dst + plaintext_offset) to_decrypt)
                                  (psize - plaintext_offset);
                 mem = mem_write mem (dst + plaintext_offset) buf;
                 err = noise_errort lib err_NOISE__CIPHERSTATE__DECRYPT e
             in if err \<noteq> err_SUCCESS then Some (err, rx, mem, psize)
                else noise_decrypt_loop lib rx mem src csize dst psize
                       (ciphertext_offset + NOISE_MAX_PACKET_SIZE lib) (plaintext_offset + length buf)
      else Some (err_SUCCESS, rx, mem, plaintext_offset))"

declare noise_decrypt_loop.simps [code]

definition noise_decrypt_message ::
    "('c, 'd) noise_lib \<Rightarrow> 'c \<Rightarrow> u8 list \<Rightarrow> nat \<Rightarrow> nat \<Rightarrow> nat \<Rightarrow> nat \<Rightarrow> (error_t \<times> 'c \<times> u8 list \<times> nat) option" where
  "noise_decrypt_message lib rx mem src csize dst psize = noise_decrypt_loop lib rx mem src csize dst psize 0 0"

definition noise_decrypt_message_inplace ::
    "('c, 'd) noise_lib \<Rightarrow> 'c \<Rightarrow> u8 list \<Rightarrow> nat \<Rightarrow> nat \<Rightarrow> (error_t \<times> 'c \<times> u8 list \<times> nat) option" where
  "noise_decrypt_message_inplace lib rx mem data data_size = noise_decrypt_message lib rx mem data data_size data data_size"

text \<open>
  Returns the error, the public key buffer, and how many key exchange states were created and
  not freed.
\<close>

definition noise_pubkey_from_privkey :: "('c, 'd) noise_lib \<Rightarrow> u8 list \<Rightarrow> u8 list \<Rightarrow> error_t \<times> u8 list \<times> nat" where
  "noise_pubkey_from_privkey lib privkey pubkey = (
     let (e, state) = noise_dhstate_new_by_id lib;
         err = noise_errort lib err_NOISE__DHSTATE__NEW e
     in if err \<noteq> err_SUCCESS then (err, pubkey, 0)
        else
          let live = 1;
              (e, state) = noise_dhstate_set_keypair_private lib state privkey;
              err = noise_errort lib err_NOISE__DHSTATE__SET_KEYPAIR_PRIVATE e;
              (err, pubkey) =
                (if err \<noteq> err_SUCCESS then (err, pubkey)
                 else let (e, pk) = noise_dhstate_get_public_key lib state
                      in (noise_errort lib err_NOISE__DHSTATE__GET_PUBLIC_KEY e, pk));
              live = live - 1
          in (err, pubkey, live))"

subsection \<open>Packets\<close>

text \<open>
  \<open>paired lib R\<close>: \<open>R\<close> relates a sending cipher to the receiving one of its peer that is in step with
  it. A packet within the limits is encrypted with a tag of 16 bytes, and the peer decrypts it.
\<close>

definition paired :: "('c, 'd) noise_lib \<Rightarrow> ('c \<Rightarrow> 'c \<Rightarrow> bool) \<Rightarrow> bool" where
  "paired lib R \<longleftrightarrow> NOISE_MAX_PAYLOAD_LEN lib > 16 \<and>
     (\<forall>tx rx p. R tx rx \<longrightarrow> noise_cipherstate_get_mac_length lib tx = 16 \<and>
        (length p + 16 \<le> NOISE_MAX_PAYLOAD_LEN lib \<longrightarrow>
          (\<exists>tx' rx' c. R tx' rx' \<and> length c = length p + 16 \<and>
             (\<forall>m. length c \<le> m \<longrightarrow> noise_cipherstate_encrypt lib tx p m = (NOISE_ERROR_NONE lib, tx', c)) \<and>
             (\<forall>m. length c \<le> m \<longrightarrow> noise_cipherstate_decrypt lib rx c m = (NOISE_ERROR_NONE lib, rx', p)))))"

text \<open>\<open>sealed lib tx rx m c tx' rx'\<close>: the ciphertext \<open>c\<close> of the message \<open>m\<close>, packet by packet.\<close>

inductive sealed :: "('c, 'd) noise_lib \<Rightarrow> 'c \<Rightarrow> 'c \<Rightarrow> u8 list \<Rightarrow> u8 list \<Rightarrow> 'c \<Rightarrow> 'c \<Rightarrow> bool" for lib where
  Empty: "sealed lib tx rx [] [] tx rx"
| Packet: "p \<noteq> [] \<Longrightarrow> length c = length p + 16 \<Longrightarrow> length c \<le> NOISE_MAX_PAYLOAD_LEN lib \<Longrightarrow>
    (m \<noteq> [] \<Longrightarrow> length c = NOISE_MAX_PAYLOAD_LEN lib) \<Longrightarrow>
    noise_cipherstate_get_mac_length lib tx = 16 \<Longrightarrow>
    (\<And>k. length c \<le> k \<Longrightarrow> noise_cipherstate_encrypt lib tx p k = (NOISE_ERROR_NONE lib, tx1, c)) \<Longrightarrow>
    (\<And>k. length c \<le> k \<Longrightarrow> noise_cipherstate_decrypt lib rx c k = (NOISE_ERROR_NONE lib, rx1, p)) \<Longrightarrow>
    sealed lib tx1 rx1 m cs tx2 rx2 \<Longrightarrow> sealed lib tx rx (p @ m) (c @ cs) tx2 rx2"

text \<open>The size of the ciphertext of \<open>n\<close> bytes.\<close>

definition sealed_size :: "('c, 'd) noise_lib \<Rightarrow> nat \<Rightarrow> nat" where
  "sealed_size lib n = n + 16 * ((n + NOISE_MAX_DATA_SIZE lib - 1) div NOISE_MAX_DATA_SIZE lib)"

lemma sealed_exists:
  assumes "paired lib R" "R tx rx"
  shows "\<exists>c tx' rx'. sealed lib tx rx m c tx' rx' \<and> R tx' rx'"
  using assms(2)
proof (induction "length m" arbitrary: m tx rx rule: less_induct)
  case less
  let ?d = "NOISE_MAX_PAYLOAD_LEN lib - 16"
  show ?case
  proof (cases "m = []")
    case True
    then show ?thesis using less.prems sealed.Empty [of lib tx rx] by auto
  next
    case False
    have d: "16 < NOISE_MAX_PAYLOAD_LEN lib" using assms(1) by (simp add: paired_def)
    have "length (take ?d m) + 16 \<le> NOISE_MAX_PAYLOAD_LEN lib" using d by simp
    then obtain tx1 rx1 c where p: "noise_cipherstate_get_mac_length lib tx = 16" "R tx1 rx1" "length c = length (take ?d m) + 16"
        "\<And>k. length c \<le> k \<Longrightarrow> noise_cipherstate_encrypt lib tx (take ?d m) k = (NOISE_ERROR_NONE lib, tx1, c)"
        "\<And>k. length c \<le> k \<Longrightarrow> noise_cipherstate_decrypt lib rx c k = (NOISE_ERROR_NONE lib, rx1, take ?d m)"
      using assms(1) less.prems unfolding paired_def by blast
    have "0 < length m" using False by simp
    then have "length (drop ?d m) < length m" using d unfolding length_drop by linarith
    then obtain cs tx2 rx2 where r: "sealed lib tx1 rx1 (drop ?d m) cs tx2 rx2" "R tx2 rx2"
      using less.hyps p(2) by blast
    have "sealed lib tx rx (take ?d m @ drop ?d m) (c @ cs) tx2 rx2"
      using d False p by (intro Packet [OF _ _ _ _ _ _ _ r(1)]) auto
    then show ?thesis using r(2) by auto
  qed
qed

lemma packet_count:
  fixes d :: nat
  assumes "0 < d"
  shows "(d - 1) div d = 0" "0 < n \<Longrightarrow> n \<le> d \<Longrightarrow> (n + d - 1) div d = 1"
    "(d + m + d - 1) div d = Suc ((m + d - 1) div d)"
proof -
  show "(d - 1) div d = 0" using assms by simp
  show "(n + d - 1) div d = 1" if "0 < n" "n \<le> d" using that assms by (intro div_nat_eqI) auto
  have "d + m + d - 1 = d + (m + d - 1)" using assms by simp
  then show "(d + m + d - 1) div d = Suc ((m + d - 1) div d)" using assms by (simp only: div_add_self1)
qed

lemma length_sealed:
  assumes "sealed lib tx rx m c tx' rx'"
  shows "length c = sealed_size lib (length m)"
  using assms
proof (induction rule: sealed.induct)
  case (Empty tx rx)
  then show ?case by (cases "NOISE_MAX_DATA_SIZE lib = 0") (simp_all add: sealed_size_def)
next
  case (Packet p c m tx tx1 rx rx1 cs tx2 rx2)
  let ?d = "NOISE_MAX_DATA_SIZE lib"
  have d: "0 < length p" "length p \<le> ?d" "m \<noteq> [] \<Longrightarrow> length p = ?d"
    using Packet.hyps(1-4) by (auto simp: NOISE_MAX_DATA_SIZE_def NOISE_MAX_PACKET_SIZE_def)
  then have n: "0 < ?d" by linarith
  show ?case
  proof (cases "m = []")
    case True
    then show ?thesis using packet_count(1) [OF n] packet_count(2) [OF n d(1,2)] Packet.IH Packet.hyps(2)
      by (simp add: sealed_size_def)
  next
    case False
    then show ?thesis using packet_count(3) [OF n, of "length m"] d(3) Packet.IH Packet.hyps(2)
      by (simp add: sealed_size_def)
  qed
qed

section \<open>Encryption\<close>

lemma mem_write_write_same:
  "length bs \<le> length cs \<Longrightarrow> p + length bs \<le> length mem \<Longrightarrow> mem_write (mem_write mem p bs) p cs = mem_write mem p cs"
  by (simp add: mem_write_def add.commute)

lemma mem_write_write_next:
  "p + length bs \<le> length mem \<Longrightarrow> mem_write (mem_write mem p bs) (p + length bs) cs = mem_write mem p (bs @ cs)"
  by (simp add: mem_write_def add.assoc) (simp add: add.left_commute add.commute)

text \<open>The chunk that the loop takes at an offset is the next packet.\<close>

lemma next_chunk:
  assumes "drop off xs = p @ m" "p \<noteq> []" "length p \<le> d" "m \<noteq> [] \<Longrightarrow> length p = d"
  shows "off < length xs" "(if off + d > length xs then length xs - off else d) = length p"
    "mem_read xs off (length p) = p" "drop (off + d) xs = m"
proof -
  have len: "length xs - off = length p + length m" "0 < length p"
    using assms(1,2) length_drop [of off xs] by simp_all
  then show "off < length xs" by linarith
  show "(if off + d > length xs then length xs - off else d) = length p"
    using len assms(3,4) by (cases "m = []") auto
  show "mem_read xs off (length p) = p" using assms(1) by (simp add: mem_read_def)
  have "drop (off + d) xs = drop d (p @ m)" using assms(1) by (metis drop_drop add.commute)
  then show "drop (off + d) xs = m" using assms(3,4) by (cases "m = []") simp_all
qed

lemma encrypt_step:
  assumes "drop poff pt = p @ m" "p \<noteq> []" "length c = length p + 16" "length c \<le> NOISE_MAX_PAYLOAD_LEN lib"
    "m \<noteq> [] \<Longrightarrow> length c = NOISE_MAX_PAYLOAD_LEN lib" "noise_cipherstate_get_mac_length lib tx = 16"
    "\<And>k. length c \<le> k \<Longrightarrow> noise_cipherstate_encrypt lib tx p k = (NOISE_ERROR_NONE lib, tx1, c)"
  shows "noise_encrypt_loop lib tx pt ct poff coff =
    (if coff + length c > length ct then Some (err_ENCLAVE__GENERAL__BUFFER_TOO_SMALL, tx, ct, length ct)
     else noise_encrypt_loop lib tx1 pt (mem_write ct coff c) (poff + NOISE_MAX_DATA_SIZE lib) (coff + length c))"
    "drop (poff + NOISE_MAX_DATA_SIZE lib) pt = m"
proof -
  have d: "length p \<le> NOISE_MAX_DATA_SIZE lib" "m \<noteq> [] \<Longrightarrow> length p = NOISE_MAX_DATA_SIZE lib"
    using assms(3-5) by (auto simp: NOISE_MAX_DATA_SIZE_def NOISE_MAX_PACKET_SIZE_def)
  note ch = next_chunk [OF assms(1,2) d]
  then show "drop (poff + NOISE_MAX_DATA_SIZE lib) pt = m" by blast
  show "noise_encrypt_loop lib tx pt ct poff coff =
    (if coff + length c > length ct then Some (err_ENCLAVE__GENERAL__BUFFER_TOO_SMALL, tx, ct, length ct)
     else noise_encrypt_loop lib tx1 pt (mem_write ct coff c) (poff + NOISE_MAX_DATA_SIZE lib) (coff + length c))"
    using ch(1-3) assms(3,6) assms(7) [of "length ct - coff"]
    by (subst noise_encrypt_loop.simps) (simp add: mem_read_write_same noise_errort_def mem_write_write_same add.assoc)
qed

lemma encrypt_loop_sealed:
  assumes "sealed lib tx rx m c tx' rx'"
  shows "drop poff pt = m \<Longrightarrow> coff + length c \<le> length ct \<Longrightarrow>
    noise_encrypt_loop lib tx pt ct poff coff = Some (err_SUCCESS, tx', mem_write ct coff c, coff + length c)"
  using assms
proof (induction arbitrary: poff coff ct rule: sealed.induct)
  case (Empty tx rx)
  then show ?case by (subst noise_encrypt_loop.simps) (simp add: mem_write_def)
next
  case (Packet p c m tx tx1 rx rx1 cs tx2 rx2)
  note st = encrypt_step(1) [OF Packet.prems(1) Packet.hyps(1-6), of ct coff]
    encrypt_step(2) [OF Packet.prems(1) Packet.hyps(1-6)]
  have "noise_encrypt_loop lib tx pt ct poff coff =
      Some (err_SUCCESS, tx2, mem_write (mem_write ct coff c) (coff + length c) cs, coff + length c + length cs)"
    using st(1) Packet.IH [OF st(2), of "coff + length c" "mem_write ct coff c"] Packet.prems(2) by simp
  then show ?case using Packet.prems(2) by (simp add: mem_write_write_next add.assoc)
qed

lemma encrypt_loop_small:
  assumes "sealed lib tx rx m c tx' rx'"
  shows "drop poff pt = m \<Longrightarrow> m \<noteq> [] \<Longrightarrow> coff + length c > length ct \<Longrightarrow>
    \<exists>tx1 ct1. noise_encrypt_loop lib tx pt ct poff coff = Some (err_ENCLAVE__GENERAL__BUFFER_TOO_SMALL, tx1, ct1, length ct)"
  using assms
proof (induction arbitrary: poff coff ct rule: sealed.induct)
  case (Packet p c m tx tx1 rx rx1 cs tx2 rx2)
  note st = encrypt_step(1) [OF Packet.prems(1) Packet.hyps(1-6), of ct coff]
    encrypt_step(2) [OF Packet.prems(1) Packet.hyps(1-6)]
  show ?case
  proof (cases "coff + length c > length ct")
    case True
    then show ?thesis using st(1) by simp
  next
    case False
    moreover from this have "m \<noteq> []" using Packet.prems(3) Packet.hyps(8) sealed.cases [OF Packet.hyps(8)] by fastforce
    ultimately show ?thesis
      using st(1) Packet.IH [OF st(2), of "mem_write ct coff c" "coff + length c"] Packet.prems(3) by simp
  qed
qed simp

section \<open>Decryption\<close>

text \<open>The two buffers: the same one, or disjoint, within the memory.\<close>

definition buffers_ok :: "u8 list \<Rightarrow> nat \<Rightarrow> nat \<Rightarrow> nat \<Rightarrow> nat \<Rightarrow> bool" where
  "buffers_ok mem src csize dst psize \<longleftrightarrow> src + csize \<le> length mem \<and> dst + psize \<le> length mem \<and> csize \<le> psize \<and>
     (dst = src \<or> dst + psize \<le> src \<or> src + csize \<le> dst)"

lemma decrypt_step:
  assumes ok: "buffers_ok mem src csize dst psize" and poff: "poff \<le> coff"
    and c: "mem_read mem (src + coff) (csize - coff) = c @ cs" "p \<noteq> []" "length c = length p + 16"
      "length c \<le> NOISE_MAX_PAYLOAD_LEN lib" "cs \<noteq> [] \<Longrightarrow> length c = NOISE_MAX_PAYLOAD_LEN lib"
      "\<And>k. length c \<le> k \<Longrightarrow> noise_cipherstate_decrypt lib rx c k = (NOISE_ERROR_NONE lib, rx1, p)"
  defines "mem1 \<equiv> mem_write (mem_write mem (dst + poff) c) (dst + poff) p"
  shows "noise_decrypt_loop lib rx mem src csize dst psize coff poff =
      noise_decrypt_loop lib rx1 mem1 src csize dst psize (coff + NOISE_MAX_PACKET_SIZE lib) (poff + length p)"
    "buffers_ok mem1 src csize dst psize" "length mem1 = length mem"
    "mem_read mem1 (src + (coff + NOISE_MAX_PACKET_SIZE lib)) (csize - (coff + NOISE_MAX_PACKET_SIZE lib)) = cs"
    "mem_read mem1 dst (poff + length p) = mem_read mem dst poff @ p"
    "poff + length p \<le> coff + NOISE_MAX_PACKET_SIZE lib"
proof -
  let ?t = "length c" and ?pkt = "NOISE_MAX_PACKET_SIZE lib"
  have b: "src + csize \<le> length mem" "dst + psize \<le> length mem" "csize \<le> psize"
      "dst = src \<or> dst + psize \<le> src \<or> src + csize \<le> dst"
    using ok by (simp_all add: buffers_ok_def)
  have "csize - coff = length (mem_read mem (src + coff) (csize - coff))"
    using b(1) by (cases "coff \<le> csize") simp_all
  then have len: "csize - coff = ?t + length cs" unfolding c(1) by simp
  have t: "0 < ?t" "length p \<le> ?t" using c(3) by simp_all
  have lt: "coff < csize" "coff + ?t \<le> csize" using len t by linarith+
  have ch: "(if coff + ?pkt > csize then csize - coff else ?pkt) = ?t"
    using c(4,5) len lt(2) by (cases "cs = []") (auto simp: NOISE_MAX_PACKET_SIZE_def)
  have fits: "poff + ?t \<le> psize" "dst + poff + ?t \<le> length mem" using poff lt b by linarith+
  have "mem_read mem (src + coff) ?t = take ?t (mem_read mem (src + coff) (csize - coff))"
    using len by (simp add: mem_read_def)
  then have rd: "mem_read mem (src + coff) ?t = c" unfolding c(1) by simp
  let ?m = "mem_write mem (dst + poff) c"
  have lm: "length ?m = length mem" using fits(2) by simp
  then show l1: "length mem1 = length mem" unfolding mem1_def using fits(2) t(2) by simp
  then show "buffers_ok mem1 src csize dst psize" using ok by (simp add: buffers_ok_def)
  show "poff + length p \<le> coff + ?pkt" using poff t(2) c(4) by (simp add: NOISE_MAX_PACKET_SIZE_def)
  show "noise_decrypt_loop lib rx mem src csize dst psize coff poff =
      noise_decrypt_loop lib rx1 mem1 src csize dst psize (coff + ?pkt) (poff + length p)"
    using lt(1) ch fits rd c(6) [of "psize - poff"] mem_read_write_same [of "dst + poff" c mem]
    by (subst noise_decrypt_loop.simps) (simp add: noise_errort_def mem1_def)
  have keep: "mem_read mem1 q n = mem_read mem q n" if "q + n \<le> length mem" "q + n \<le> dst + poff \<or> dst + poff + ?t \<le> q" for q n
  proof -
    have "mem_read mem1 q n = mem_read ?m q n"
      unfolding mem1_def using that fits(2) t(2) lm by (intro mem_read_write_other) linarith+
    also have "\<dots> = mem_read mem q n" using that fits(2) by (intro mem_read_write_other)
    finally show ?thesis .
  qed
  have "mem_read mem1 dst (poff + length p) = mem_read mem1 dst poff @ mem_read mem1 (dst + poff) (length p)"
    by (simp add: mem_read_append)
  also have "\<dots> = mem_read mem dst poff @ p"
    using keep [of dst poff] fits(2) t(2) mem_read_write_same [of "dst + poff" p ?m] lm by (simp add: mem1_def)
  finally show "mem_read mem1 dst (poff + length p) = mem_read mem dst poff @ p" .
  show "mem_read mem1 (src + (coff + ?pkt)) (csize - (coff + ?pkt)) = cs"
  proof (cases "cs = []")
    case True
    then show ?thesis using len c(4) by (simp add: NOISE_MAX_PACKET_SIZE_def)
  next
    case False
    then have pkt: "?t = ?pkt" using c(5) by (simp add: NOISE_MAX_PACKET_SIZE_def)
    have "mem_read mem1 (src + (coff + ?t)) (csize - (coff + ?t)) = mem_read mem (src + (coff + ?t)) (csize - (coff + ?t))"
      using b poff lt fits by (intro keep) auto
    also have "\<dots> = drop ?t (mem_read mem (src + coff) (csize - coff))"
      by (simp add: mem_read_def drop_take add.commute add.left_commute)
    finally show ?thesis unfolding c(1) pkt by (simp flip: pkt)
  qed
qed

lemma decrypt_loop_sealed:
  assumes "sealed lib tx rx m c tx' rx'"
  shows "buffers_ok mem src csize dst psize \<Longrightarrow> poff \<le> coff \<Longrightarrow> mem_read mem (src + coff) (csize - coff) = c \<Longrightarrow>
    \<exists>mem'. noise_decrypt_loop lib rx mem src csize dst psize coff poff = Some (err_SUCCESS, rx', mem', poff + length m) \<and>
      length mem' = length mem \<and> mem_read mem' dst (poff + length m) = mem_read mem dst poff @ m"
  using assms
proof (induction arbitrary: mem poff coff rule: sealed.induct)
  case (Empty tx rx)
  then have "\<not> coff < csize" by (auto simp: mem_read_def buffers_ok_def)
  then show ?case by (subst noise_decrypt_loop.simps) simp
next
  case (Packet p c m tx tx1 rx rx1 cs tx2 rx2)
  have "cs \<noteq> [] \<Longrightarrow> m \<noteq> []" using sealed.cases [OF Packet.hyps(8)] by fastforce
  then have cs: "cs \<noteq> [] \<Longrightarrow> length c = NOISE_MAX_PAYLOAD_LEN lib" using Packet.hyps(4) by blast
  note st = decrypt_step [OF Packet.prems(1,2,3) Packet.hyps(1-3) cs Packet.hyps(7)]
  show ?case using st(1) Packet.IH [OF st(2,6,4)] st(3,5) by (auto simp: add.assoc)
qed

section \<open>Results\<close>

lemma encrypt_result:
  assumes "sealed lib tx rx pt c tx' rx'"
  shows "sealed_size lib (length pt) \<le> length ct \<Longrightarrow>
      noise_encrypt_message lib tx pt ct = Some (err_SUCCESS, tx', c @ drop (length c) ct, length c)"
    "sealed_size lib (length pt) > length ct \<Longrightarrow>
      \<exists>tx1 ct1. noise_encrypt_message lib tx pt ct = Some (err_ENCLAVE__GENERAL__BUFFER_TOO_SMALL, tx1, ct1, length ct)"
proof -
  note len = length_sealed [OF assms]
  show "noise_encrypt_message lib tx pt ct = Some (err_SUCCESS, tx', c @ drop (length c) ct, length c)"
    if "sealed_size lib (length pt) \<le> length ct"
    using encrypt_loop_sealed [OF assms, of 0 pt 0 ct] that len by (simp add: noise_encrypt_message_def mem_write_def)
  show "\<exists>tx1 ct1. noise_encrypt_message lib tx pt ct = Some (err_ENCLAVE__GENERAL__BUFFER_TOO_SMALL, tx1, ct1, length ct)"
    if "sealed_size lib (length pt) > length ct"
  proof -
    have "c \<noteq> []" using that len by auto
    then have "pt \<noteq> []" using sealed.cases [OF assms] by fastforce
    then show ?thesis using encrypt_loop_small [OF assms, of 0 pt ct 0] that len by (simp add: noise_encrypt_message_def)
  qed
qed

lemma decrypt_result:
  assumes "sealed lib tx rx pt c tx' rx'" "buffers_ok mem src (length c) dst psize" "mem_read mem src (length c) = c"
  shows "\<exists>mem'. noise_decrypt_message lib rx mem src (length c) dst psize = Some (err_SUCCESS, rx', mem', length pt) \<and>
    mem_read mem' dst (length pt) = pt"
  using decrypt_loop_sealed [OF assms(1,2), of 0 0] assms(3) by (auto simp: noise_decrypt_message_def)

text \<open>The plaintext buffer must have room for a whole packet, not only for the plaintext in it.\<close>

lemma decrypt_out_of_bounds:
  assumes "0 < csize" "csize \<le> NOISE_MAX_PACKET_SIZE lib" "psize < csize"
  shows "noise_decrypt_message lib rx mem src csize dst psize = None"
  using assms unfolding noise_decrypt_message_def by (subst noise_decrypt_loop.simps) (simp add: Let_def)

text \<open>Noise codes stay in the hundred of their space.\<close>

lemma noise_errort_space:
  assumes "NOISE_ERROR_NONE lib < NOISE_ERROR_BASE lib" "NOISE_ERROR_BASE lib < e" "e < NOISE_ERROR_BASE lib + 100" "100 dvd space"
  shows "noise_errort lib space e div 100 * 100 = space" "0 < space \<Longrightarrow> noise_errort lib space e \<noteq> err_SUCCESS"
proof -
  obtain k where k: "space = 100 * k" using assms(4) by (elim dvdE)
  have e: "noise_errort lib space e = space + (e - NOISE_ERROR_BASE lib)" using assms(1,2) by (simp add: noise_errort_def)
  have "(100 * k + (e - NOISE_ERROR_BASE lib)) div 100 = k" using assms(2,3) by simp
  then show "noise_errort lib space e div 100 * 100 = space" using e k by simp
  show "noise_errort lib space e \<noteq> err_SUCCESS" if "0 < space" using that assms(2) unfolding e by simp
qed

end
