(* ===== verification/TreePath.thy ===== *)
theory TreePath
  imports Util
begin

text \<open>
  The tree of a Path ORAM (\<^verbatim>\<open>path_oram/tree_path.c\<close> and \<^verbatim>\<open>tree_path.jinc\<close>). The nodes of a binary tree
  are numbered in order: the leaves are the even numbers, and a node of level \<open>k\<close> is \<open>2^k - 1\<close> modulo
  \<open>2^(k+1)\<close>. A path leads from a leaf to the root.

  Proved: the bit operations compute the level, the parent and the span of leaves below a node, and
  a node is on the path of a leaf exactly when the leaf is in its span.
\<close>

section \<open>Definitions\<close>

text \<open>The view of \<^verbatim>\<open>tree_path.c\<close>: a node as a level and an offset in the level.\<close>

record tree_coords =
  tc_level :: size_t
  tc_offset :: size_t

definition parent :: "tree_coords \<Rightarrow> tree_coords" where
  "parent node = \<lparr>tc_level = tc_level node + 1, tc_offset = drop_bit 1 (tc_offset node)\<rparr>"

definition node_val :: "tree_coords \<Rightarrow> u64" where
  "node_val node = (
     let level_modulus = push_bit (unat (tc_level node + 1)) 1;
         level_residue = level_modulus div 2 - 1
     in level_modulus * tc_offset node + level_residue)"

definition tree_path_num_nodes :: "size_t \<Rightarrow> size_t" where
  "tree_path_num_nodes num_levels = push_bit (unat num_levels) 1 - 1"

text \<open>The instructions \<open>TZCNT\<close> and \<open>SHL\<close>; a shift count is taken modulo 64.\<close>

definition TZCNT :: "u64 \<Rightarrow> u64" where
  "TZCNT v = of_nat (length (takeWhile (\<lambda>i. \<not> bit v i) [0..<64]))"

definition SHL :: "u64 \<Rightarrow> u64 \<Rightarrow> u64" where
  "SHL x c = push_bit (unat (c AND 63)) x"

definition j_tree_level :: "u64 \<Rightarrow> u64" where
  "j_tree_level n = TZCNT (NOT n)"

definition j_coords_for_val :: "u64 \<Rightarrow> u64" where
  "j_coords_for_val val = (
     let level = j_tree_level val + 1;
         lmod = SHL 1 level;
         lres = drop_bit 1 lmod - 1
     in SHR (val - lres) level)"

definition j_node_val :: "u64 \<Rightarrow> u64 \<Rightarrow> u64" where
  "j_node_val level offset = (
     let l1 = level + 1;
         lmod = SHL 1 l1;
         lres = drop_bit 1 lmod - 1
     in lmod * offset + lres)"

text \<open>The loop of \<open>update\<close> over the levels above the leaf; the values are those from the leaf on.\<close>

fun tree_path_levels :: "nat \<Rightarrow> u64 \<Rightarrow> u64 \<Rightarrow> u64 list" where
  "tree_path_levels 0 level offset = []"
| "tree_path_levels (Suc n) level offset = (
     let offset = drop_bit 1 offset
     in j_node_val level offset # tree_path_levels n (level + 1) offset)"

definition j_tree_path_update :: "nat \<Rightarrow> u64 \<Rightarrow> u64 list" where
  "j_tree_path_update path_length leaf = leaf # tree_path_levels (path_length - 1) 1 (j_coords_for_val leaf)"

definition tree_path_create :: "nat \<Rightarrow> u64 list" where
  "tree_path_create path_length = j_tree_path_update path_length 0"

definition j_lower_bound :: "u64 \<Rightarrow> u64" where
  "j_lower_bound val = (let l = j_tree_level val in val - (SHL 1 l - 1))"

definition j_upper_bound :: "u64 \<Rightarrow> u64" where
  "j_upper_bound val = (let l = j_tree_level val in (SHL 1 l - 1) + val)"

subsection \<open>Nodes as numbers\<close>

text \<open>The node at a level and an offset, the node of the path of a position at a level, and the
  positions below a node.\<close>

definition tree_node :: "nat \<Rightarrow> nat \<Rightarrow> nat" where
  "tree_node k off = 2 ^ (k + 1) * off + (2 ^ k - 1)"

definition path_node :: "nat \<Rightarrow> nat \<Rightarrow> nat" where
  "path_node pos k = tree_node k (pos div 2 ^ k)"

definition node_covers :: "u64 \<Rightarrow> u64 \<Rightarrow> bool" where
  "node_covers val p \<longleftrightarrow> j_lower_bound val \<le> p \<and> p \<le> j_upper_bound val"

section \<open>Words\<close>

lemma takeWhile_upt:
  assumes "k < n" "\<And>i. i < k \<Longrightarrow> P i" "\<not> P k"
  shows "length (takeWhile P [0..<n]) = k"
proof -
  have "[0..<n] = [0..<k] @ [k..<n]" using upt_add_eq_append [of 0 k "n - k"] assms(1) by simp
  also have "[k..<n] = k # [Suc k..<n]" using assms(1) by (rule upt_conv_Cons)
  finally have "takeWhile P [0..<n] = [0..<k]" using assms(2,3) by (simp add: takeWhile_append)
  then show ?thesis by simp
qed

lemma div_mult_add: "r < a \<Longrightarrow> (a * q + r) div a = (q :: nat)"
  by simp

lemma pow2_Suc: "\<exists>e. (2::nat) ^ k = Suc e"
  by (metis not0_implies_Suc power_not_zero zero_neq_numeral)

lemma tree_node_bits:
  "even (tree_node k off div 2 ^ k)" "i < k \<Longrightarrow> odd (tree_node k off div 2 ^ i)"
proof -
  have "tree_node k off = 2 ^ k * (2 * off) + (2 ^ k - 1)" by (simp add: tree_node_def)
  then show "even (tree_node k off div 2 ^ k)" using div_mult_add [of "2 ^ k - 1" "2 ^ k" "2 * off"] by simp
  assume i: "i < k"
  then obtain d where d: "k = i + Suc d" using less_imp_Suc_add by auto
  obtain e f where e: "(2::nat) ^ d = Suc e" "(2::nat) ^ i = Suc f" using pow2_Suc by meson
  have "tree_node k off = 2 ^ i * (2 * (2 ^ Suc d * off + e) + 1) + f"
    unfolding tree_node_def d by (simp add: power_add e algebra_simps)
  moreover have "f < 2 ^ i" using e(2) by simp
  ultimately have "tree_node k off div 2 ^ i = 2 * (2 ^ Suc d * off + e) + 1" by (simp only: div_mult_add)
  then show "odd (tree_node k off div 2 ^ i)" by simp
qed

lemma tree_node_Suc: "Suc (tree_node k off) = 2 ^ k * (2 * off + 1)"
proof -
  obtain e where "(2::nat) ^ k = Suc e" using pow2_Suc by blast
  then show ?thesis by (simp add: tree_node_def algebra_simps)
qed

lemma tree_node_lt:
  assumes "off < 2 ^ (n - k)" "k \<le> n"
  shows "Suc (tree_node k off) < 2 ^ (n + 1)"
proof -
  have "2 ^ k * (2 * off + 1) < 2 ^ k * (2 * 2 ^ (n - k))" using assms(1) by (intro mult_less_mono2) simp_all
  also have "\<dots> = 2 ^ (n + 1)" using assms(2) by (simp flip: power_add)
  finally show ?thesis by (simp add: tree_node_Suc)
qed

lemma j_tree_level_node:
  assumes "k < 63" "tree_node k off < 2 ^ 64"
  shows "j_tree_level (of_nat (tree_node k off)) = of_nat k"
proof -
  have b: "bit (of_nat (tree_node k off) :: u64) i \<longleftrightarrow> odd (tree_node k off div 2 ^ i)" if "i < 64" for i
    using that by (simp add: bit_of_nat_iff bit_iff_odd [of "tree_node k off"])
  have "length (takeWhile (\<lambda>i. \<not> bit (NOT (of_nat (tree_node k off)) :: u64) i) [0..<64]) = k"
    using assms(1) tree_node_bits by (intro takeWhile_upt) (simp_all add: bit_not_iff b)
  then show ?thesis by (simp add: j_tree_level_def TZCNT_def)
qed

lemma unat_of_nat_small: "n < 64 \<Longrightarrow> unat (of_nat n :: u64) = n" "n < 64 \<Longrightarrow> of_nat n AND 63 = (of_nat n :: u64)"
proof -
  show u: "unat (of_nat n :: u64) = n" if "n < 64" using that by (simp add: unat_of_nat_64)
  have "n AND 63 = n" if "n < 64"
    using that take_bit_eq_mask [of 6 n] by (simp add: mask_eq_exp_minus_1 take_bit_eq_mod)
  then show "of_nat n AND 63 = (of_nat n :: u64)" if "n < 64"
    using that of_nat_and_eq [of n 63, where 'a = u64] by simp
qed

lemma SHL_1: "k < 64 \<Longrightarrow> SHL 1 (of_nat k) = 2 ^ k"
  by (simp add: SHL_def unat_of_nat_small)

lemma SHL_1_Suc: "k < 63 \<Longrightarrow> SHL 1 (of_nat k + 1) = 2 ^ (k + 1)" "k < 63 \<Longrightarrow> drop_bit 1 (2 ^ (k + 1) :: u64) = 2 ^ k"
proof -
  show "SHL 1 (of_nat k + 1) = 2 ^ (k + 1)" if "k < 63" using that SHL_1 [of "Suc k"] by (simp add: add.commute)
  show "drop_bit 1 (2 ^ (k + 1) :: u64) = 2 ^ k" if "k < 63"
  proof (rule word64_eqI)
    have "unat (2 ^ (k + 1) :: u64) = 2 ^ (k + 1)" "unat (2 ^ k :: u64) = 2 ^ k" using that by (intro unat_pow2_64; simp)+
    then show "unat (drop_bit 1 (2 ^ (k + 1) :: u64)) = unat (2 ^ k :: u64)" unfolding unat_drop_bit_64 by simp
  qed
qed

lemma of_nat_tree_node: "(of_nat (tree_node k off) :: u64) = 2 ^ (k + 1) * of_nat off + (2 ^ k - 1)"
proof -
  have "of_nat (2 ^ k - 1) = (2 ^ k - 1 :: u64)" by (simp add: of_nat_diff)
  then show ?thesis unfolding tree_node_def of_nat_add of_nat_mult by simp
qed

lemma j_node_val_eq: "k < 63 \<Longrightarrow> j_node_val (of_nat k) (of_nat off) = of_nat (tree_node k off)"
  by (simp only: j_node_val_def Let_def SHL_1_Suc of_nat_tree_node)

lemma node_val_eq:
  assumes "unat (tc_level c) < 63"
  shows "node_val c = j_node_val (tc_level c) (tc_offset c)"
proof -
  define k where "k = unat (tc_level c)"
  then have k: "tc_level c = of_nat k" "k < 63" using assms by simp_all
  have u: "unat (of_nat k + 1 :: u64) = k + 1" using k(2) unat_of_nat_small(1) [of "Suc k"] by (simp add: add.commute)
  have "push_bit (k + 1) 1 div 2 = (2 ^ k :: u64)" using SHL_1_Suc(2) [OF k(2)] by (simp add: drop_bit_eq_div)
  then show ?thesis unfolding node_val_def j_node_val_def Let_def k(1) u SHL_1_Suc [OF k(2)] by simp
qed

lemma drop_bit_of_nat: "m < 2 ^ 64 \<Longrightarrow> drop_bit k (of_nat m :: u64) = of_nat (m div 2 ^ k)"
proof (rule word64_eqI)
  assume m: "m < 2 ^ 64"
  then have "m div 2 ^ k < 2 ^ 64" using div_le_dividend le_less_trans by blast
  then show "unat (drop_bit k (of_nat m :: u64)) = unat (of_nat (m div 2 ^ k) :: u64)"
    using m by (simp add: unat_drop_bit_64 unat_of_nat_64)
qed

lemma j_coords_for_val_leaf: "x < 2 ^ 62 \<Longrightarrow> j_coords_for_val (of_nat (2 * x)) = of_nat x"
proof -
  assume x: "x < 2 ^ 62"
  have n: "tree_node 0 x = 2 * x" by (simp add: tree_node_def)
  have l: "j_tree_level (of_nat (2 * x)) = 0" using j_tree_level_node [of 0 x] x by (simp add: n)
  have "SHR (of_nat (2 * x)) 1 = of_nat x" using x by (simp add: SHR_def drop_bit_of_nat del: of_nat_mult)
  then show ?thesis using SHL_1 [of 1] by (simp add: j_coords_for_val_def l del: of_nat_mult)
qed

lemma tree_path_levels_eq:
  assumes "x < 2 ^ 62"
  shows "k + n \<le> 62 \<Longrightarrow> tree_path_levels n (of_nat (Suc k)) (of_nat (x div 2 ^ k)) = map (\<lambda>i. of_nat (path_node x i)) [Suc k..<Suc k + n]"
proof (induction n arbitrary: k)
  case (Suc n)
  have "x div 2 ^ k < 2 ^ 64" using assms le_less_trans [OF div_le_dividend [of x "2 ^ k"]] by simp
  moreover have "x div 2 ^ Suc k = x div 2 ^ k div 2" by (simp add: div_mult2_eq mult.commute flip: div_mult2_eq)
  ultimately have "drop_bit 1 (of_nat (x div 2 ^ k) :: u64) = of_nat (x div 2 ^ Suc k)"
    by (simp add: drop_bit_of_nat)
  moreover have "[Suc k..<Suc k + Suc n] = Suc k # [Suc (Suc k)..<Suc (Suc k) + n]" by (simp add: upt_conv_Cons del: upt_Suc)
  moreover have "j_node_val (of_nat (Suc k)) (of_nat (x div 2 ^ Suc k)) = of_nat (path_node x (Suc k))"
    using Suc.prems by (simp only: j_node_val_eq path_node_def)
  ultimately show ?case using Suc.IH [of "Suc k"] Suc.prems by (simp add: Let_def add.commute del: upt_Suc)
qed simp

lemma j_tree_path_update_eq:
  assumes "x < 2 ^ 62" "0 < L" "L \<le> 62"
  shows "j_tree_path_update L (of_nat (2 * x)) = map (\<lambda>k. of_nat (path_node x k)) [0..<L]"
proof -
  have "[0..<L] = 0 # [Suc 0..<Suc 0 + (L - 1)]" using assms(2) by (simp add: upt_conv_Cons del: upt_Suc)
  moreover have "path_node x 0 = 2 * x" by (simp add: path_node_def tree_node_def)
  ultimately show ?thesis using tree_path_levels_eq [OF assms(1), of 0 "L - 1"] assms(3)
    by (simp add: j_tree_path_update_def j_coords_for_val_leaf [OF assms(1)] del: upt_Suc of_nat_mult)
qed

section \<open>Spans\<close>

lemma bounds_node:
  assumes "k < 63" "tree_node k off < 2 ^ 64"
  shows "j_lower_bound (of_nat (tree_node k off)) = of_nat (2 ^ (k + 1) * off)"
    "j_upper_bound (of_nat (tree_node k off)) = of_nat (2 ^ (k + 1) * off + 2 * (2 ^ k - 1))"
proof -
  note l = j_tree_level_node [OF assms]
  have s: "SHL 1 (of_nat k) = 2 ^ k" using assms(1) by (simp add: SHL_1)
  have e: "of_nat (2 ^ (k + 1) * off + 2 * (2 ^ k - 1)) = 2 ^ (k + 1) * of_nat off + 2 * (2 ^ k - 1 :: u64)"
    unfolding of_nat_add of_nat_mult by (simp add: of_nat_diff)
  show "j_lower_bound (of_nat (tree_node k off)) = of_nat (2 ^ (k + 1) * off)"
    by (simp only: j_lower_bound_def Let_def l s) (simp add: of_nat_tree_node)
  show "j_upper_bound (of_nat (tree_node k off)) = of_nat (2 ^ (k + 1) * off + 2 * (2 ^ k - 1))"
    by (simp only: j_upper_bound_def Let_def l s e) (simp add: of_nat_tree_node)
qed

lemma of_nat_le_64: "m < 2 ^ 64 \<Longrightarrow> n < 2 ^ 64 \<Longrightarrow> (of_nat m :: u64) \<le> of_nat n \<longleftrightarrow> m \<le> n"
  by (simp add: word_le_nat_alt unat_of_nat_64)

lemma node_covers_iff:
  assumes "off < 2 ^ (62 - k)" "k \<le> 61" "q < 2 ^ 62"
  shows "node_covers (of_nat (tree_node k off)) (of_nat (2 * q)) \<longleftrightarrow> q div 2 ^ k = off"
proof -
  have "2 ^ k * Suc off \<le> 2 ^ k * 2 ^ (62 - k)" using assms(1) by (intro mult_le_mono2) simp
  also have "\<dots> = 2 ^ 62" using assms(2) by (simp flip: power_add)
  finally have b: "2 ^ k * off + 2 ^ k \<le> 2 ^ 62" by simp
  obtain e where e: "(2::nat) ^ k = Suc e" using pow2_Suc by blast
  have t: "tree_node k off < 2 ^ 64" using b e by (simp add: tree_node_def)
  have k: "k < 63" using assms(2) by simp
  have lt: "2 ^ (k + 1) * off < 2 ^ 64" "2 ^ (k + 1) * off + 2 * (2 ^ k - 1) < 2 ^ 64" "2 * q < 2 ^ 64"
    using b assms(3) e by simp_all
  have "node_covers (of_nat (tree_node k off)) (of_nat (2 * q)) \<longleftrightarrow>
      2 ^ (k + 1) * off \<le> 2 * q \<and> 2 * q \<le> 2 ^ (k + 1) * off + 2 * (2 ^ k - 1)"
    unfolding node_covers_def bounds_node [OF k t] of_nat_le_64 [OF lt(1,3)] of_nat_le_64 [OF lt(3,2)] by (rule refl)
  also have "2 ^ (k + 1) * off = 2 * (off * 2 ^ k)" by simp
  also have "2 * (off * 2 ^ k) \<le> 2 * q \<and> 2 * q \<le> 2 * (off * 2 ^ k) + 2 * (2 ^ k - 1) \<longleftrightarrow>
      off * 2 ^ k \<le> q \<and> q < off * 2 ^ k + 2 ^ k" unfolding e by linarith
  also have "\<dots> \<longleftrightarrow> q div 2 ^ k = off"
  proof
    assume "off * 2 ^ k \<le> q \<and> q < off * 2 ^ k + 2 ^ k"
    then show "q div 2 ^ k = off" by (intro div_nat_eqI) (simp_all add: mult.commute)
  next
    assume "q div 2 ^ k = off"
    then show "off * 2 ^ k \<le> q \<and> q < off * 2 ^ k + 2 ^ k"
      using div_mult_mod_eq [of q "2 ^ k"] mod_less_divisor [of "2 ^ k" q] by (metis add_le_cancel_left add_less_cancel_left le0 add.right_neutral zero_less_power zero_less_numeral)
  qed
  finally show ?thesis .
qed

lemma odd_part: "0 < n \<Longrightarrow> \<exists>k m. n = 2 ^ k * m \<and> odd (m :: nat)"
proof (induction n rule: less_induct)
  case (less n)
  show ?case
  proof (cases "odd n")
    case True
    then show ?thesis by (intro exI [of _ 0] exI [of _ n]) simp
  next
    case False
    then have "even n" by simp
    then obtain j where j: "n = 2 * j" by (elim evenE)
    then have "j < n" "0 < j" using less.prems by simp_all
    then obtain k m where "j = 2 ^ k * m" "odd m" using less.IH by blast
    then show ?thesis using j by (intro exI [of _ "Suc k"] exI [of _ m]) simp
  qed
qed

lemma tree_node_cases:
  assumes "v < 2 ^ L - 1"
  obtains k off where "v = tree_node k off" "k < L" "off < 2 ^ (L - 1 - k)"
proof -
  obtain k m where m: "Suc v = 2 ^ k * m" "odd m" using odd_part [of "Suc v"] by auto
  then obtain off where o: "m = 2 * off + 1" by (elim oddE)
  have v: "v = tree_node k off" using m o tree_node_Suc [of k off] by simp
  have lt: "2 ^ k * (2 * off + 1) < 2 ^ L" using assms m(1) unfolding o by simp
  have "k < L"
  proof (rule ccontr)
    assume "\<not> k < L"
    then have "(2::nat) ^ L \<le> 2 ^ k * 1" by simp
    also have "\<dots> \<le> 2 ^ k * (2 * off + 1)" by (intro mult_le_mono2) simp
    finally show False using lt by linarith
  qed
  moreover from this have "(2::nat) ^ L = 2 ^ k * (2 * 2 ^ (L - 1 - k))"
    by (simp flip: power_Suc power_add)
  ultimately have "k < L" "2 * off + 1 < 2 * 2 ^ (L - 1 - k)" using lt by (simp_all only: mult_less_cancel1)
  then show ?thesis using v that [of k off] by simp
qed

lemma path_node_lt:
  assumes "x < 2 ^ (L - 1)" "k < L"
  shows "path_node x k < 2 ^ L - 1" "x div 2 ^ k < 2 ^ (L - 1 - k)"
proof -
  have "(2::nat) ^ (L - 1) = 2 ^ (L - 1 - k) * 2 ^ k" using assms(2) by (simp flip: power_add)
  then show d: "x div 2 ^ k < 2 ^ (L - 1 - k)" using assms(1) by (simp add: less_mult_imp_div_less)
  have "Suc (tree_node k (x div 2 ^ k)) < 2 ^ (L - 1 + 1)" using d assms(2) by (intro tree_node_lt) simp_all
  then show "path_node x k < 2 ^ L - 1" using assms(2) by (simp add: path_node_def)
qed

lemma pow2_le_62: "L \<le> 62 \<Longrightarrow> x < 2 ^ (L - 1) \<Longrightarrow> x < (2 :: nat) ^ 62"
  by (rule less_le_trans, assumption, rule power_increasing) simp_all

text \<open>A node is on the path of a position exactly when it covers the position's leaf.\<close>

lemma on_path_iff:
  assumes "v < 2 ^ L - 1" "L \<le> 62" "x < 2 ^ (L - 1)"
  shows "node_covers (of_nat v) (of_nat (2 * x)) \<longleftrightarrow> (\<exists>k < L. v = path_node x k)"
proof -
  obtain k off where v: "v = tree_node k off" "k < L" "off < 2 ^ (L - 1 - k)" using tree_node_cases [OF assms(1)] .
  have "off < 2 ^ (62 - k)" using v(3) by (rule less_le_trans) (use assms(2) in simp)
  then have c: "node_covers (of_nat v) (of_nat (2 * x)) \<longleftrightarrow> x div 2 ^ k = off"
    unfolding v(1) using v(2) assms(2) pow2_le_62 [OF assms(2,3)] by (intro node_covers_iff) simp_all
  have u: "k' = k \<and> off' = off" if "tree_node k off = tree_node k' off'" for k' off'
  proof -
    have "\<not> k < k'" using tree_node_bits(1) [of k off] tree_node_bits(2) [of k k' off'] that by auto
    moreover have "\<not> k' < k" using tree_node_bits(1) [of k' off'] tree_node_bits(2) [of k' k off] that by auto
    ultimately have "k' = k" by simp
    moreover from this have "2 ^ k * (2 * off + 1) = 2 ^ k * (2 * off' + 1)"
      using that [symmetric] tree_node_Suc [of k off] tree_node_Suc [of k off'] by simp
    then have "off' = off" by simp
    ultimately show ?thesis by blast
  qed
  show ?thesis unfolding c path_node_def
  proof
    assume "x div 2 ^ k = off"
    then show "\<exists>k < L. v = tree_node k (x div 2 ^ k)" using v(1,2) by blast
  next
    assume "\<exists>k < L. v = tree_node k (x div 2 ^ k)"
    then obtain k' where "v = tree_node k' (x div 2 ^ k')" by blast
    then have "k' = k \<and> x div 2 ^ k' = off" using v(1) by (intro u) (rule trans [OF sym])
    then show "x div 2 ^ k = off" by auto
  qed
qed

lemma path_covers:
  assumes "x < 2 ^ (L - 1)" "q < 2 ^ (L - 1)" "L \<le> 62" "k < L"
  shows "node_covers (of_nat (path_node x k)) (of_nat (2 * q)) \<longleftrightarrow> q div 2 ^ k = x div 2 ^ k"
proof -
  have "x div 2 ^ k < 2 ^ (62 - k)" using path_node_lt(2) [OF assms(1,4)] by (rule less_le_trans) (use assms(3) in simp)
  then show ?thesis unfolding path_node_def using assms(3,4) pow2_le_62 [OF assms(3,2)] by (intro node_covers_iff) simp_all
qed

text \<open>In the view of \<^verbatim>\<open>tree_path.c\<close>, each value of the path is the parent of the one before.\<close>

definition coords_at :: "nat \<Rightarrow> nat \<Rightarrow> tree_coords" where
  "coords_at x k = \<lparr>tc_level = of_nat k, tc_offset = of_nat (x div 2 ^ k)\<rparr>"

lemma path_coords:
  assumes "x < 2 ^ 62" "k < 62"
  shows "node_val (coords_at x k) = of_nat (path_node x k)" "parent (coords_at x k) = coords_at x (Suc k)"
proof -
  have "unat (of_nat k :: u64) < 63" using assms(2) unat_of_nat_small(1) [of k] by simp
  then show "node_val (coords_at x k) = of_nat (path_node x k)"
    using assms(2) by (subst node_val_eq) (simp_all add: coords_at_def j_node_val_eq path_node_def)
  have "x div 2 ^ k < 2 ^ 64" using assms(1) le_less_trans [OF div_le_dividend [of x "2 ^ k"]] by simp
  moreover have "x div 2 ^ Suc k = x div 2 ^ k div 2" by (simp add: div_mult2_eq mult.commute flip: div_mult2_eq)
  ultimately show "parent (coords_at x k) = coords_at x (Suc k)"
    using drop_bit_of_nat [of "x div 2 ^ k" 1] by (simp add: parent_def coords_at_def add.commute numeral_2_eq_2)
qed

end
