(* ===== verification/Stash.thy ===== *)
theory Stash
  imports TreePath OSort "HOL-Library.Product_Lexorder"
begin

text \<open>
  Blocks, the bucket store and the stash of a Path ORAM (\<^verbatim>\<open>path_oram/bucket.c\<close>, \<^verbatim>\<open>stash.c\<close> and the
  Jasmin files of the same names). The bucket store is the list of the buckets of the tree, each of
  three blocks. The stash has the blocks of the current path, bucket by bucket, followed by the
  overflow; in the source both are parts of one array.

  Proved: after \<open>build_path\<close>, the stash holds the same blocks, every bucket of the path is filled, and
  every block on the path is in a bucket that covers its position.
\<close>

section \<open>Definitions\<close>

subsection \<open>Blocks and buckets\<close>

abbreviation (input) BLOCKS_PER_BUCKET :: nat where "BLOCKS_PER_BUCKET \<equiv> 3"
abbreviation (input) BLOCK_DATA_SIZE_QWORDS :: nat where "BLOCK_DATA_SIZE_QWORDS \<equiv> 168"
abbreviation (input) EMPTY_BLOCK_ID :: u64 where "EMPTY_BLOCK_ID \<equiv> UINT64_MAX"

record block =
  b_id :: u64
  b_position :: u64
  b_data :: "u64 list"

text \<open>A block whose bytes are all 255.\<close>

definition ff_block :: block where
  "ff_block = \<lparr>b_id = UINT64_MAX, b_position = UINT64_MAX, b_data = replicate BLOCK_DATA_SIZE_QWORDS UINT64_MAX\<rparr>"

definition block_is_empty :: "block \<Rightarrow> bool" where
  "block_is_empty b = (b_id b = EMPTY_BLOCK_ID)"

type_synonym bucket_store = "block list list"

definition bucket_store_create :: "size_t \<Rightarrow> bucket_store" where
  "bucket_store_create num_levels = replicate (unat (tree_path_num_nodes num_levels)) (replicate BLOCKS_PER_BUCKET ff_block)"

definition bucket_store_clear :: "bucket_store \<Rightarrow> bucket_store" where
  "bucket_store_clear store = replicate (length store) (replicate BLOCKS_PER_BUCKET ff_block)"

definition read_bucket_blocks :: "bucket_store \<Rightarrow> u64 \<Rightarrow> block list" where
  "read_bucket_blocks store bucket_id = store ! unat bucket_id"

definition write_bucket_blocks :: "bucket_store \<Rightarrow> u64 \<Rightarrow> block list \<Rightarrow> bucket_store" where
  "write_bucket_blocks store bucket_id bucket_data = store[unat bucket_id := bucket_data]"

text \<open>Copying and swapping blocks under a condition that is 0 or 1, one word at a time.\<close>

definition cond_copy_block :: "u8 \<Rightarrow> block \<Rightarrow> block \<Rightarrow> block" where
  "cond_copy_block c dst src =
     \<lparr>b_id = j_ternary c (b_id src) (b_id dst), b_position = j_ternary c (b_position src) (b_position dst),
      b_data = map2 (j_ternary c) (b_data src) (b_data dst)\<rparr>"

definition cond_swap_blocks :: "u8 \<Rightarrow> block \<Rightarrow> block \<Rightarrow> block \<times> block" where
  "cond_swap_blocks c a b = (cond_copy_block c a b, cond_copy_block c b a)"

subsection \<open>The stash\<close>

record stash =
  st_path_blocks :: "block list"
  st_overflow_blocks :: "block list"
  st_bucket_occupancy :: "u64 list"
  st_bucket_assignments :: "u64 list"

definition st_blocks :: "stash \<Rightarrow> block list" where
  "st_blocks st = st_path_blocks st @ st_overflow_blocks st"

definition stash_create :: "nat \<Rightarrow> nat \<Rightarrow> stash" where
  "stash_create path_length overflow_size = (
     let num_path_blocks = BLOCKS_PER_BUCKET * path_length
     in \<lparr>st_path_blocks = replicate num_path_blocks ff_block, st_overflow_blocks = replicate overflow_size ff_block,
         st_bucket_occupancy = replicate path_length 0,
         st_bucket_assignments = replicate (num_path_blocks + overflow_size) 0\<rparr>)"

definition stash_num_overflow_blocks :: "stash \<Rightarrow> size_t" where
  "stash_num_overflow_blocks st =
     fold (\<lambda>b result. result + U64_TERNARY (b_id b \<noteq> EMPTY_BLOCK_ID) 1 0) (st_overflow_blocks st) 0"

definition stash_clear :: "stash \<Rightarrow> error_t \<times> stash" where
  "stash_clear st = (err_SUCCESS,
     st\<lparr>st_path_blocks := replicate (length (st_path_blocks st)) ff_block,
        st_overflow_blocks := replicate (length (st_overflow_blocks st)) ff_block\<rparr>)"

text \<open>The scan from the end of the overflow for the last block that is not empty.\<close>

fun overflow_ub_loop :: "block list \<Rightarrow> nat \<Rightarrow> nat" where
  "overflow_ub_loop overflow 0 = 0"
| "overflow_ub_loop overflow (Suc i) =
     (if b_id (overflow ! i) = EMPTY_BLOCK_ID then overflow_ub_loop overflow i else Suc i)"

definition overflow_ub :: "stash \<Rightarrow> nat" where
  "overflow_ub st = overflow_ub_loop (st_overflow_blocks st) (length (st_overflow_blocks st))"

text \<open>The loop that takes the target out of a row of blocks.\<close>

fun swap_scan :: "u64 \<Rightarrow> block \<Rightarrow> block list \<Rightarrow> block \<times> block list" where
  "swap_scan target_block_id target [] = (target, [])"
| "swap_scan target_block_id target (b # bs) = (
     let (target, b) = cond_swap_blocks (of_bool (b_id b = target_block_id)) target b;
         (target, bs) = swap_scan target_block_id target bs
     in (target, b # bs))"

definition add_path_bucket :: "stash \<Rightarrow> bucket_store \<Rightarrow> u64 \<Rightarrow> u64 \<Rightarrow> block \<Rightarrow> stash \<times> block" where
  "add_path_bucket st store bucket_id target_block_id target = (
     let lvl = unat (j_tree_level bucket_id);
         bucket_blocks = read_bucket_blocks store bucket_id;
         (target, bucket_blocks) = swap_scan target_block_id target bucket_blocks;
         first = lvl * BLOCKS_PER_BUCKET
     in (st\<lparr>st_path_blocks := take first (st_path_blocks st) @ bucket_blocks @ drop (first + BLOCKS_PER_BUCKET) (st_path_blocks st)\<rparr>,
         target))"

definition scan_overflow_for_target :: "stash \<Rightarrow> u64 \<Rightarrow> block \<Rightarrow> stash \<times> block" where
  "scan_overflow_for_target st target_block_id target = (
     let ub = overflow_ub st;
         (target, scanned) = swap_scan target_block_id target (take ub (st_overflow_blocks st))
     in (st\<lparr>st_overflow_blocks := scanned @ drop ub (st_overflow_blocks st)\<rparr>, target))"

fun add_block_loop :: "block \<Rightarrow> bool \<Rightarrow> block list \<Rightarrow> bool \<times> block list" where
  "add_block_loop new_block inserted [] = (inserted, [])"
| "add_block_loop new_block inserted (b # bs) = (
     let should_insert = (b_id b = EMPTY_BLOCK_ID \<and> \<not> inserted);
         b = cond_copy_block (of_bool should_insert) b new_block;
         (inserted, bs) = add_block_loop new_block (inserted \<or> should_insert) bs
     in (inserted, b # bs))"

definition add_block :: "stash \<Rightarrow> block \<Rightarrow> error_t \<times> stash" where
  "add_block st new_block = (
     let (inserted, overflow) = add_block_loop new_block False (st_overflow_blocks st)
     in (if \<not> inserted then err_ORAM__STASH_EXHAUSTION else err_SUCCESS, st\<lparr>st_overflow_blocks := overflow\<rparr>))"

subsection \<open>Assigning blocks to buckets\<close>

text \<open>
  The body of the loop over the levels, which \<open>_assign_block_to_bucket_path\<close> and
  \<open>_assign_block_to_bucket_overflow\<close> share: whether the block is assigned, the occupancy, and its
  assignment.
\<close>

definition assign_level :: "u64 list \<Rightarrow> block \<Rightarrow> nat \<Rightarrow> bool \<times> u64 list \<times> u64 \<Rightarrow> bool \<times> u64 list \<times> u64" where
  "assign_level path b lvl = (\<lambda>(is_assigned, occupancy, assignment).
     let bucket_id = path ! lvl;
         assignable = (\<not> is_assigned \<and> j_lower_bound bucket_id \<le> b_position b \<and> b_position b \<le> j_upper_bound bucket_id \<and>
                       occupancy ! lvl < of_nat BLOCKS_PER_BUCKET \<and> b_id b \<noteq> EMPTY_BLOCK_ID)
     in (is_assigned \<or> assignable,
         occupancy[lvl := j_ternary (of_bool assignable) (occupancy ! lvl + 1) (occupancy ! lvl)],
         j_ternary (of_bool assignable) (of_nat lvl) assignment))"

definition assign_block :: "u64 list \<Rightarrow> block \<Rightarrow> nat \<Rightarrow> nat \<Rightarrow> u64 list \<times> u64 list \<Rightarrow> u64 list \<times> u64 list" where
  "assign_block path b max_level index = (\<lambda>(occupancy, assignments).
     let (is_assigned, occupancy, a) = fold (assign_level path b) [0..<max_level] (False, occupancy, assignments ! index)
     in (occupancy, assignments[index := a]))"

definition assign_block_to_bucket_path :: "stash \<Rightarrow> u64 list \<Rightarrow> nat \<Rightarrow> u64 list \<times> u64 list \<Rightarrow> u64 list \<times> u64 list" where
  "assign_block_to_bucket_path st path index =
     assign_block path (st_blocks st ! index) (index div BLOCKS_PER_BUCKET + 1) index"

definition assign_block_to_bucket_overflow ::
    "stash \<Rightarrow> u64 list \<Rightarrow> nat \<Rightarrow> nat \<Rightarrow> u64 list \<times> u64 list \<Rightarrow> u64 list \<times> u64 list" where
  "assign_block_to_bucket_overflow st path path_length index = (
     let assignment_index = BLOCKS_PER_BUCKET * path_length + index
     in assign_block path (st_blocks st ! assignment_index) path_length assignment_index)"

definition place_level :: "block \<Rightarrow> nat \<Rightarrow> bool \<times> u64 list \<times> u64 \<Rightarrow> bool \<times> u64 list \<times> u64" where
  "place_level b j = (\<lambda>(found_curr_bucket, occupancy, assignment).
     let place_here = (occupancy ! j \<noteq> of_nat BLOCKS_PER_BUCKET \<and> \<not> found_curr_bucket);
         found_curr_bucket = (found_curr_bucket \<or> place_here);
         place_here = (place_here \<and> b_id b = EMPTY_BLOCK_ID)
     in (found_curr_bucket,
         occupancy[j := j_ternary (of_bool place_here) (occupancy ! j + 1) (occupancy ! j)],
         j_ternary (of_bool place_here) (of_nat j) assignment))"

definition place_empty_block :: "nat \<Rightarrow> stash \<Rightarrow> nat \<Rightarrow> u64 list \<times> u64 list \<Rightarrow> u64 list \<times> u64 list" where
  "place_empty_block path_length st i = (\<lambda>(occupancy, assignments).
     let (found, occupancy, a) = fold (place_level (st_blocks st ! i)) [0..<path_length] (False, occupancy, assignments ! i)
     in (occupancy, assignments[i := a]))"

definition place_empty_blocks :: "nat \<Rightarrow> stash \<Rightarrow> u64 list \<times> u64 list \<Rightarrow> u64 list \<times> u64 list" where
  "place_empty_blocks path_length st = fold (place_empty_block path_length st) [0..<length (st_blocks st)]"

definition assign_buckets :: "stash \<Rightarrow> u64 list \<Rightarrow> nat \<Rightarrow> u64 list \<times> u64 list" where
  "assign_buckets st path path_length = (
     let oa = (replicate path_length 0, replicate (length (st_blocks st)) UINT64_MAX);
         oa = fold (assign_block_to_bucket_path st path) [0..<BLOCKS_PER_BUCKET * path_length] oa;
         oa = fold (assign_block_to_bucket_overflow st path path_length) [0..<overflow_ub st] oa
     in place_empty_blocks path_length st oa)"

subsection \<open>Sorting\<close>

text \<open>The comparison of \<open>_comp_and_swap\<close>: by assignment, then by position.\<close>

definition comp_blocks :: "u64 \<times> block \<Rightarrow> u64 \<times> block \<Rightarrow> bool" where
  "comp_blocks x y = (fst x = fst y \<and> b_position (snd y) < b_position (snd x) \<or> fst x > fst y)"

definition odd_even_msort :: "(u64 \<times> block) list \<Rightarrow> nat \<Rightarrow> nat \<Rightarrow> (u64 \<times> block) list" where
  "odd_even_msort rows lb ub = osort comp_blocks lb ub rows"

definition build_path :: "stash \<Rightarrow> u64 list \<Rightarrow> nat \<Rightarrow> stash" where
  "build_path st path path_length = (
     let (occupancy, assignments) = assign_buckets st path path_length;
         overflow_size = overflow_ub st + path_length * BLOCKS_PER_BUCKET;
         rows = odd_even_msort (zip assignments (st_blocks st)) 0 overflow_size;
         blocks = map snd rows;
         num_path = length (st_path_blocks st)
     in st\<lparr>st_path_blocks := take num_path blocks, st_overflow_blocks := drop num_path blocks,
           st_bucket_occupancy := occupancy, st_bucket_assignments := map fst rows\<rparr>)"

section \<open>Blocks\<close>

definition block_ok :: "block \<Rightarrow> bool" where
  "block_ok b \<longleftrightarrow> length (b_data b) = BLOCK_DATA_SIZE_QWORDS"

lemma block_ok_ff [simp]: "block_ok ff_block" "b_id ff_block = UINT64_MAX"
  by (simp_all add: block_ok_def ff_block_def)

lemma map2_const: "length xs = length ys \<Longrightarrow> map2 (\<lambda>x y. x) xs ys = xs" "length xs = length ys \<Longrightarrow> map2 (\<lambda>x y. y) xs ys = ys"
  by (induction xs ys rule: list_induct2) simp_all

lemma cond_copy_block_if:
  assumes "block_ok dst" "block_ok src"
  shows "cond_copy_block (of_bool c) dst src = (if c then src else dst)"
proof -
  have "j_ternary (of_bool c) = (\<lambda>x y. if c then x else y)" by (simp add: fun_eq_iff ct_simps)
  then show ?thesis using assms unfolding cond_copy_block_def by (cases c) (simp_all add: block_ok_def map2_const)
qed

lemma cond_swap_blocks_if:
  "block_ok a \<Longrightarrow> block_ok b \<Longrightarrow> cond_swap_blocks (of_bool c) a b = (if c then (b, a) else (a, b))"
  by (simp add: cond_swap_blocks_def cond_copy_block_if)

text \<open>Taking the target out of a row where it occurs at most once: an empty block goes in its place.\<close>

lemma swap_scan_absent:
  assumes "\<forall>b \<in> set bs. block_ok b \<and> b_id b \<noteq> t" "block_ok target"
  shows "swap_scan t target bs = (target, bs)"
  using assms
proof (induction bs)
  case (Cons b bs)
  then show ?case using cond_swap_blocks_if [of target b "b_id b = t"] by simp
qed simp

lemma swap_scan_found:
  assumes "\<forall>b \<in> set (xs @ ys). block_ok b \<and> b_id b \<noteq> t" "block_ok target" "block_ok x" "b_id x = t"
  shows "swap_scan t target (xs @ x # ys) = (x, xs @ target # ys)"
  using assms
proof (induction xs)
  case Nil
  then show ?case using cond_swap_blocks_if [of target x True] swap_scan_absent [of ys t x] by simp
next
  case (Cons b xs)
  then show ?case using cond_swap_blocks_if [of target b "b_id b = t"] by simp
qed

lemma swap_scan_append:
  "swap_scan t target (xs @ ys) = (let (tg, xs') = swap_scan t target xs; (tg, ys') = swap_scan t tg ys in (tg, xs' @ ys'))"
  by (induction xs arbitrary: target) (simp_all add: Let_def split: prod.split)

lemma add_block_loop_inserted:
  "\<forall>b \<in> set bs. block_ok b \<Longrightarrow> block_ok nb \<Longrightarrow> add_block_loop nb True bs = (True, bs)"
proof (induction bs)
  case (Cons b bs)
  then show ?case using cond_copy_block_if [of b nb False] by simp
qed simp

lemma add_block_loop_first:
  assumes "\<forall>b \<in> set (xs @ ys). block_ok b" "\<forall>b \<in> set xs. \<not> block_is_empty b" "block_is_empty x" "block_ok x" "block_ok nb"
  shows "add_block_loop nb False (xs @ x # ys) = (True, xs @ nb # ys)"
  using assms
proof (induction xs)
  case Nil
  then show ?case using cond_copy_block_if [of x nb True] add_block_loop_inserted [of ys nb] by (simp add: block_is_empty_def)
next
  case (Cons b xs)
  then show ?case using cond_copy_block_if [of b nb False] by (simp add: block_is_empty_def)
qed

lemma add_block_loop_full:
  assumes "\<forall>b \<in> set bs. block_ok b \<and> \<not> block_is_empty b" "block_ok nb"
  shows "add_block_loop nb False bs = (False, bs)"
  using assms
proof (induction bs)
  case (Cons b bs)
  then show ?case using cond_copy_block_if [of b nb False] by (simp add: block_is_empty_def)
qed simp

lemma overflow_ub_loop_le: "overflow_ub_loop bs n \<le> n"
  by (induction n) auto

lemma overflow_ub_loop_empty: "overflow_ub_loop bs n \<le> i \<Longrightarrow> i < n \<Longrightarrow> block_is_empty (bs ! i)"
  by (induction n) (auto simp: block_is_empty_def less_Suc_eq split: if_splits)

lemma overflow_ub_le: "overflow_ub st \<le> length (st_overflow_blocks st)"
  by (simp add: overflow_ub_def overflow_ub_loop_le)

lemma overflow_ub_empty: "b \<in> set (drop (overflow_ub st) (st_overflow_blocks st)) \<Longrightarrow> block_is_empty b"
  using overflow_ub_loop_empty [of "st_overflow_blocks st" "length (st_overflow_blocks st)"]
  by (auto simp: in_set_conv_nth overflow_ub_def)

section \<open>Assignment\<close>

lemma assign_level_alt:
  "assign_level path b lvl (asd, occ, a) =
     (if \<not> asd \<and> node_covers (path ! lvl) (b_position b) \<and> occ ! lvl < 3 \<and> \<not> block_is_empty b
      then (True, occ[lvl := occ ! lvl + 1], of_nat lvl) else (asd, occ, a))"
  by (auto simp: assign_level_def node_covers_def block_is_empty_def ct_simps Let_def)

definition can_assign :: "u64 list \<Rightarrow> block \<Rightarrow> u64 list \<Rightarrow> nat \<Rightarrow> bool" where
  "can_assign path b occ l \<longleftrightarrow> node_covers (path ! l) (b_position b) \<and> occ ! l < 3 \<and> \<not> block_is_empty b"

lemma fold_assign_level:
  "fold (assign_level path b) [0..<m] (False, occ, a) =
     (if \<exists>l < m. can_assign path b occ l
      then let l = (LEAST l. can_assign path b occ l) in (True, occ[l := occ ! l + 1], of_nat l)
      else (False, occ, a))"
proof (induction m)
  case (Suc m)
  show ?case
  proof (cases "\<exists>l < m. can_assign path b occ l")
    case True
    then show ?thesis using Suc by (auto simp: assign_level_alt Let_def less_Suc_eq)
  next
    case False
    have "(LEAST l. can_assign path b occ l) = m" if "can_assign path b occ m"
      using that False by (intro Least_equality) (auto simp: not_less [symmetric])
    then show ?thesis using Suc False by (auto simp: assign_level_alt can_assign_def less_Suc_eq)
  qed
qed simp

lemma assign_block_cases:
  obtains (none) "\<And>l. l < m \<Longrightarrow> \<not> can_assign path b occ l" "assign_block path b m i (occ, asg) = (occ, asg[i := asg ! i])"
  | (some) l where "l < m" "can_assign path b occ l" "assign_block path b m i (occ, asg) = (occ[l := occ ! l + 1], asg[i := of_nat l])"
proof (cases "\<exists>l < m. can_assign path b occ l")
  case True
  let ?l = "LEAST l. can_assign path b occ l"
  have "can_assign path b occ ?l" "?l < m" using True by (meson LeastI, meson Least_le le_less_trans)
  then show ?thesis using True by (intro some [of ?l]) (auto simp: assign_block_def fold_assign_level Let_def)
next
  case False
  then show ?thesis by (intro none) (auto simp: assign_block_def fold_assign_level)
qed

lemma list_update_same: "xs ! i = a \<Longrightarrow> xs[i := a] = xs"
  by (metis list_update_id)

lemma fold_place_level:
  "fold (place_level b) [0..<m] (False, occ, a) =
     (if \<exists>l < m. occ ! l \<noteq> 3
      then let l = (LEAST l. occ ! l \<noteq> 3) in
        (True, if block_is_empty b then occ[l := occ ! l + 1] else occ, if block_is_empty b then of_nat l else a)
      else (False, occ, a))"
proof (induction m)
  case (Suc m)
  have alt: "place_level b j (f, oc, c) = (if oc ! j \<noteq> 3 \<and> \<not> f then
      (True, if block_is_empty b then oc[j := oc ! j + 1] else oc, if block_is_empty b then of_nat j else c) else (f, oc, c))" for j f oc c
    by (auto simp: place_level_def block_is_empty_def ct_simps Let_def list_update_same)
  show ?case
  proof (cases "\<exists>l < m. occ ! l \<noteq> 3")
    case True
    then show ?thesis using Suc by (auto simp: alt Let_def less_Suc_eq)
  next
    case False
    have "(LEAST l. occ ! l \<noteq> 3) = m" if "occ ! m \<noteq> 3"
      using that False by (intro Least_equality) (auto simp: not_less [symmetric])
    then show ?thesis using Suc False by (auto simp: alt less_Suc_eq)
  qed
qed simp

lemma place_empty_cases:
  obtains (none) "\<not> block_is_empty (st_blocks st ! i) \<or> (\<forall>l < m. occ ! l = 3)"
      "place_empty_block m st i (occ, asg) = (occ, asg[i := asg ! i])"
  | (some) l where "l < m" "occ ! l \<noteq> 3" "block_is_empty (st_blocks st ! i)"
      "place_empty_block m st i (occ, asg) = (occ[l := occ ! l + 1], asg[i := of_nat l])"
proof (cases "block_is_empty (st_blocks st ! i) \<and> (\<exists>l < m. occ ! l \<noteq> 3)")
  case True
  let ?l = "LEAST l. occ ! l \<noteq> 3"
  have "occ ! ?l \<noteq> 3" "?l < m" using True by (metis (mono_tags, lifting) LeastI, meson Least_le le_less_trans)
  then show ?thesis using True by (intro some [of ?l]) (auto simp: place_empty_block_def fold_place_level Let_def)
next
  case False
  then show ?thesis by (intro none) (auto simp: place_empty_block_def fold_place_level Let_def)
qed

subsection \<open>The occupancy counts the assignments\<close>

lemma count_list_update:
  "i < length xs \<Longrightarrow> count_list (xs[i := a]) y + of_bool (xs ! i = y) = count_list xs y + of_bool (a = y)"
proof (induction xs arbitrary: i)
  case (Cons x xs)
  then show ?case by (cases i) auto
qed simp

lemma of_nat_64_inj: "k < 63 \<Longrightarrow> l < 63 \<Longrightarrow> (of_nat k :: u64) = of_nat l \<longleftrightarrow> k = l"
proof
  assume a: "k < 63" "l < 63" "(of_nat k :: u64) = of_nat l"
  then have "unat (of_nat k :: u64) = unat (of_nat l :: u64)" by simp
  moreover have "unat (of_nat k :: u64) = k" "unat (of_nat l :: u64) = l" using a(1,2) by (intro unat_of_nat_small; simp)+
  ultimately show "k = l" by simp
qed simp

lemma of_nat_64_max: "l < 63 \<Longrightarrow> (of_nat l :: u64) \<noteq> UINT64_MAX"
proof
  assume "l < 63" "(of_nat l :: u64) = UINT64_MAX"
  then have "l = unat (UINT64_MAX)" using unat_of_nat_small(1) [of l] by simp
  then show False using \<open>l < 63\<close> by (simp add: unsigned_minus_1_eq_mask mask_eq_exp_minus_1)
qed

text \<open>
  \<open>assignment_ok\<close>: each level's occupancy is the number of blocks assigned to it, at most 3; an
  assigned block is empty or covered by its bucket.
\<close>

definition assignment_ok :: "u64 list \<Rightarrow> nat \<Rightarrow> block list \<Rightarrow> u64 list \<times> u64 list \<Rightarrow> bool" where
  "assignment_ok path L bs = (\<lambda>(occ, asg). length occ = L \<and> length asg = length bs \<and>
     (\<forall>l < L. unat (occ ! l) = count_list asg (of_nat l) \<and> unat (occ ! l) \<le> 3) \<and>
     (\<forall>i < length bs. asg ! i = UINT64_MAX \<or>
        (\<exists>l < L. asg ! i = of_nat l \<and> (block_is_empty (bs ! i) \<or> node_covers (path ! l) (b_position (bs ! i))))))"

lemma assignment_okD:
  assumes "assignment_ok path L bs (occ, asg)"
  shows "length occ = L" "length asg = length bs" "l < L \<Longrightarrow> unat (occ ! l) = count_list asg (of_nat l)" "l < L \<Longrightarrow> unat (occ ! l) \<le> 3"
    "i < length bs \<Longrightarrow> asg ! i \<noteq> UINT64_MAX \<Longrightarrow>
      \<exists>l < L. asg ! i = of_nat l \<and> (block_is_empty (bs ! i) \<or> node_covers (path ! l) (b_position (bs ! i)))"
  using assms by (auto simp: assignment_ok_def)

lemma assignment_ok_step:
  assumes ok: "assignment_ok path L bs (occ, asg)" and L: "L < 63" and i: "i < length bs" "asg ! i = UINT64_MAX"
    and l: "l < L" "unat (occ ! l) < 3" "block_is_empty (bs ! i) \<or> node_covers (path ! l) (b_position (bs ! i))"
  shows "assignment_ok path L bs (occ[l := occ ! l + 1], asg[i := of_nat l])"
proof -
  note D = assignment_okD [OF ok]
  have u: "unat (occ ! l + 1) = unat (occ ! l) + 1" using l(2) by (subst unat_add_64) simp_all
  have c: "count_list (asg[i := of_nat l]) (of_nat k) = count_list asg (of_nat k) + of_bool (k = l)" if "k < L" for k
    using count_list_update [of i asg "of_nat l" "of_nat k"] i D(2) of_nat_64_max [of k] of_nat_64_inj [of k l] L l(1) that by auto
  have 1: "unat (occ[l := occ ! l + 1] ! k) = count_list (asg[i := of_nat l]) (of_nat k) \<and> unat (occ[l := occ ! l + 1] ! k) \<le> 3"
    if "k < L" for k
    using c [OF that] D(1) D(3,4) [OF that] u l(1,2) by (auto simp: nth_list_update)
  have 2: "asg[i := of_nat l] ! j = UINT64_MAX \<or>
      (\<exists>k < L. asg[i := of_nat l] ! j = of_nat k \<and> (block_is_empty (bs ! j) \<or> node_covers (path ! k) (b_position (bs ! j))))"
    if "j < length bs" for j
    using D(2) D(5) [OF that] l(1,3) that by (cases "j = i") auto
  show ?thesis unfolding assignment_ok_def prod.case using 1 2 D(1,2)
    by (intro conjI allI impI) (simp, simp, blast+)
qed

lemma occ_less_3: "(x :: u64) < 3 \<longleftrightarrow> unat x < 3"
  by (simp add: word_less_nat_alt)

text \<open>Phase 1: every block of the path is assigned, to its own level at the latest.\<close>

definition path_phase :: "u64 list \<Rightarrow> nat \<Rightarrow> block list \<Rightarrow> nat \<Rightarrow> u64 list \<times> u64 list \<Rightarrow> bool" where
  "path_phase path L bs i = (\<lambda>(occ, asg). assignment_ok path L bs (occ, asg) \<and>
     (\<forall>l < L. unat (occ ! l) \<le> i - 3 * l) \<and> (\<forall>j < length bs. i \<le> j \<longrightarrow> asg ! j = UINT64_MAX) \<and>
     (\<forall>j < length bs. block_is_empty (bs ! j) \<longrightarrow> asg ! j = UINT64_MAX) \<and>
     (\<forall>j < i. \<not> block_is_empty (bs ! j) \<longrightarrow> asg ! j \<noteq> UINT64_MAX))"

lemma path_phase_step:
  assumes ph: "path_phase path L bs i (occ, asg)" and L: "L < 63" and i: "i < 3 * L" "i < length bs"
    and cov: "\<not> block_is_empty (bs ! i) \<Longrightarrow> node_covers (path ! (i div 3)) (b_position (bs ! i))"
  shows "path_phase path L bs (Suc i) (assign_block path (bs ! i) (i div 3 + 1) i (occ, asg))"
proof -
  have P: "assignment_ok path L bs (occ, asg)" "\<And>l. l < L \<Longrightarrow> unat (occ ! l) \<le> i - 3 * l"
      "\<And>j. j < length bs \<Longrightarrow> i \<le> j \<Longrightarrow> asg ! j = UINT64_MAX"
      "\<And>j. j < length bs \<Longrightarrow> block_is_empty (bs ! j) \<Longrightarrow> asg ! j = UINT64_MAX"
      "\<And>j. j < i \<Longrightarrow> \<not> block_is_empty (bs ! j) \<Longrightarrow> asg ! j \<noteq> UINT64_MAX"
    using ph by (auto simp: path_phase_def)
  note D = assignment_okD [OF P(1)]
  have dL: "i div 3 < L" using i(1) by (simp add: less_mult_imp_div_less mult.commute)
  show ?thesis
  proof (rule assign_block_cases [of "i div 3 + 1" path "bs ! i" occ i asg])
    assume none: "\<And>l. l < i div 3 + 1 \<Longrightarrow> \<not> can_assign path (bs ! i) occ l"
      and r: "assign_block path (bs ! i) (i div 3 + 1) i (occ, asg) = (occ, asg[i := asg ! i])"
    have "unat (occ ! (i div 3)) \<le> i - 3 * (i div 3)" using P(2) [OF dL] .
    moreover have "i - 3 * (i div 3) < 3" by (simp add: minus_mult_div_eq_mod)
    ultimately have "unat (occ ! (i div 3)) < 3" by (rule le_less_trans)
    then have e: "block_is_empty (bs ! i)" using none [of "i div 3"] cov by (auto simp: can_assign_def occ_less_3)
    have "unat (occ ! l) \<le> Suc i - 3 * l" if "l < L" for l using P(2) [OF that] by (rule order_trans) simp
    then show ?thesis unfolding r using P e by (auto simp: path_phase_def less_Suc_eq)
  next
    fix l assume l: "l < i div 3 + 1" "can_assign path (bs ! i) occ l"
      and r: "assign_block path (bs ! i) (i div 3 + 1) i (occ, asg) = (occ[l := occ ! l + 1], asg[i := of_nat l])"
    have lL: "l < L" using l(1) dL by simp
    have ca: "unat (occ ! l) < 3" "\<not> block_is_empty (bs ! i)" "node_covers (path ! l) (b_position (bs ! i))"
      using l(2) by (simp_all add: can_assign_def occ_less_3)
    have ok: "assignment_ok path L bs (occ[l := occ ! l + 1], asg[i := of_nat l])"
      using assignment_ok_step [OF P(1) L i(2) P(3) [OF i(2) order_refl] lL ca(1)] ca(3) by blast
    have u: "unat (occ ! l + 1) = unat (occ ! l) + 1" using ca(1) by (subst unat_add_64) simp_all
    have "3 * l \<le> i" using l(1) by simp
    then have "unat (occ[l := occ ! l + 1] ! k) \<le> Suc i - 3 * k" if "k < L" for k
      using P(2) [OF that] P(2) [OF lL] u D(1) that by (cases "k = l") (simp_all add: Suc_diff_le)
    then show ?thesis unfolding r using ok P(3-5) ca(2) D(2) i(2) of_nat_64_max [of l] lL L
      by (auto simp: path_phase_def nth_list_update)
  qed
qed

text \<open>Phase 2: blocks of the overflow.\<close>

definition overflow_phase :: "u64 list \<Rightarrow> nat \<Rightarrow> block list \<Rightarrow> nat \<Rightarrow> u64 list \<times> u64 list \<Rightarrow> bool" where
  "overflow_phase path L bs i = (\<lambda>(occ, asg). assignment_ok path L bs (occ, asg) \<and>
     (\<forall>j < length bs. i \<le> j \<longrightarrow> asg ! j = UINT64_MAX) \<and>
     (\<forall>j < length bs. block_is_empty (bs ! j) \<longrightarrow> asg ! j = UINT64_MAX) \<and>
     (\<forall>j < 3 * L. \<not> block_is_empty (bs ! j) \<longrightarrow> asg ! j \<noteq> UINT64_MAX))"

lemma overflow_phase_step:
  assumes ph: "overflow_phase path L bs i (occ, asg)" and L: "L < 63" and i: "3 * L \<le> i" "i < length bs"
  shows "overflow_phase path L bs (Suc i) (assign_block path (bs ! i) L i (occ, asg))"
proof -
  have P: "assignment_ok path L bs (occ, asg)" "\<And>j. j < length bs \<Longrightarrow> i \<le> j \<Longrightarrow> asg ! j = UINT64_MAX"
      "\<And>j. j < length bs \<Longrightarrow> block_is_empty (bs ! j) \<Longrightarrow> asg ! j = UINT64_MAX"
      "\<And>j. j < 3 * L \<Longrightarrow> \<not> block_is_empty (bs ! j) \<Longrightarrow> asg ! j \<noteq> UINT64_MAX"
    using ph by (auto simp: overflow_phase_def)
  show ?thesis
  proof (rule assign_block_cases [of L path "bs ! i" occ i asg])
    assume r: "assign_block path (bs ! i) L i (occ, asg) = (occ, asg[i := asg ! i])"
    show ?thesis unfolding r using P by (simp add: overflow_phase_def)
  next
    fix l assume l: "l < L" "can_assign path (bs ! i) occ l"
      and r: "assign_block path (bs ! i) L i (occ, asg) = (occ[l := occ ! l + 1], asg[i := of_nat l])"
    have ca: "unat (occ ! l) < 3" "\<not> block_is_empty (bs ! i)" "node_covers (path ! l) (b_position (bs ! i))"
      using l(2) by (simp_all add: can_assign_def occ_less_3)
    have ok: "assignment_ok path L bs (occ[l := occ ! l + 1], asg[i := of_nat l])"
      using assignment_ok_step [OF P(1) L i(2) P(2) [OF i(2) order_refl] l(1) ca(1)] ca(3) by blast
    show ?thesis unfolding r using ok P(2-4) ca(2) i assignment_okD(2) [OF P(1)] by (auto simp: overflow_phase_def nth_list_update)
  qed
qed

text \<open>Phase 3: the empty blocks of the path fill what is left.\<close>

lemma sum_count_list:
  assumes "inj_on f {..<L :: nat}"
  shows "(\<Sum>l < L. count_list xs (f l)) = length (filter (\<lambda>x. x \<in> f ` {..<L}) xs)"
proof (induction xs)
  case (Cons x xs)
  have "(\<Sum>l < L. count_list (x # xs) (f l)) = (\<Sum>l < L. count_list xs (f l) + of_bool (f l = x))"
    by (intro sum.cong) auto
  also have "\<dots> = (\<Sum>l < L. count_list xs (f l)) + (\<Sum>l < L. of_bool (f l = x))" by (simp add: sum.distrib)
  also have "(\<Sum>l < L. of_bool (f l = x)) = (of_bool (x \<in> f ` {..<L}) :: nat)"
  proof (cases "x \<in> f ` {..<L}")
    case True
    then obtain k where k: "k < L" "x = f k" by auto
    have "(\<Sum>l < L. of_bool (f l = x)) = (\<Sum>l < L. if l = k then 1 else 0 :: nat)"
      using assms k by (intro sum.cong) (auto dest: inj_onD)
    then show ?thesis using True k by simp
  qed (auto intro!: sum.neutral)
  finally show ?case using Cons by simp
qed simp

lemma length_filter_ge:
  assumes "\<And>j. j < m \<Longrightarrow> P (xs ! j)" "m \<le> length xs"
  shows "m \<le> length (filter P xs)"
proof -
  have "filter P (take m xs) = take m xs" using assms by (auto simp: filter_id_conv in_set_conv_nth)
  then have "length (filter P (take m xs @ drop m xs)) = m + length (filter P (drop m xs))"
    using assms(2) by (simp only: filter_append length_append) simp
  then show ?thesis by simp
qed

lemma all_assigned_full:
  assumes ok: "assignment_ok path L bs (occ, asg)" and L: "L < 63" "3 * L \<le> length bs"
    and all: "\<And>j. j < 3 * L \<Longrightarrow> asg ! j \<noteq> UINT64_MAX" and l: "l < L"
  shows "unat (occ ! l) = 3"
proof (rule ccontr)
  note D = assignment_okD [OF ok]
  assume "unat (occ ! l) \<noteq> 3"
  then have "(\<Sum>k < L. unat (occ ! k)) < (\<Sum>k < L. 3)"
    using D(4) l by (intro sum_strict_mono_ex1) (auto simp: order.strict_iff_order)
  moreover have "(\<Sum>k < L. unat (occ ! k)) = (\<Sum>k < L. count_list asg (of_nat k))" using D(3) by (intro sum.cong) auto
  moreover have "inj_on (of_nat :: nat \<Rightarrow> u64) {..<L}" using L(1) of_nat_64_inj by (auto intro!: inj_onI)
  then have "(\<Sum>k < L. count_list asg (of_nat k)) = length (filter (\<lambda>x. x \<in> of_nat ` {..<L}) asg)" by (rule sum_count_list)
  moreover have "3 * L \<le> length (filter (\<lambda>x. x \<in> of_nat ` {..<L}) asg)"
  proof (rule length_filter_ge)
    fix j assume j: "j < 3 * L"
    then have "j < length bs" using L(2) by simp
    then obtain k where "k < L" "asg ! j = of_nat k" using D(5) all [OF j] by blast
    then show "asg ! j \<in> of_nat ` {..<L}" by blast
  qed (simp add: D(2) L(2))
  ultimately show False by simp
qed

definition place_phase :: "u64 list \<Rightarrow> nat \<Rightarrow> block list \<Rightarrow> nat \<Rightarrow> nat \<Rightarrow> u64 list \<times> u64 list \<Rightarrow> bool" where
  "place_phase path L bs n i = (\<lambda>(occ, asg). assignment_ok path L bs (occ, asg) \<and>
     (\<forall>j < length bs. n \<le> j \<longrightarrow> asg ! j = UINT64_MAX) \<and>
     (\<forall>j < length bs. i \<le> j \<longrightarrow> block_is_empty (bs ! j) \<longrightarrow> asg ! j = UINT64_MAX) \<and>
     (\<forall>j < 3 * L. \<not> block_is_empty (bs ! j) \<longrightarrow> asg ! j \<noteq> UINT64_MAX) \<and>
     (\<forall>j < 3 * L. j < i \<longrightarrow> asg ! j \<noteq> UINT64_MAX \<or> (\<forall>l < L. occ ! l = 3)))"

lemma place_phase_full:
  assumes ph: "place_phase path L bs n i (occ, asg)" and L: "L < 63" "3 * L \<le> length bs" "3 * L \<le> i"
  shows "\<forall>l < L. occ ! l = 3"
proof (rule ccontr)
  assume nf: "\<not> (\<forall>l < L. occ ! l = 3)"
  have ok: "assignment_ok path L bs (occ, asg)" using ph by (simp add: place_phase_def)
  have "asg ! j \<noteq> UINT64_MAX" if "j < 3 * L" for j using ph nf that L(3) unfolding place_phase_def by fastforce
  then have "unat (occ ! l) = 3" if "l < L" for l using all_assigned_full [OF ok L(1,2) _ that] by blast
  then have "occ ! l = 3" if "l < L" for l using that by (intro word64_eqI) simp
  then show False using nf by blast
qed

lemma place_phase_step:
  assumes ph: "place_phase path L (st_blocks st) n i (occ, asg)" and L: "L < 63" "3 * L \<le> n" and i: "i < length (st_blocks st)"
    and full: "n \<le> i \<Longrightarrow> \<forall>l < L. occ ! l = 3"
  shows "place_phase path L (st_blocks st) n (Suc i) (place_empty_block L st i (occ, asg))"
proof -
  let ?bs = "st_blocks st"
  have P: "assignment_ok path L ?bs (occ, asg)" "\<And>j. j < length ?bs \<Longrightarrow> n \<le> j \<Longrightarrow> asg ! j = UINT64_MAX"
      "\<And>j. j < length ?bs \<Longrightarrow> i \<le> j \<Longrightarrow> block_is_empty (?bs ! j) \<Longrightarrow> asg ! j = UINT64_MAX"
      "\<And>j. j < 3 * L \<Longrightarrow> \<not> block_is_empty (?bs ! j) \<Longrightarrow> asg ! j \<noteq> UINT64_MAX"
      "\<And>j. j < 3 * L \<Longrightarrow> j < i \<Longrightarrow> asg ! j \<noteq> UINT64_MAX \<or> (\<forall>l < L. occ ! l = 3)"
    using ph by (auto simp: place_phase_def)
  note D = assignment_okD [OF P(1)]
  show ?thesis
  proof (rule place_empty_cases [of st i L occ asg])
    assume e: "\<not> block_is_empty (?bs ! i) \<or> (\<forall>l < L. occ ! l = 3)"
      and r: "place_empty_block L st i (occ, asg) = (occ, asg[i := asg ! i])"
    have "asg ! j \<noteq> UINT64_MAX \<or> (\<forall>l < L. occ ! l = 3)" if "j < 3 * L" "j < Suc i" for j
      using that P(4,5) e by (cases "j = i") auto
    then show ?thesis unfolding r using P(1-4) by (simp add: place_phase_def)
  next
    fix l assume l: "l < L" "occ ! l \<noteq> 3" and e: "block_is_empty (?bs ! i)"
      and r: "place_empty_block L st i (occ, asg) = (occ[l := occ ! l + 1], asg[i := of_nat l])"
    have "unat (occ ! l) \<noteq> 3" using l(2) word64_eqI [of "occ ! l" 3] by auto
    then have lt: "unat (occ ! l) < 3" using D(4) [OF l(1)] by simp
    have n: "i < n" using full l by (meson not_less)
    have ok: "assignment_ok path L ?bs (occ[l := occ ! l + 1], asg[i := of_nat l])"
      using assignment_ok_step [OF P(1) L(1) i P(3) [OF i order_refl e] l(1) lt] e by blast
    have m: "(of_nat l :: u64) \<noteq> UINT64_MAX" using of_nat_64_max l(1) L(1) by simp
    have "asg[i := of_nat l] ! j \<noteq> UINT64_MAX" if "j < 3 * L" "j < Suc i" for j
      using that P(5) [of j] l m D(2) i by (cases "j = i") auto
    then show ?thesis unfolding r using ok P(2-4) e n m D(2) i by (auto simp: place_phase_def nth_list_update)
  qed
qed

lemma fold_upt_inv:
  assumes "J a s" "\<And>i s. a \<le> i \<Longrightarrow> i < b \<Longrightarrow> J i s \<Longrightarrow> J (Suc i) (f i s)" "a \<le> b"
  shows "J b (fold f [a..<b] s)"
  using assms(3,2)
proof (induction b rule: dec_induct)
  case base
  then show ?case using assms(1) by simp
next
  case (step b)
  then show ?case by simp
qed

text \<open>All three phases: every level gets three blocks, and none from above the last block of the overflow.\<close>

lemma assign_buckets_result:
  assumes L: "L < 63" "length (st_path_blocks st) = 3 * L"
    and cov: "\<And>i. i < 3 * L \<Longrightarrow> \<not> block_is_empty (st_blocks st ! i) \<Longrightarrow> node_covers (path ! (i div 3)) (b_position (st_blocks st ! i))"
  obtains occ asg where "assign_buckets st path L = (occ, asg)" "assignment_ok path L (st_blocks st) (occ, asg)"
    "\<And>l. l < L \<Longrightarrow> occ ! l = 3" "\<And>j. 3 * L + overflow_ub st \<le> j \<Longrightarrow> j < length (st_blocks st) \<Longrightarrow> asg ! j = UINT64_MAX"
proof -
  let ?bs = "st_blocks st" and ?n = "3 * L + overflow_ub st"
  have n: "?n \<le> length ?bs" using overflow_ub_le [of st] L(2) by (simp add: st_blocks_def)
  have 0: "path_phase path L ?bs 0 (replicate L 0, replicate (length ?bs) UINT64_MAX)"
    using of_nat_64_max L(1) by (auto simp: path_phase_def assignment_ok_def count_list_0_iff)
  define a1 where "a1 = fold (assign_block_to_bucket_path st path) [0..<3 * L] (replicate L 0, replicate (length ?bs) UINT64_MAX)"
  have 1: "path_phase path L ?bs (3 * L) a1"
    unfolding a1_def
  proof (rule fold_upt_inv [where J = "path_phase path L ?bs", OF 0])
    fix i s assume "i < 3 * L" "path_phase path L ?bs i s"
    then show "path_phase path L ?bs (Suc i) (assign_block_to_bucket_path st path i s)"
      using path_phase_step [of path L ?bs i "fst s" "snd s"] L n cov
      by (cases s) (simp add: assign_block_to_bucket_path_def)
  qed simp
  define a2 where "a2 = fold (assign_block_to_bucket_overflow st path L) [0..<overflow_ub st] a1"
  have 2: "overflow_phase path L ?bs (3 * L + overflow_ub st) a2"
    unfolding a2_def
  proof (rule fold_upt_inv [where J = "\<lambda>i. overflow_phase path L ?bs (3 * L + i)"])
    show "overflow_phase path L ?bs (3 * L + 0) a1" using 1 by (auto simp: path_phase_def overflow_phase_def)
    fix i s assume "i < overflow_ub st" "overflow_phase path L ?bs (3 * L + i) s"
    then show "overflow_phase path L ?bs (3 * L + Suc i) (assign_block_to_bucket_overflow st path L i s)"
      using overflow_phase_step [of path L ?bs "3 * L + i" "fst s" "snd s"] L n
      by (cases s) (simp add: assign_block_to_bucket_overflow_def Let_def)
  qed simp
  have 3: "place_phase path L ?bs ?n (length ?bs) (place_empty_blocks L st a2)"
    unfolding place_empty_blocks_def
  proof (rule fold_upt_inv [where J = "place_phase path L ?bs ?n"])
    show "place_phase path L ?bs ?n 0 a2" using 2 by (auto simp: overflow_phase_def place_phase_def)
    fix i s assume i: "i < length ?bs" "place_phase path L ?bs ?n i s"
    obtain occ asg where s: "s = (occ, asg)" by (cases s)
    show "place_phase path L ?bs ?n (Suc i) (place_empty_block L st i s)"
      using i n L(1) unfolding s by (intro place_phase_step) (auto dest: place_phase_full)
  qed simp
  obtain occ asg where r: "place_empty_blocks L st a2 = (occ, asg)" by (cases "place_empty_blocks L st a2")
  have "\<forall>l < L. occ ! l = 3" using 3 L(1) n unfolding r by (intro place_phase_full [of path L ?bs ?n "length ?bs"]) simp_all
  moreover have "assign_buckets st path L = (occ, asg)"
    using r by (simp add: assign_buckets_def a1_def [symmetric] a2_def [symmetric] Let_def)
  ultimately show ?thesis using that [of occ asg] 3 unfolding r by (simp add: place_phase_def)
qed

section \<open>Sorting by assignment\<close>

interpretation block_sort: sort_order comp_blocks "\<lambda>(a, b). (a, b_position b)"
  by unfold_locales (auto simp: comp_blocks_def less_prod_def split: prod.splits)

lemma sorted_less_iff:
  assumes "sorted xs" "i < length xs"
  shows "xs ! i < (l :: 'a::linorder) \<longleftrightarrow> i < length (filter (\<lambda>x. x < l) xs)"
  using assms
proof (induction xs arbitrary: i)
  case (Cons x xs)
  show ?case
  proof (cases "x < l")
    case True
    then show ?thesis using Cons by (cases i) auto
  next
    case False
    then have "\<forall>y \<in> set (x # xs). \<not> y < l" using Cons.prems(1) by auto
    moreover have "(x # xs) ! i \<in> set (x # xs)" using Cons.prems(2) by (rule nth_mem)
    ultimately have "\<not> (x # xs) ! i < l" "filter (\<lambda>x. x < l) (x # xs) = []" by (blast, simp add: filter_empty_conv)
    then show ?thesis by simp
  qed
qed simp

lemma sorted_count_nth:
  fixes xs :: "nat list"
  assumes "sorted xs" "\<And>l. l < L \<Longrightarrow> count_list xs l = c" "i < c * L"
  shows "xs ! i = i div c" "i < length xs"
proof -
  have len: "length (filter (\<lambda>x. x < l) xs) = c * l" if "l \<le> L" for l
    using sum_count_list [of "\<lambda>x. x" l xs] assms(2) that by (simp add: inj_on_def mult.commute)
  have "length (filter (\<lambda>x. x < L) xs) \<le> length xs" by simp
  then show i: "i < length xs" using assms(3) len [of L] by simp
  have c: "0 < c" using assms(3) by (cases c) simp_all
  have d: "i div c < L" using assms(3) by (simp add: less_mult_imp_div_less mult.commute)
  have "xs ! i < Suc (i div c)" "\<not> xs ! i < i div c"
    using d c len [of "Suc (i div c)"] len [of "i div c"] unfolding sorted_less_iff [OF assms(1) i]
    by (simp_all add: dividend_less_times_div not_less)
  then show "xs ! i = i div c" by simp
qed

lemma count_list_unat: "l < 63 \<Longrightarrow> count_list (map unat xs) l = count_list xs (of_nat l :: u64)"
proof (induction xs)
  case (Cons x xs)
  have "unat (of_nat l :: u64) = l" using Cons.prems by (intro unat_of_nat_small) simp
  then have "unat x = l \<longleftrightarrow> x = of_nat l" using word64_eqI [of x "of_nat l"] by auto
  then show ?case using Cons by simp
qed simp

lemma count_list_mset: "mset xs = mset ys \<Longrightarrow> count_list xs a = count_list ys a"
  by (metis count_mset count_list_eq_length_filter)

text \<open>What an assignment says of a row: the level it is assigned to covers its position.\<close>

definition row_ok :: "u64 list \<Rightarrow> nat \<Rightarrow> u64 \<times> block \<Rightarrow> bool" where
  "row_ok path L = (\<lambda>(a, b). a = UINT64_MAX \<or> (\<exists>l < L. a = of_nat l \<and> (block_is_empty b \<or> node_covers (path ! l) (b_position b))))"

lemma sorted_rows_levels:
  fixes rows :: "(u64 \<times> block) list"
  assumes L: "L < 63" and n: "n \<le> length rows"
    and cnt: "\<And>l. l < L \<Longrightarrow> count_list (map fst rows) (of_nat l) = 3"
    and rest: "\<And>j. n \<le> j \<Longrightarrow> j < length rows \<Longrightarrow> fst (rows ! j) = UINT64_MAX" and i: "i < 3 * L"
  shows "i < n \<and> unat (fst (odd_even_msort rows 0 n ! i)) = i div 3"
proof -
  let ?r = "odd_even_msort rows 0 n"
  let ?xs = "map (unat \<circ> fst) (take n ?r)"
  have "sorted (map (\<lambda>(a, b). (a, b_position b)) (take n ?r))"
    using block_sort.osort_sorted [OF n, of 0] by (simp add: odd_even_msort_def)
  then have "sorted ?xs" unfolding sorted_map by (rule sorted_wrt_mono_rel [rotated]) (auto simp: word_le_nat_alt less_eq_prod_def word_less_nat_alt)
  moreover have "count_list ?xs l = 3" if "l < L" for l
  proof -
    have "fst x \<noteq> of_nat l" if "x \<in> set (drop n rows)" for x
      using that rest of_nat_64_max [of l] L \<open>l < L\<close> by (auto simp: in_set_conv_nth)
    then have nd: "count_list (map fst (drop n rows)) (of_nat l) = 0"
      unfolding count_list_0_iff set_map image_iff by metis
    have "mset (take n ?r) = mset (take n rows)" using block_sort.osort_mset [OF _ n, of 0] by (simp add: odd_even_msort_def)
    then have "mset (map fst (take n ?r)) = mset (map fst (take n rows))" by (simp add: mset_map)
    then have "count_list (map fst (take n ?r)) (of_nat l) = count_list (map fst (take n rows)) (of_nat l)" by (rule count_list_mset)
    also have "\<dots> = count_list (map fst (take n rows @ drop n rows)) (of_nat l)"
      unfolding map_append count_list_append nd by simp
    also have "\<dots> = 3" using cnt [OF that] by simp
    finally show ?thesis using count_list_unat [of l "map fst (take n ?r)"] L that by simp
  qed
  ultimately have "?xs ! i = i div 3" "i < length ?xs" using sorted_count_nth [of ?xs L 3 i] i by auto
  then show ?thesis by simp
qed

theorem build_path_result:
  assumes L: "L < 63" "length (st_path_blocks st) = 3 * L"
    and cov: "\<And>i. i < 3 * L \<Longrightarrow> \<not> block_is_empty (st_path_blocks st ! i) \<Longrightarrow> node_covers (path ! (i div 3)) (b_position (st_path_blocks st ! i))"
  defines "st' \<equiv> build_path st path L"
  shows "mset (st_blocks st') = mset (st_blocks st)"
    "length (st_path_blocks st') = 3 * L" "length (st_overflow_blocks st') = length (st_overflow_blocks st)"
    "i < 3 * L \<Longrightarrow> \<not> block_is_empty (st_path_blocks st' ! i) \<Longrightarrow> node_covers (path ! (i div 3)) (b_position (st_path_blocks st' ! i))"
    "length (st_bucket_occupancy st') = L" "length (st_bucket_assignments st') = length (st_blocks st)"
proof -
  let ?bs = "st_blocks st" and ?n = "3 * L + overflow_ub st"
  have cov': "node_covers (path ! (i div 3)) (b_position (?bs ! i))" if "i < 3 * L" "\<not> block_is_empty (?bs ! i)" for i
    using cov [OF that(1)] that L(2) by (simp add: st_blocks_def nth_append)
  obtain occ asg where a: "assign_buckets st path L = (occ, asg)" "assignment_ok path L ?bs (occ, asg)"
      "\<And>l. l < L \<Longrightarrow> occ ! l = 3" "\<And>j. ?n \<le> j \<Longrightarrow> j < length ?bs \<Longrightarrow> asg ! j = UINT64_MAX"
    using assign_buckets_result [OF L cov'] by blast
  note D = assignment_okD [OF a(2)]
  define rows where "rows = zip asg ?bs"
  define r where "r = odd_even_msort rows 0 ?n"
  have st': "st' = st\<lparr>st_path_blocks := take (3 * L) (map snd r), st_overflow_blocks := drop (3 * L) (map snd r),
      st_bucket_occupancy := occ, st_bucket_assignments := map fst r\<rparr>"
    unfolding st'_def build_path_def a(1) by (simp add: Let_def rows_def r_def L(2) ac_simps)
  have n: "?n \<le> length rows" using overflow_ub_le [of st] L(2) D(2) by (simp add: st_blocks_def rows_def)
  have mr: "mset r = mset rows"
    using osort_permutes [OF n, of 0 comp_blocks] by (simp add: r_def odd_even_msort_def permutes_range_def)
  have len: "length r = length ?bs" using D(2) by (simp add: r_def odd_even_msort_def rows_def)
  have "mset (map snd r) = mset (map snd rows)" using mr by (simp add: mset_map)
  then show "mset (st_blocks st') = mset ?bs" using D(2) by (simp add: st' st_blocks_def rows_def flip: mset_append)
  show "length (st_path_blocks st') = 3 * L" "length (st_overflow_blocks st') = length (st_overflow_blocks st)"
      "length (st_bucket_occupancy st') = L" "length (st_bucket_assignments st') = length (st_blocks st)"
    using len L(2) D(1) by (simp_all add: st' st_blocks_def)
  assume i: "i < 3 * L" and ne: "\<not> block_is_empty (st_path_blocks st' ! i)"
  have "row_ok path L x" if x: "x \<in> set rows" for x
  proof -
    obtain j where "j < length ?bs" "x = (asg ! j, ?bs ! j)" using x D(2) by (auto simp: rows_def in_set_zip prod_eq_iff)
    then show ?thesis using D(5) [of j] unfolding row_ok_def by auto
  qed
  moreover have "set r = set rows" using mr by (rule mset_eq_setD)
  moreover have ir: "i < length r" using i len L(2) by (simp add: st_blocks_def)
  ultimately have rk: "row_ok path L (r ! i)" using nth_mem by blast
  have lev: "unat (fst (r ! i)) = i div 3"
    using sorted_rows_levels [OF L(1) n, of i] i a(3,4) D(2,3) unfolding r_def by (simp add: rows_def)
  obtain ai bi where ri: "r ! i = (ai, bi)" by (cases "r ! i")
  have b: "st_path_blocks st' ! i = bi" using i ir ri by (simp add: st')
  have "ai \<noteq> UINT64_MAX" using lev ri L(1) i by (auto simp: unsigned_minus_1_eq_mask mask_eq_exp_minus_1)
  then obtain l where l: "l < L" "ai = of_nat l" "node_covers (path ! l) (b_position bi)"
    using rk ne b ri by (auto simp: row_ok_def)
  have "l = i div 3" using lev ri l(1,2) L(1) unat_of_nat_small(1) [of l] by simp
  then show "node_covers (path ! (i div 3)) (b_position (st_path_blocks st' ! i))" using l(3) b by simp
qed

end
