(* ===== verification/PathOram.thy ===== *)
theory PathOram
  imports Stash Complex_Main
begin

text \<open>
  The access of a Path ORAM to one path of its tree (\<^verbatim>\<open>path_oram/path_oram.jinc\<close>, steps 4 to 7 of
  \<open>access\<close>, \<open>position_map_put\<close> and \<open>_oram_access\<close>). The blocks of the path are read into the stash,
  the target is taken out, its data given to an accessor, the target is put back with a new position,
  and the path is rebuilt and written back.

  Proved: under the invariant of the tree, the accessor gets the data stored for the target, the new
  data is stored and that of no other block changes, and the invariant holds for the new position. An
  access fails exactly when the overflow of the stash is full and the target is not in it.
\<close>

section \<open>Definitions\<close>

text \<open>
  \<open>oram_statistics\<close> of \<^verbatim>\<open>util/statistics.h\<close>. A \<open>double\<close> is a real number: its rounding is not modelled.
\<close>

record oram_statistics =
  os_recursion_depth :: size_t
  os_access_count :: size_t
  os_stash_overflow_count :: size_t
  os_max_stash_overflow_count :: size_t
  os_sum_stash_overflow_count :: size_t
  os_stash_overflow_ema10k :: real
  os_posmap_stash_overflow_count :: size_t
  os_posmap_max_stash_overflow_count :: size_t
  os_posmap_sum_stash_overflow_count :: size_t
  os_posmap_stash_overflow_ema10k :: real

text \<open>The fields of \<open>struct oram\<close> other than the position map.\<close>

record oram_state =
  or_bucket_store :: bucket_store
  or_stash :: stash
  or_path :: "u64 list"
  or_capacity_blocks :: size_t
  or_statistics :: oram_statistics

definition read_path_for_block :: "bucket_store \<Rightarrow> stash \<Rightarrow> u64 list \<Rightarrow> u64 \<Rightarrow> block \<Rightarrow> u64 \<Rightarrow> stash \<times> block" where
  "read_path_for_block store st path target_block_id target new_position = (
     let (st, target) = fold (\<lambda>bucket_id (st, target). add_path_bucket st store bucket_id target_block_id target) path (st, target);
         (st, target) = scan_overflow_for_target st target_block_id target
     in (st, target\<lparr>b_id := target_block_id, b_position := new_position\<rparr>))"

text \<open>The loop that writes the path back; \<open>path_blocks\<close> advances by a bucket each time.\<close>

fun write_path :: "bucket_store \<Rightarrow> u64 list \<Rightarrow> block list \<Rightarrow> bucket_store" where
  "write_path store [] path_blocks = store"
| "write_path store (bucket_id # path) path_blocks =
     write_path (write_bucket_blocks store bucket_id (take BLOCKS_PER_BUCKET path_blocks)) path (drop BLOCKS_PER_BUCKET path_blocks)"

text \<open>
  Steps 4 to 7 for the accessor \<open>f\<close>, which gets the data of the target and gives the new data and a
  result. \<open>x\<close> is the old position of the block, \<open>new_position\<close> the new one, as the position map has them.
\<close>

definition path_access ::
    "nat \<Rightarrow> u64 \<Rightarrow> u64 \<Rightarrow> u64 \<Rightarrow> (u64 list \<Rightarrow> u64 list \<times> 'r) \<Rightarrow> oram_state \<Rightarrow> error_t \<times> 'r \<times> oram_state" where
  "path_access path_length block_id x new_position f orm = (
     let target_block = ff_block;
         x = x * 2;
         path = j_tree_path_update path_length x;
         new_position = new_position * 2;
         (st, target_block) = read_path_for_block (or_bucket_store orm) (or_stash orm) path block_id target_block new_position;
         (data, out) = f (b_data target_block);
         target_block = target_block\<lparr>b_data := data\<rparr>;
         (abort, st) = add_block st target_block
     in if abort = 0 then
          let st = build_path st path path_length;
              store = write_path (or_bucket_store orm) path (st_path_blocks st)
          in (abort, out, orm\<lparr>or_stash := st, or_path := path, or_bucket_store := store\<rparr>)
        else (abort, out, orm\<lparr>or_stash := st, or_path := path\<rparr>))"

subsection \<open>Contents and invariant\<close>

text \<open>The blocks an ORAM holds, and the data it stores for an id: bytes of 255 for an id never written.\<close>

definition oram_blocks :: "oram_state \<Rightarrow> block list" where
  "oram_blocks orm = concat (or_bucket_store orm) @ st_overflow_blocks (or_stash orm)"

definition content_of :: "block list \<Rightarrow> u64 \<Rightarrow> u64 list" where
  "content_of bs i =
     (case find (\<lambda>b. b_id b = i) bs of None \<Rightarrow> replicate BLOCK_DATA_SIZE_QWORDS UINT64_MAX | Some b \<Rightarrow> b_data b)"

definition oram_content :: "oram_state \<Rightarrow> u64 \<Rightarrow> u64 list" where
  "oram_content orm = content_of (oram_blocks orm)"

text \<open>No id but that of the empty block occurs twice.\<close>

definition unique_ids :: "block list \<Rightarrow> bool" where
  "unique_ids bs \<longleftrightarrow> distinct (filter (\<lambda>i. i \<noteq> EMPTY_BLOCK_ID) (map b_id bs))"

definition oram_inv :: "nat \<Rightarrow> nat \<Rightarrow> (u64 \<Rightarrow> u64) \<Rightarrow> oram_state \<Rightarrow> bool" where
  "oram_inv L N pos orm \<longleftrightarrow>
     0 < L \<and> L \<le> 62 \<and> N < 2 ^ 64 \<and> length (or_bucket_store orm) = 2 ^ L - 1 \<and>
     (\<forall>bucket \<in> set (or_bucket_store orm). length bucket = BLOCKS_PER_BUCKET) \<and>
     length (st_path_blocks (or_stash orm)) = BLOCKS_PER_BUCKET * L \<and>
     (\<forall>b \<in> set (oram_blocks orm). block_ok b) \<and>
     unique_ids (oram_blocks orm) \<and>
     (\<forall>b \<in> set (oram_blocks orm). \<not> block_is_empty b \<longrightarrow>
        unat (b_id b) < N \<and> unat (pos (b_id b)) < 2 ^ (L - 1) \<and> b_position b = pos (b_id b) * 2) \<and>
     (\<forall>v < length (or_bucket_store orm). \<forall>b \<in> set (or_bucket_store orm ! v).
        \<not> block_is_empty b \<longrightarrow> node_covers (of_nat v) (b_position b))"

text \<open>
  \<open>oram_inv L N pos\<close>: a tree of \<open>L\<close> levels, the ids of blocks below \<open>N\<close>, the position of each block the one
  \<open>pos\<close> gives, and each block of the tree in a bucket on the path of its position.
\<close>

section \<open>Unique ids\<close>

text \<open>The blocks that are not empty, counted.\<close>

definition live :: "block list \<Rightarrow> block multiset" where
  "live bs = filter_mset (\<lambda>b. \<not> block_is_empty b) (mset bs)"

lemma live_append [simp]: "live (xs @ ys) = live xs + live ys" "live [] = {#}"
  "live (b # bs) = (if block_is_empty b then {#} else {#b#}) + live bs"
  by (simp_all add: live_def)

lemma in_live: "b \<in># live bs \<longleftrightarrow> b \<in> set bs \<and> \<not> block_is_empty b"
  by (simp add: live_def)

lemma unique_ids_live: "unique_ids bs \<longleftrightarrow> (\<forall>i. count (image_mset b_id (live bs)) i \<le> 1)"
proof -
  have "mset (filter (\<lambda>i. i \<noteq> UINT64_MAX) (map b_id bs)) = image_mset b_id (live bs)"
    by (induction bs) (simp_all add: live_def block_is_empty_def)
  then have c: "count (mset (filter (\<lambda>i. i \<noteq> UINT64_MAX) (map b_id bs))) i = count (image_mset b_id (live bs)) i" for i by simp
  show ?thesis unfolding unique_ids_def distinct_count_atmost_1 c by (auto simp: count_eq_zero_iff c [symmetric] le_Suc_eq simp flip: count_greater_zero_iff)
qed

lemma unique_ids_mono: "unique_ids bs \<Longrightarrow> live cs \<subseteq># live bs \<Longrightarrow> unique_ids cs"
  unfolding unique_ids_live by (meson image_mset_subseteq_mono mset_subset_eq_count order_trans)

lemma unique_ids_cong: "live bs = live cs \<Longrightarrow> unique_ids bs = unique_ids cs"
  by (simp add: unique_ids_live)

lemma unique_ids_eq:
  assumes "unique_ids bs" "b \<in># live bs" "c \<in># live bs" "b_id b = b_id c"
  shows "b = c"
proof (rule ccontr)
  assume "b \<noteq> c"
  then have "{#b, c#} \<subseteq># live bs" using assms(2,3) by (simp add: insert_subset_eq_iff in_diff_count)
  then have "image_mset b_id {#b, c#} \<subseteq># image_mset b_id (live bs)" by (rule image_mset_subseteq_mono)
  then have "count (image_mset b_id {#b, c#}) (b_id c) \<le> count (image_mset b_id (live bs)) (b_id c)" by (rule mset_subset_eq_count)
  moreover have "count (image_mset b_id (live bs)) (b_id c) \<le> 1" using assms(1) by (simp add: unique_ids_live)
  ultimately show False using assms(4) by simp
qed

lemma content_of_present:
  assumes "unique_ids bs" "b \<in># live bs"
  shows "content_of bs (b_id b) = b_data b"
proof -
  have b: "b \<in> set bs" "b_id b \<noteq> UINT64_MAX" using assms(2) by (simp_all add: in_live block_is_empty_def)
  then obtain c where c: "find (\<lambda>c. b_id c = b_id b) bs = Some c" by (cases "find (\<lambda>c. b_id c = b_id b) bs") (auto simp: find_None_iff)
  then have "c \<in> set bs" "b_id c = b_id b" by (auto simp: find_Some_iff)
  then have "c = b" using assms b by (intro unique_ids_eq [OF assms(1) _ assms(2)]) (simp_all add: in_live block_is_empty_def)
  then show ?thesis using c by (simp add: content_of_def)
qed

lemma content_of_absent: "(\<And>b. b \<in># live bs \<Longrightarrow> b_id b \<noteq> i) \<Longrightarrow> i \<noteq> UINT64_MAX \<Longrightarrow> content_of bs i = replicate 168 UINT64_MAX"
proof -
  assume "\<And>b. b \<in># live bs \<Longrightarrow> b_id b \<noteq> i" "i \<noteq> UINT64_MAX"
  then have "find (\<lambda>b. b_id b = i) bs = None" by (auto simp: find_None_iff in_live block_is_empty_def)
  then show ?thesis by (simp add: content_of_def)
qed

text \<open>One block with the id \<open>t\<close> replaced by another, or added.\<close>

lemma replace_block:
  assumes u: "unique_ids bs" and new: "b_id nb = t" "t \<noteq> UINT64_MAX" and R: "live bs = R + tg" "live cs = R + {#nb#}"
    and t: "\<And>b. b \<in># R \<Longrightarrow> b_id b \<noteq> t" "\<And>b. b \<in># tg \<Longrightarrow> b_id b = t"
  shows "unique_ids cs" "i \<noteq> UINT64_MAX \<Longrightarrow> content_of cs i = (if i = t then b_data nb else content_of bs i)"
proof -
  have "count (image_mset b_id R) i \<le> 1" for i
    using u [unfolded unique_ids_live R(1), rule_format, of i] by simp
  moreover have "count (image_mset b_id R) t = 0" using t(1) by (auto simp: count_eq_zero_iff)
  ultimately show u': "unique_ids cs" unfolding unique_ids_live R(2) using new(1) by (simp add: le_Suc_eq)
  assume i: "i \<noteq> UINT64_MAX"
  show "content_of cs i = (if i = t then b_data nb else content_of bs i)"
  proof (cases "i = t \<or> (\<exists>b \<in># R. b_id b = i)")
    case True
    then show ?thesis
    proof (elim disjE bexE)
      assume "i = t"
      then show ?thesis using content_of_present [OF u', of nb] R(2) new(1) by simp
    next
      fix b assume b: "b \<in># R" "b_id b = i"
      then show ?thesis using t(1) [OF b(1)] content_of_present [OF u', of b] content_of_present [OF u, of b] R by simp
    qed
  next
    case False
    have "content_of cs i = replicate 168 UINT64_MAX" "content_of bs i = replicate 168 UINT64_MAX"
      using False R t(2) new(1) i by (auto intro!: content_of_absent)
    then show ?thesis using False by simp
  qed
qed

section \<open>Rows of buckets\<close>

lemma nth_concat_even:
  assumes "\<forall>xs \<in> set xss. length xs = c" "i < c * length xss"
  shows "concat xss ! i = xss ! (i div c) ! (i mod c)"
  using assms
proof (induction xss arbitrary: i)
  case (Cons xs xss)
  show ?case
  proof (cases "i < c")
    case True
    then show ?thesis using Cons.prems by (simp add: nth_append)
  next
    case False
    then have "concat xss ! (i - c) = xss ! ((i - c) div c) ! ((i - c) mod c)" using Cons by (intro Cons.IH) auto
    moreover have "0 < c" using Cons.prems(2) by (cases c) auto
    ultimately show ?thesis using False Cons.prems by (simp add: nth_append le_div_geq le_mod_geq)
  qed
qed simp

lemma length_concat_even: "\<forall>xs \<in> set xss. length xs = c \<Longrightarrow> length (concat xss) = c * length xss"
  by (induction xss) simp_all

lemma length_swap_scan: "swap_scan t target bs = (tg, bs') \<Longrightarrow> length bs' = length bs"
  by (induction bs arbitrary: target tg bs') (auto simp: Let_def split: prod.splits)

lemma pow2_lt_64: "L \<le> 62 \<Longrightarrow> (2 :: nat) ^ L - 1 < 2 ^ 64"
proof -
  assume "L \<le> 62"
  then have "(2 :: nat) ^ L \<le> 2 ^ 62" by (intro power_increasing) simp_all
  then show ?thesis by simp
qed

lemma swap_scan_ok:
  "\<forall>b \<in> set bs. block_ok b \<Longrightarrow> block_ok target \<Longrightarrow> swap_scan t target bs = (tg, bs') \<Longrightarrow> block_ok tg"
proof (induction bs arbitrary: target bs')
  case (Cons b bs)
  then show ?case using cond_swap_blocks_if [of target b "b_id b = t"] by (auto simp: Let_def split: prod.splits if_splits)
qed simp

text \<open>Reading the path fills the path blocks, bucket by bucket.\<close>

lemma read_path_fold:
  assumes x: "x < 2 ^ (L - 1)" "L \<le> 62" and store: "length store = 2 ^ L - 1" "\<forall>bucket \<in> set store. length bucket = 3"
    and st: "length (st_path_blocks st) = 3 * L" and n: "n \<le> L"
    and scan: "swap_scan t target (concat (map (\<lambda>k. store ! path_node x k) [0..<n])) = (tg, bs)"
  shows "fold (\<lambda>bucket_id (st, target). add_path_bucket st store bucket_id t target) (map (\<lambda>k. of_nat (path_node x k)) [0..<n]) (st, target) =
     (st\<lparr>st_path_blocks := bs @ drop (3 * n) (st_path_blocks st)\<rparr>, tg)"
  using n scan
proof (induction n arbitrary: tg bs)
  case 0
  then show ?case by simp
next
  case (Suc n)
  let ?v = "path_node x n"
  obtain tg1 bs1 where 1: "swap_scan t target (concat (map (\<lambda>k. store ! path_node x k) [0..<n])) = (tg1, bs1)" by fastforce
  obtain tg2 bs2 where 2: "swap_scan t tg1 (store ! ?v) = (tg2, bs2)" by fastforce
  have r: "tg = tg2" "bs = bs1 @ bs2" using Suc.prems(2) 1 2 by (simp_all add: swap_scan_append)
  have in_store: "\<forall>k \<le> n. store ! path_node x k \<in> set store"
    using path_node_lt(1) [OF x(1)] Suc.prems(1) store(1) by (auto intro!: nth_mem)
  have len: "length bs1 = 3 * n" "length bs2 = 3"
    using length_swap_scan [OF 1] length_swap_scan [OF 2] in_store store(2) length_concat_even [of "map (\<lambda>k. store ! path_node x k) [0..<n]" 3] by auto
  have v: "?v < 2 ^ L - 1" using path_node_lt(1) [OF x(1), of n] Suc.prems(1) by simp
  then have v64: "?v < 2 ^ 64" using pow2_lt_64 [OF x(2)] by simp
  have lvl: "unat (j_tree_level (of_nat ?v)) = n"
    using j_tree_level_node [of n "x div 2 ^ n"] v64 Suc.prems(1) x(2) by (simp add: path_node_def unat_of_nat_small)
  show ?case
    using Suc.IH [OF _ 1] Suc.prems(1) 2 len st v64
    by (simp add: add_path_bucket_def lvl read_bucket_blocks_def unat_of_nat_64 r Let_def)
qed

text \<open>Writing the path back replaces its buckets and no other.\<close>

lemma mset_concat_update: "i < length xss \<Longrightarrow> mset (concat (xss[i := ys])) + mset (xss ! i) = mset (concat xss) + mset ys"
proof -
  assume i: "i < length xss"
  have "xss = take i xss @ xss ! i # drop (Suc i) xss" using i by (rule id_take_nth_drop)
  then have "mset (concat xss) = mset (concat (take i xss)) + mset (xss ! i) + mset (concat (drop (Suc i) xss))"
    by (metis concat.simps(2) concat_append mset_append union_assoc)
  then show ?thesis using i by (simp add: upd_conv_take_nth_drop)
qed

definition path_written :: "nat list \<Rightarrow> bucket_store \<Rightarrow> block list \<Rightarrow> bucket_store \<Rightarrow> bool" where
  "path_written path store blocks store' \<longleftrightarrow> length store' = length store \<and>
     (\<forall>v. v \<notin> set path \<longrightarrow> store' ! v = store ! v) \<and>
     (\<forall>k < length path. store' ! (path ! k) = take 3 (drop (3 * k) blocks)) \<and>
     mset (concat store') + mset (concat (map ((!) store) path)) = mset (concat store) + mset blocks"

lemma write_path_result:
  assumes "distinct path" "\<forall>v \<in> set path. v < length store" "\<forall>v \<in> set path. v < 2 ^ 64" "length blocks = 3 * length path"
  shows "path_written path store blocks (write_path store (map of_nat path) blocks)"
  using assms
proof (induction path arbitrary: store blocks)
  case (Cons w path)
  let ?st = "store[w := take 3 blocks]" and ?bs = "drop 3 blocks"
  let ?st' = "write_path ?st (map of_nat path) ?bs"
  have IH: "path_written path ?st ?bs ?st'" using Cons.prems by (intro Cons.IH) simp_all
  have w: "w < length store" "w \<notin> set path" "w < 2 ^ 64" using Cons.prems by simp_all
  have st: "map ((!) ?st) path = map ((!) store) path" using w(2) by (intro map_cong refl nth_list_update_neq) auto
  have 1: "mset (concat ?st') + mset (concat (map ((!) store) path)) = mset (concat ?st) + mset ?bs"
    using IH unfolding path_written_def st by blast
  have "mset (concat ?st') + (mset (store ! w) + mset (concat (map ((!) store) path))) =
      mset (concat ?st') + mset (concat (map ((!) store) path)) + mset (store ! w)" by (simp only: ac_simps)
  also have "\<dots> = mset (concat ?st) + mset (store ! w) + mset ?bs" unfolding 1 by (simp only: ac_simps)
  also have "\<dots> = mset (concat store) + (mset (take 3 blocks) + mset ?bs)"
    unfolding mset_concat_update [OF w(1)] by (simp only: ac_simps)
  also have "mset (take 3 blocks) + mset ?bs = mset blocks" by (simp flip: mset_append)
  finally have 2: "mset (concat ?st') + mset (concat (map ((!) store) (w # path))) = mset (concat store) + mset blocks" by simp
  have 3: "?st' ! ((w # path) ! k) = take 3 (drop (3 * k) blocks)" if "k < length (w # path)" for k
    using that IH w(1,2) by (cases k) (auto simp: path_written_def add.commute)
  have "write_path store (map of_nat (w # path)) blocks = ?st'" using w(3) by (simp add: write_bucket_blocks_def unat_of_nat_64)
  moreover have "path_written (w # path) store blocks ?st'"
    unfolding path_written_def using 2 3 IH by (auto simp: path_written_def)
  ultimately show ?case by simp
qed (simp add: path_written_def)

section \<open>The target\<close>

text \<open>What scanning a row for the target gives: the target, and the row with an empty block in its place.\<close>

definition target_taken :: "u64 \<Rightarrow> block list \<Rightarrow> block \<Rightarrow> block list \<Rightarrow> bool" where
  "target_taken t bs tg bs' \<longleftrightarrow> length bs' = length bs \<and> (\<forall>i < length bs. bs' ! i = bs ! i \<or> bs' ! i = ff_block \<and> b_id (bs ! i) = t) \<and>
     (\<forall>b \<in> set bs'. block_ok b \<and> b_id b \<noteq> t) \<and> block_ok tg \<and> b_data tg = content_of bs t \<and>
     live bs = live bs' + (if block_is_empty tg then {#} else {#tg#}) \<and> (if block_is_empty tg then bs' = bs else b_id tg = t)"

lemma target_taken_nth:
  "target_taken t bs tg bs' \<Longrightarrow> i < length bs \<Longrightarrow> bs' ! i = bs ! i \<or> bs' ! i = ff_block \<and> b_id (bs ! i) = t"
  by (simp add: target_taken_def)

lemma swap_scan_unique:
  assumes ok: "\<forall>b \<in> set bs. block_ok b" and u: "unique_ids bs" and t: "t \<noteq> UINT64_MAX"
  shows "\<exists>tg bs'. swap_scan t ff_block bs = (tg, bs') \<and> target_taken t bs tg bs'"
proof (cases "\<exists>b \<in> set bs. b_id b = t")
  case True
  then obtain xs x ys where bs: "bs = xs @ x # ys" "b_id x = t" "\<forall>b \<in> set xs. b_id b \<noteq> t"
    using split_list_first_prop [of bs "\<lambda>b. b_id b = t"] by blast
  have "count (image_mset b_id (live bs)) t \<le> 1" using u by (simp add: unique_ids_live)
  then have "count (image_mset b_id (live ys)) t = 0" using bs(2) t by (simp add: bs(1) block_is_empty_def)
  then have "t \<notin># image_mset b_id (live ys)" by (rule count_eq_zero_iff [THEN iffD1])
  then have ys: "\<forall>b \<in> set ys. b_id b \<noteq> t" using t by (auto simp: in_live block_is_empty_def)
  have sc: "swap_scan t ff_block bs = (x, xs @ ff_block # ys)"
    unfolding bs(1) using ok bs ys by (intro swap_scan_found) auto
  have c: "content_of bs t = b_data x"
    using content_of_present [OF u, of x] bs(2) t by (simp add: bs(1) in_live block_is_empty_def)
  have "target_taken t bs x (xs @ ff_block # ys)"
    using ok bs ys t c by (auto simp: target_taken_def nth_append nth_Cons' block_is_empty_def)
  then show ?thesis using sc by blast
next
  case False
  then have "swap_scan t ff_block bs = (ff_block, bs)" using ok by (intro swap_scan_absent) auto
  moreover have "content_of bs t = b_data ff_block" using False t by (subst content_of_absent) (auto simp: in_live ff_block_def)
  ultimately show ?thesis using False ok by (auto simp: target_taken_def block_is_empty_def)
qed

lemma add_block_result:
  assumes "\<forall>b \<in> set (st_overflow_blocks st). block_ok b" "block_ok nb" "\<not> block_is_empty nb"
  shows "if \<exists>b \<in> set (st_overflow_blocks st). block_is_empty b
    then \<exists>ovf. add_block st nb = (err_SUCCESS, st\<lparr>st_overflow_blocks := ovf\<rparr>) \<and> length ovf = length (st_overflow_blocks st) \<and>
           live ovf = live (st_overflow_blocks st) + {#nb#} \<and> (\<forall>b \<in> set ovf. block_ok b)
    else add_block st nb = (err_ORAM__STASH_EXHAUSTION, st)"
proof (cases "\<exists>b \<in> set (st_overflow_blocks st). block_is_empty b")
  case True
  then obtain xs x ys where b: "st_overflow_blocks st = xs @ x # ys" "block_is_empty x" "\<forall>b \<in> set xs. \<not> block_is_empty b"
    using split_list_first_prop [of "st_overflow_blocks st" block_is_empty] by blast
  have "add_block_loop nb False (st_overflow_blocks st) = (True, xs @ nb # ys)"
    unfolding b(1) using assms(1,2) b by (intro add_block_loop_first) auto
  then show ?thesis using True b assms by (auto simp: add_block_def intro!: exI [of _ "xs @ nb # ys"])
next
  case False
  then have "add_block_loop nb False (st_overflow_blocks st) = (False, st_overflow_blocks st)"
    using assms by (intro add_block_loop_full) auto
  then show ?thesis using False by (simp add: add_block_def)
qed

section \<open>Reading the path\<close>

definition path_nodes :: "nat \<Rightarrow> nat \<Rightarrow> nat list" where
  "path_nodes L x = map (path_node x) [0..<L]"

definition path_row :: "nat \<Rightarrow> nat \<Rightarrow> bucket_store \<Rightarrow> block list" where
  "path_row L x store = concat (map ((!) store) (path_nodes L x))"

lemma path_nodes_ok:
  assumes "x < 2 ^ (L - 1)" "L \<le> 62" "length store = 2 ^ L - 1"
  shows "distinct (path_nodes L x)" "\<forall>v \<in> set (path_nodes L x). v < length store" "\<forall>v \<in> set (path_nodes L x). v < 2 ^ 64"
    "length (path_nodes L x) = L" "v < length store \<Longrightarrow> node_covers (of_nat v) (of_nat (2 * x)) \<longleftrightarrow> v \<in> set (path_nodes L x)"
proof -
  have lt: "path_node x k < 2 ^ L - 1" if "k < L" for k using path_node_lt(1) [OF assms(1) that] .
  then show v: "\<forall>v \<in> set (path_nodes L x). v < length store" using assms(3) by (auto simp: path_nodes_def)
  then show "\<forall>v \<in> set (path_nodes L x). v < 2 ^ 64" using pow2_lt_64 [OF assms(2)] assms(3) less_trans by metis
  have "k = l" if "path_node x k = path_node x l" "k < L" "l < L" for k l
  proof -
    have "path_node x i < 2 ^ 64" if "i < L" for i using lt [OF that] pow2_lt_64 [OF assms(2)] by (rule less_trans)
    then have "j_tree_level (of_nat (path_node x i)) = of_nat i" if "i < L" for i
      using that assms(2) unfolding path_node_def by (intro j_tree_level_node) simp_all
    then have "(of_nat k :: u64) = of_nat l" using that by metis
    then show ?thesis using that assms(2) of_nat_64_inj [of k l] by simp
  qed
  then show "distinct (path_nodes L x)" by (auto simp: path_nodes_def distinct_map intro!: inj_onI)
  show "length (path_nodes L x) = L" by (simp add: path_nodes_def)
  show "node_covers (of_nat v) (of_nat (2 * x)) \<longleftrightarrow> v \<in> set (path_nodes L x)" if "v < length store"
    using that assms by (subst on_path_iff [OF _ assms(2,1)]) (auto simp: path_nodes_def)
qed

lemma oram_invD:
  assumes "oram_inv L N pos orm"
  shows "0 < L" "L \<le> 62" "length (or_bucket_store orm) = 2 ^ L - 1" "\<forall>bucket \<in> set (or_bucket_store orm). length bucket = 3"
    "length (st_path_blocks (or_stash orm)) = 3 * L" "\<forall>b \<in> set (oram_blocks orm). block_ok b" "unique_ids (oram_blocks orm)"
    "b \<in># live (oram_blocks orm) \<Longrightarrow> unat (b_id b) < N \<and> unat (pos (b_id b)) < 2 ^ (L - 1) \<and> b_position b = pos (b_id b) * 2"
    "v < length (or_bucket_store orm) \<Longrightarrow> b \<in> set (or_bucket_store orm ! v) \<Longrightarrow> \<not> block_is_empty b \<Longrightarrow> node_covers (of_nat v) (b_position b)"
    "N < 2 ^ 64"
  using assms unfolding oram_inv_def by (simp_all add: in_live)

lemma oram_inv_cong:
  assumes "\<And>i. unat i < N \<Longrightarrow> pos i = pos' i"
  shows "oram_inv L N pos orm \<longleftrightarrow> oram_inv L N pos' orm"
  using assms unfolding oram_inv_def by auto

lemma double_u64: "(x :: u64) * 2 = of_nat (2 * unat x)"
  by simp

lemma path_row_result:
  assumes "x < 2 ^ (L - 1)" "L \<le> 62" "length store = 2 ^ L - 1" "\<forall>bucket \<in> set store. length bucket = 3"
  shows "length (path_row L x store) = 3 * L" "live (path_row L x store) \<subseteq># live (concat store)"
    "i < 3 * L \<Longrightarrow> path_row L x store ! i \<in> set (store ! path_node x (i div 3))"
    "set (path_row L x store) \<subseteq> set (concat store)"
proof -
  note P = path_nodes_ok [OF assms(1-3)]
  have len: "\<forall>bucket \<in> set (map ((!) store) (path_nodes L x)). length bucket = 3" using P(2) assms(4) by auto
  show "length (path_row L x store) = 3 * L" unfolding path_row_def length_concat_even [OF len] using P(4) by simp
  have "path_written (path_nodes L x) store (replicate (3 * L) ff_block) (write_path store (map of_nat (path_nodes L x)) (replicate (3 * L) ff_block))"
    using P by (intro write_path_result) simp_all
  then have "live (concat (write_path store (map of_nat (path_nodes L x)) (replicate (3 * L) ff_block))) + live (path_row L x store) =
      live (concat store) + live (replicate (3 * L) ff_block)"
    unfolding path_written_def live_def path_row_def filter_union_mset [symmetric] by simp
  moreover have "live (replicate (3 * L) ff_block) = {#}" by (simp add: live_def block_is_empty_def)
  ultimately show "live (path_row L x store) \<subseteq># live (concat store)" by (metis add.right_neutral mset_subset_eq_add_right)
  show "path_row L x store ! i \<in> set (store ! path_node x (i div 3))" if i: "i < 3 * L"
  proof -
    have d: "i div 3 < L" using i by (simp add: less_mult_imp_div_less mult.commute)
    have "path_row L x store ! i = map ((!) store) (path_nodes L x) ! (i div 3) ! (i mod 3)"
      unfolding path_row_def using i P(4) by (intro nth_concat_even len) simp
    also have "\<dots> = store ! path_node x (i div 3) ! (i mod 3)" using d by (simp add: path_nodes_def)
    finally show ?thesis using len d P(4) by (auto simp: path_nodes_def intro!: nth_mem)
  qed
  show "set (path_row L x store) \<subseteq> set (concat store)" using P(2) nth_mem by (fastforce simp: path_row_def)
qed

text \<open>The target is on the path of its position or in the overflow, or nowhere.\<close>

lemma target_reachable:
  assumes inv: "oram_inv L N pos orm" and x: "unat (pos t) < 2 ^ (L - 1)" and b: "b \<in># live (oram_blocks orm)" "b_id b = t"
  shows "b \<in> set (path_row L (unat (pos t)) (or_bucket_store orm) @ st_overflow_blocks (or_stash orm))"
proof -
  note I = oram_invD [OF inv]
  note P = path_nodes_ok [OF x I(2,3)]
  have p: "b_position b = of_nat (2 * unat (pos t))" using I(8) [OF b(1)] b(2) double_u64 [of "pos t"] by simp
  have "b \<in> set (path_row L (unat (pos t)) (or_bucket_store orm))" if c: "b \<in> set (concat (or_bucket_store orm))"
  proof -
    obtain bucket where "bucket \<in> set (or_bucket_store orm)" "b \<in> set bucket" using c by auto
    then obtain v where v: "v < length (or_bucket_store orm)" "b \<in> set (or_bucket_store orm ! v)"
      unfolding in_set_conv_nth [of bucket] by blast
    have "node_covers (of_nat v) (b_position b)" using I(9) [OF v] b(1) by (simp add: in_live)
    then have "v \<in> set (path_nodes L (unat (pos t)))" unfolding p using P(5) [OF v(1)] by simp
    then show ?thesis using v(2) by (auto simp: path_row_def)
  qed
  then show ?thesis using b(1) by (auto simp: in_live oram_blocks_def)
qed

lemma read_path_result:
  assumes inv: "oram_inv L N pos orm" and t: "t \<noteq> UINT64_MAX" and x: "unat (pos t) < 2 ^ (L - 1)"
  defines "row \<equiv> path_row L (unat (pos t)) (or_bucket_store orm)" and "ovf \<equiv> st_overflow_blocks (or_stash orm)"
  obtains tg row' ovf' where "read_path_for_block (or_bucket_store orm) (or_stash orm) (j_tree_path_update L (pos t * 2)) t ff_block np =
      ((or_stash orm)\<lparr>st_path_blocks := row', st_overflow_blocks := ovf'\<rparr>, tg\<lparr>b_id := t, b_position := np\<rparr>)"
    "target_taken t (row @ ovf) tg (row' @ ovf')" "length row' = length row" "length ovf' = length ovf"
proof -
  note I = oram_invD [OF inv]
  note R = path_row_result [OF x I(2,3,4), folded row_def]
  have ok: "\<forall>b \<in> set (row @ ovf). block_ok b" using I(6) R(4) by (auto simp: oram_blocks_def ovf_def)
  have "live (row @ ovf) \<subseteq># live (oram_blocks orm)" using R(2) by (simp add: oram_blocks_def ovf_def subset_mset.add_mono)
  then have u: "unique_ids (row @ ovf)" by (rule unique_ids_mono [OF I(7)])
  obtain tg bs' where s: "swap_scan t ff_block (row @ ovf) = (tg, bs')" "target_taken t (row @ ovf) tg bs'"
    using swap_scan_unique [OF ok u t] by blast
  define ub where "ub = overflow_ub (or_stash orm)"
  obtain tg1 row' where 1: "swap_scan t ff_block row = (tg1, row')" by fastforce
  obtain tg2 o' where 2: "swap_scan t tg1 (take ub ovf) = (tg2, o')" by fastforce
  have "row @ ovf = (row @ take ub ovf) @ drop ub ovf" by simp
  then have "swap_scan t ff_block (row @ ovf) = (let (tg, ys) = swap_scan t tg2 (drop ub ovf) in (tg, (row' @ o') @ ys))"
    using 1 2 by (simp only: swap_scan_append) (simp add: Let_def split: prod.splits)
  moreover have "block_ok tg1" using ok by (intro swap_scan_ok [OF _ _ 1]) simp_all
  then have "block_ok tg2" using ok by (intro swap_scan_ok [OF _ _ 2]) (auto dest: in_set_takeD)
  then have "swap_scan t tg2 (drop ub ovf) = (tg2, drop ub ovf)"
    using ok t overflow_ub_empty [of _ "or_stash orm", folded ub_def ovf_def]
    by (intro swap_scan_absent) (auto simp: block_is_empty_def dest: in_set_dropD)
  ultimately have r: "tg = tg2" "bs' = row' @ (o' @ drop ub ovf)" using s(1) by simp_all
  have len: "length row' = length row" "length o' = length (take ub ovf)" using 1 2 by (auto dest: length_swap_scan)
  have path: "j_tree_path_update L (pos t * 2) = map (\<lambda>k. of_nat (path_node (unat (pos t)) k)) [0..<L]"
    unfolding double_u64 using pow2_le_62 [OF I(2) x] I(1,2) by (intro j_tree_path_update_eq) simp_all
  have "fold (\<lambda>bucket_id (st, target). add_path_bucket st (or_bucket_store orm) bucket_id t target)
      (j_tree_path_update L (pos t * 2)) (or_stash orm, ff_block) = ((or_stash orm)\<lparr>st_path_blocks := row'\<rparr>, tg1)"
    unfolding path using 1 I by (subst read_path_fold [OF x I(2,3,4,5) order_refl]) (simp_all add: row_def path_row_def path_nodes_def comp_def)
  then have "read_path_for_block (or_bucket_store orm) (or_stash orm) (j_tree_path_update L (pos t * 2)) t ff_block np =
      ((or_stash orm)\<lparr>st_path_blocks := row', st_overflow_blocks := o' @ drop ub ovf\<rparr>, tg2\<lparr>b_id := t, b_position := np\<rparr>)"
    using 2 by (simp add: read_path_for_block_def scan_overflow_for_target_def overflow_ub_def ub_def ovf_def)
  then show ?thesis using that [of "o' @ drop ub ovf" row' tg2] s(2) r len by simp
qed

section \<open>Writing the path\<close>

text \<open>\<open>build_path\<close> and the loop that writes the path back, for any stash whose path blocks are covered.\<close>

lemma evict_result:
  assumes x: "x < 2 ^ (L - 1)" "0 < L" "L \<le> 62" and store: "length store = 2 ^ L - 1" "\<forall>bucket \<in> set store. length bucket = 3"
    and st: "length (st_path_blocks st) = 3 * L"
    and cov: "\<And>i. i < 3 * L \<Longrightarrow> \<not> block_is_empty (st_path_blocks st ! i) \<Longrightarrow>
      node_covers (of_nat (path_node x (i div 3))) (b_position (st_path_blocks st ! i))"
  defines "path \<equiv> j_tree_path_update L (of_nat (2 * x))"
  defines "st' \<equiv> build_path st path L"
  defines "store' \<equiv> write_path store path (st_path_blocks st')"
  shows "live (concat store' @ st_overflow_blocks st') + live (path_row L x store) = live (concat store) + live (st_blocks st)"
    "length store' = length store" "\<forall>bucket \<in> set store'. length bucket = 3" "length (st_path_blocks st') = 3 * L"
    "length (st_overflow_blocks st') = length (st_overflow_blocks st)"
    "set (concat store' @ st_overflow_blocks st') \<subseteq> set (concat store) \<union> set (st_blocks st)"
    "v < length store \<Longrightarrow> b \<in> set (store' ! v) \<Longrightarrow> \<not> block_is_empty b \<Longrightarrow> node_covers (of_nat v) (b_position b) \<or> b \<in> set (store ! v)"
proof -
  note P = path_nodes_ok [OF x(1,3) store(1)]
  have path: "path = map of_nat (path_nodes L x)"
    unfolding path_def path_nodes_def using pow2_le_62 [OF x(3,1)] x by (subst j_tree_path_update_eq) simp_all
  have pk: "path ! k = of_nat (path_node x k)" if "k < L" for k using that by (simp add: path path_nodes_def)
  have "node_covers (path ! (i div 3)) (b_position (st_path_blocks st ! i))"
    if "i < 3 * L" "\<not> block_is_empty (st_path_blocks st ! i)" for i
    using cov [OF that] pk [of "i div 3"] that(1) by (simp add: less_mult_imp_div_less mult.commute)
  note B = build_path_result [of L st path, OF _ st this, folded st'_def]
  have L: "L < 63" using x(3) by simp
  show len: "length (st_path_blocks st') = 3 * L" "length (st_overflow_blocks st') = length (st_overflow_blocks st)" using B(2,3) L by simp_all
  have w: "path_written (path_nodes L x) store (st_path_blocks st') store'"
    unfolding store'_def path using P len by (intro write_path_result) simp_all
  then have W: "length store' = length store" "\<And>v. v \<notin> set (path_nodes L x) \<Longrightarrow> store' ! v = store ! v"
      "\<And>k. k < L \<Longrightarrow> store' ! path_node x k = take 3 (drop (3 * k) (st_path_blocks st'))"
      "mset (concat store') + mset (path_row L x store) = mset (concat store) + mset (st_path_blocks st')"
    by (auto simp: path_written_def path_row_def path_nodes_def)
  show "length store' = length store" by (rule W(1))
  have M: "mset (concat store' @ st_overflow_blocks st') + mset (path_row L x store) = mset (concat store) + mset (st_blocks st)"
  proof -
    have "mset (concat store' @ st_overflow_blocks st') + mset (path_row L x store) = mset (concat store) + mset (st_blocks st')"
      using W(4) by (simp add: st_blocks_def ac_simps)
    then show ?thesis using B(1) [OF L] by simp
  qed
  show "live (concat store' @ st_overflow_blocks st') + live (path_row L x store) = live (concat store) + live (st_blocks st)"
    unfolding live_def filter_union_mset [symmetric] M ..
  have "set_mset (mset (concat store' @ st_overflow_blocks st') + mset (path_row L x store)) = set_mset (mset (concat store) + mset (st_blocks st))"
    by (simp only: M)
  then show "set (concat store' @ st_overflow_blocks st') \<subseteq> set (concat store) \<union> set (st_blocks st)" by auto
  have cases: "(\<exists>k < L. v = path_node x k \<and> store' ! v = take 3 (drop (3 * k) (st_path_blocks st'))) \<or> store' ! v = store ! v" for v
    using W(2,3) [of v] W(3) by (cases "v \<in> set (path_nodes L x)") (auto simp: path_nodes_def)
  show "\<forall>bucket \<in> set store'. length bucket = 3"
  proof
    fix bucket assume "bucket \<in> set store'"
    then obtain v where v: "v < length store" "bucket = store' ! v" unfolding in_set_conv_nth W(1) by blast
    then have "store ! v \<in> set store" by simp
    then show "length bucket = 3" using cases [of v] v store(2) len(1) by auto
  qed
  assume v: "v < length store" "b \<in> set (store' ! v)" "\<not> block_is_empty b"
  show "node_covers (of_nat v) (b_position b) \<or> b \<in> set (store ! v)"
    using cases [of v]
  proof (elim disjE exE conjE)
    fix k assume k: "k < L" "v = path_node x k" "store' ! v = take 3 (drop (3 * k) (st_path_blocks st'))"
    then obtain j where j: "j < 3" "b = st_path_blocks st' ! (3 * k + j)" "3 * k + j < 3 * L"
      using v(2) len(1) by (auto simp: in_set_conv_nth)
    then show ?thesis using B(4) [OF L, of "3 * k + j"] v(3) pk [OF k(1)] k(2) by simp
  qed (use v in simp)
qed

section \<open>The access\<close>

lemma row_live_subset:
  assumes "oram_inv L N pos orm" "x < 2 ^ (L - 1)"
  shows "live (path_row L x (or_bucket_store orm) @ st_overflow_blocks (or_stash orm)) \<subseteq># live (oram_blocks orm)"
proof -
  note I = oram_invD [OF assms(1)]
  show ?thesis using path_row_result(2) [OF assms(2) I(2,3,4)] by (simp add: oram_blocks_def subset_mset.add_mono)
qed

lemma content_reachable:
  assumes inv: "oram_inv L N pos orm" and x: "unat (pos t) < 2 ^ (L - 1)" and t: "t \<noteq> UINT64_MAX"
  shows "content_of (path_row L (unat (pos t)) (or_bucket_store orm) @ st_overflow_blocks (or_stash orm)) t = oram_content orm t"
    (is "content_of ?row t = _")
proof -
  note I = oram_invD [OF inv] and sub = row_live_subset [OF inv x]
  have u: "unique_ids ?row" using I(7) sub by (rule unique_ids_mono)
  show ?thesis
  proof (cases "\<exists>b \<in># live (oram_blocks orm). b_id b = t")
    case True
    then obtain b where b: "b \<in># live (oram_blocks orm)" "b_id b = t" by blast
    then have "b \<in># live ?row" using target_reachable [OF inv x b] by (simp add: in_live)
    then show ?thesis using content_of_present [OF u, of b] content_of_present [OF I(7) b(1)] b(2) by (simp add: oram_content_def)
  next
    case False
    then have "\<And>b. b \<in># live ?row \<Longrightarrow> b_id b \<noteq> t" using sub mset_subset_eqD by fastforce
    then have "content_of ?row t = replicate 168 UINT64_MAX" using t by (intro content_of_absent)
    moreover have "content_of (oram_blocks orm) t = replicate 168 UINT64_MAX" using False t by (intro content_of_absent) auto
    ultimately show ?thesis by (simp add: oram_content_def)
  qed
qed

text \<open>What is left when the target is taken out has no block of its id.\<close>

lemma rest_of_target:
  assumes inv: "oram_inv L N pos orm" and x: "unat (pos t) < 2 ^ (L - 1)" and t: "t \<noteq> UINT64_MAX"
    and taken: "target_taken t (path_row L (unat (pos t)) (or_bucket_store orm) @ st_overflow_blocks (or_stash orm)) tg bs'"
  defines "TG \<equiv> if block_is_empty tg then {#} else {#tg#}"
  shows "\<exists>R. live (oram_blocks orm) = R + TG \<and> (\<forall>b. b \<in># R \<longrightarrow> b_id b \<noteq> t)"
proof (cases "block_is_empty tg")
  case True
  then have "\<forall>b \<in> set (path_row L (unat (pos t)) (or_bucket_store orm) @ st_overflow_blocks (or_stash orm)). b_id b \<noteq> t"
    using taken by (simp add: target_taken_def)
  then have "\<forall>b. b \<in># live (oram_blocks orm) \<longrightarrow> b_id b \<noteq> t" using target_reachable [OF inv x] by blast
  then show ?thesis using True by (simp add: TG_def)
next
  case False
  have "tg \<in># live (path_row L (unat (pos t)) (or_bucket_store orm) @ st_overflow_blocks (or_stash orm))"
    using taken False by (simp only: target_taken_def) simp
  then have "tg \<in># live (oram_blocks orm)" using row_live_subset [OF inv x] mset_subset_eqD by metis
  then obtain R where R: "live (oram_blocks orm) = R + {#tg#}" by (metis insert_DiffM union_single_eq_member add_mset_add_single)
  have "b_id tg = t" using taken False by (simp add: target_taken_def)
  moreover have "count (image_mset b_id (live (oram_blocks orm))) t \<le> 1"
    using oram_invD(7) [OF inv] by (simp add: unique_ids_live)
  ultimately have "count (image_mset b_id R) t = 0" unfolding R by simp
  then have "t \<notin># image_mset b_id R" by (rule count_eq_zero_iff [THEN iffD1])
  then show ?thesis using R False by (auto simp: TG_def)
qed

text \<open>The invariant and the contents when one block is replaced.\<close>

lemma oram_inv_replace:
  assumes inv: "oram_inv L N pos orm" and t: "t \<noteq> UINT64_MAX" "unat t < N" and new: "unat new < 2 ^ (L - 1)"
    and R: "live (oram_blocks orm) = R + TG" "live (oram_blocks orm') = R + {#nb#}" "\<forall>b. b \<in># R \<longrightarrow> b_id b \<noteq> t" "\<forall>b. b \<in># TG \<longrightarrow> b_id b = t"
    and nb: "b_id nb = t" "b_position nb = new * 2"
    and len: "length (or_bucket_store orm') = 2 ^ L - 1" "\<forall>bucket \<in> set (or_bucket_store orm'). length bucket = 3"
      "length (st_path_blocks (or_stash orm')) = 3 * L" "\<forall>b \<in> set (oram_blocks orm'). block_ok b"
    and cov: "\<And>v b. v < 2 ^ L - 1 \<Longrightarrow> b \<in> set (or_bucket_store orm' ! v) \<Longrightarrow> \<not> block_is_empty b \<Longrightarrow> node_covers (of_nat v) (b_position b)"
  shows "oram_inv L N (pos(t := new)) orm'"
    "i \<noteq> UINT64_MAX \<Longrightarrow> oram_content orm' i = (if i = t then b_data nb else oram_content orm i)"
proof -
  note I = oram_invD [OF inv]
  have rep: "unique_ids (oram_blocks orm')" "j \<noteq> UINT64_MAX \<Longrightarrow> content_of (oram_blocks orm') j = (if j = t then b_data nb else content_of (oram_blocks orm) j)" for j
    using replace_block [OF I(7) nb(1) t(1) R(1,2)] R(3,4) by blast+
  show "i \<noteq> UINT64_MAX \<Longrightarrow> oram_content orm' i = (if i = t then b_data nb else oram_content orm i)"
    using rep(2) by (simp add: oram_content_def)
  have "unat (b_id b) < N \<and> unat ((pos(t := new)) (b_id b)) < 2 ^ (L - 1) \<and> b_position b = (pos(t := new)) (b_id b) * 2"
    if b: "b \<in># live (oram_blocks orm')" for b
  proof (cases "b = nb")
    case False
    then have "b \<in># R" using b R(2) by simp
    then show ?thesis using I(8) [of b] R(1,3) by simp
  qed (use nb new t(2) in simp)
  then show "oram_inv L N (pos(t := new)) orm'"
    unfolding oram_inv_def using I(1,2,10) len rep(1) cov by (simp add: in_live)
qed

lemma evict_covered:
  assumes inv: "oram_inv L N pos orm" and x: "unat (pos t) < 2 ^ (L - 1)"
    and taken: "target_taken t (path_row L (unat (pos t)) (or_bucket_store orm) @ ovf) tg (row' @ ovf')"
    and len: "length row' = 3 * L" and i: "i < 3 * L" "\<not> block_is_empty (row' ! i)"
  shows "node_covers (of_nat (path_node (unat (pos t)) (i div 3))) (b_position (row' ! i))"
proof -
  note I = oram_invD [OF inv]
  note R = path_row_result [OF x I(2,3,4)]
  let ?row = "path_row L (unat (pos t)) (or_bucket_store orm)"
  have "(row' @ ovf') ! i = (?row @ ovf) ! i \<or> (row' @ ovf') ! i = ff_block" using target_taken_nth [OF taken, of i] i(1) R(1) by auto
  then have e: "row' ! i = ?row ! i" using i R(1) len by (auto simp: nth_append block_is_empty_def)
  have "path_node (unat (pos t)) (i div 3) < length (or_bucket_store orm)"
    using path_node_lt(1) [OF x, of "i div 3"] i(1) I(3) by (simp add: less_mult_imp_div_less mult.commute)
  then show ?thesis using I(9) [OF _ R(3) [OF i(1)]] i(2) unfolding e by blast
qed

text \<open>The case in which the target fits.\<close>

lemma path_access_fits:
  assumes inv: "oram_inv L N pos orm" and t: "t \<noteq> UINT64_MAX" "unat t < N" and x: "unat (pos t) < 2 ^ (L - 1)" and new: "unat new < 2 ^ (L - 1)"
    and taken: "target_taken t (path_row L (unat (pos t)) (or_bucket_store orm) @ st_overflow_blocks (or_stash orm)) tg (row' @ ovf')"
    and len: "length row' = 3 * L"
    and nb: "b_id nb = t" "b_position nb = new * 2" "block_ok nb"
    and ovf2: "live ovf2 = live ovf' + {#nb#}" "\<forall>b \<in> set ovf2. block_ok b"
  defines "path \<equiv> j_tree_path_update L (pos t * 2)"
  defines "st \<equiv> build_path ((or_stash orm)\<lparr>st_path_blocks := row', st_overflow_blocks := ovf2\<rparr>) path L"
  defines "orm' \<equiv> orm\<lparr>or_stash := st, or_path := path, or_bucket_store := write_path (or_bucket_store orm) path (st_path_blocks st)\<rparr>"
  shows "oram_inv L N (pos(t := new)) orm'"
    "i \<noteq> UINT64_MAX \<Longrightarrow> oram_content orm' i = (if i = t then b_data nb else oram_content orm i)"
    "length (st_overflow_blocks st) = length ovf2"
proof -
  let ?x = "unat (pos t)" and ?st2 = "(or_stash orm)\<lparr>st_path_blocks := row', st_overflow_blocks := ovf2\<rparr>"
  let ?row = "path_row L ?x (or_bucket_store orm)" and ?ovf = "st_overflow_blocks (or_stash orm)"
  note I = oram_invD [OF inv]
  have cov: "node_covers (of_nat (path_node ?x (i div 3))) (b_position (st_path_blocks ?st2 ! i))"
    if "i < 3 * L" "\<not> block_is_empty (st_path_blocks ?st2 ! i)" for i
    using evict_covered [OF inv x taken len that(1)] that(2) by simp
  have l2: "length (st_path_blocks ?st2) = 3 * L" using len by simp
  note E = evict_result [OF x I(1,2,3,4) l2 cov, folded double_u64, folded path_def, folded st_def]
  have st_blocks: "st_blocks ?st2 = row' @ ovf2" by (simp add: st_blocks_def)
  show "length (st_overflow_blocks st) = length ovf2" using E(5) by simp
  define TG where "TG = (if block_is_empty tg then {#} else {#tg#})"
  obtain R where R: "live (oram_blocks orm) = R + TG" "\<forall>b. b \<in># R \<longrightarrow> b_id b \<noteq> t"
    using rest_of_target [OF inv x t(1) taken] unfolding TG_def by blast
  have tk: "live ?row + live ?ovf = live row' + live ovf' + TG" using taken unfolding target_taken_def TG_def by simp
  have "live (oram_blocks orm') + TG + live ?row = live (concat (or_bucket_store orm)) + live row' + live ovf2 + TG"
    using E(1) unfolding orm'_def oram_blocks_def st_blocks by (simp add: ac_simps)
  also have "\<dots> = live (concat (or_bucket_store orm)) + (live row' + live ovf' + TG) + {#nb#}" unfolding ovf2(1) by (simp only: ac_simps)
  also have "\<dots> = live (oram_blocks orm) + {#nb#} + live ?row" unfolding tk [symmetric] oram_blocks_def live_append by (simp only: ac_simps)
  finally have "live (oram_blocks orm') + TG = live (oram_blocks orm) + {#nb#}" by (simp only: add_right_cancel)
  then have R': "live (oram_blocks orm') = R + {#nb#}" unfolding R(1) by (simp add: ac_simps)
  have TGt: "\<forall>b. b \<in># TG \<longrightarrow> b_id b = t" using taken by (auto simp: TG_def target_taken_def)
  have ok: "\<forall>b \<in> set (oram_blocks orm'). block_ok b"
  proof
    fix b assume "b \<in> set (oram_blocks orm')"
    then have "b \<in> set (concat (or_bucket_store orm)) \<union> set (row' @ ovf2)" using E(6) unfolding orm'_def oram_blocks_def st_blocks by auto
    then show "block_ok b" using I(6) taken ovf2(2) by (auto simp: oram_blocks_def target_taken_def)
  qed
  have cov': "node_covers (of_nat v) (b_position b)"
    if "v < 2 ^ L - 1" "b \<in> set (or_bucket_store orm' ! v)" "\<not> block_is_empty b" for v b
    using E(7) [of v b] I(9) [of v b] I(3) that unfolding orm'_def by auto
  have l': "length (or_bucket_store orm') = 2 ^ L - 1" "\<forall>bucket \<in> set (or_bucket_store orm'). length bucket = 3" "length (st_path_blocks (or_stash orm')) = 3 * L"
    using E(2,3,4) I(3) by (simp_all add: orm'_def)
  show "oram_inv L N (pos(t := new)) orm'"
    "i \<noteq> UINT64_MAX \<Longrightarrow> oram_content orm' i = (if i = t then b_data nb else oram_content orm i)"
    using oram_inv_replace [OF inv t new R(1) R' R(2) TGt nb(1,2) l' ok cov'] by blast+
qed

text \<open>
  The access: what the accessor gets and what is stored, and when the access fails. \<open>same_frame\<close> compares the
  fields an access leaves alone.
\<close>

definition same_frame :: "oram_state \<Rightarrow> oram_state \<Rightarrow> bool" where
  "same_frame orm orm' \<longleftrightarrow> or_capacity_blocks orm' = or_capacity_blocks orm \<and> or_statistics orm' = or_statistics orm \<and>
     length (st_overflow_blocks (or_stash orm')) = length (st_overflow_blocks (or_stash orm))"

definition overflow_room :: "u64 \<Rightarrow> oram_state \<Rightarrow> bool" where
  "overflow_room t orm \<longleftrightarrow> (\<exists>b \<in> set (st_overflow_blocks (or_stash orm)). block_is_empty b \<or> b_id b = t)"

text \<open>An overflow with a slot for every id always has room.\<close>

lemma overflow_room_if_few:
  assumes inv: "oram_inv L N pos orm" and n: "N \<le> length (st_overflow_blocks (or_stash orm))" and t: "unat t < N"
  shows "overflow_room t orm"
proof (rule ccontr)
  let ?ovf = "st_overflow_blocks (or_stash orm)"
  note I = oram_invD [OF inv]
  assume "\<not> overflow_room t orm"
  then have o: "\<not> block_is_empty b" "b_id b \<noteq> t" if "b \<in> set ?ovf" for b using that by (auto simp: overflow_room_def)
  then have l: "live ?ovf = mset ?ovf" by (auto simp: live_def filter_mset_eq_conv)
  have "unique_ids ?ovf" using I(7) by (rule unique_ids_mono) (simp add: oram_blocks_def)
  then have "distinct (map b_id ?ovf)" using o(1) by (simp add: unique_ids_def filter_id_conv [THEN iffD2] block_is_empty_def)
  then have d: "distinct (map (unat \<circ> b_id) ?ovf)" by (auto simp: distinct_map inj_on_def intro: word64_eqI)
  have "set (map (unat \<circ> b_id) ?ovf) \<subseteq> {..<N} - {unat t}"
  proof
    fix x assume "x \<in> set (map (unat \<circ> b_id) ?ovf)"
    then obtain b where b: "b \<in> set ?ovf" "x = unat (b_id b)" by auto
    then have "b \<in># live (oram_blocks orm)" using l by (simp add: oram_blocks_def)
    then have "unat (b_id b) < N" using I(8) by blast
    then show "x \<in> {..<N} - {unat t}" using b o(2) [OF b(1)] word64_eqI [of "b_id b" t] by auto
  qed
  then have "card (set (map (unat \<circ> b_id) ?ovf)) \<le> card ({..<N} - {unat t})" by (intro card_mono) auto
  then show False using distinct_card [OF d] n t by simp
qed

lemma taken_room:
  assumes "target_taken t (row @ ovf) tg (row' @ ovf')" "length row' = length row" "length ovf' = length ovf"
  shows "(\<exists>b \<in> set ovf'. block_is_empty b) \<longleftrightarrow> (\<exists>b \<in> set ovf. block_is_empty b \<or> b_id b = t)"
    "\<not> (\<exists>b \<in> set ovf'. block_is_empty b) \<Longrightarrow> ovf' = ovf"
proof -
  have nth: "ovf' ! i = ovf ! i \<or> ovf' ! i = ff_block \<and> b_id (ovf ! i) = t" if i: "i < length ovf" for i
  proof -
    have "(row' @ ovf') ! (length row + i) = (row @ ovf) ! (length row + i) \<or> (row' @ ovf') ! (length row + i) = ff_block \<and> b_id ((row @ ovf) ! (length row + i)) = t"
      using i by (intro target_taken_nth [OF assms(1)]) simp
    moreover have "(row' @ ovf') ! (length row + i) = ovf' ! i" unfolding assms(2) [symmetric] by (rule nth_append_length_plus)
    ultimately show ?thesis by (simp only: nth_append_length_plus)
  qed
  have idt: "b_id b \<noteq> t" if "b \<in> set ovf'" for b using assms(1) that by (simp add: target_taken_def)
  have ff: "block_is_empty ff_block" by (simp add: block_is_empty_def)
  show "ovf' = ovf" if "\<not> (\<exists>b \<in> set ovf'. block_is_empty b)"
  proof (rule nth_equalityI)
    fix i assume i: "i < length ovf'"
    then have "\<not> block_is_empty (ovf' ! i)" using that by simp
    then show "ovf' ! i = ovf ! i" using nth [of i] ff i assms(3) by auto
  qed (rule assms(3))
  show "(\<exists>b \<in> set ovf'. block_is_empty b) \<longleftrightarrow> (\<exists>b \<in> set ovf. block_is_empty b \<or> b_id b = t)"
  proof
    assume "\<exists>b \<in> set ovf. block_is_empty b \<or> b_id b = t"
    then obtain b where b: "b \<in> set ovf" "block_is_empty b \<or> b_id b = t" by blast
    then obtain i where i: "i < length ovf" "block_is_empty (ovf ! i) \<or> b_id (ovf ! i) = t" unfolding in_set_conv_nth by blast
    then have m: "ovf' ! i \<in> set ovf'" using assms(3) by simp
    then have "block_is_empty (ovf' ! i)" using nth [OF i(1)] i(2) ff idt [of "ovf' ! i"] by auto
    then show "\<exists>b \<in> set ovf'. block_is_empty b" using m by blast
  next
    assume "\<exists>b \<in> set ovf'. block_is_empty b"
    then obtain b where b: "b \<in> set ovf'" "block_is_empty b" by blast
    then obtain i where i: "i < length ovf" "block_is_empty (ovf' ! i)" unfolding in_set_conv_nth assms(3) by blast
    then show "\<exists>b \<in> set ovf. block_is_empty b \<or> b_id b = t" using nth [OF i(1)] nth_mem [OF i(1)] by auto
  qed
qed

theorem path_access_result:
  assumes inv: "oram_inv L N pos orm" and tN: "unat t < N" and x: "unat (pos t) < 2 ^ (L - 1)" and new: "unat new < 2 ^ (L - 1)"
    and f: "length (fst (f (oram_content orm t))) = 168"
  shows "\<exists>orm'. same_frame orm orm' \<and> (if overflow_room t orm
    then path_access L t (pos t) new f orm = (err_SUCCESS, snd (f (oram_content orm t)), orm') \<and> oram_inv L N (pos(t := new)) orm' \<and>
      (\<forall>i. i \<noteq> UINT64_MAX \<longrightarrow> oram_content orm' i = (if i = t then fst (f (oram_content orm t)) else oram_content orm i))
    else path_access L t (pos t) new f orm = (err_ORAM__STASH_EXHAUSTION, snd (f (oram_content orm t)), orm') \<and>
      or_bucket_store orm' = or_bucket_store orm \<and> st_overflow_blocks (or_stash orm') = st_overflow_blocks (or_stash orm))"
proof -
  note I = oram_invD [OF inv]
  have t: "t \<noteq> UINT64_MAX" using tN I(10) by (auto simp: unsigned_minus_1_eq_mask mask_eq_exp_minus_1)
  let ?row = "path_row L (unat (pos t)) (or_bucket_store orm)" and ?ovf = "st_overflow_blocks (or_stash orm)"
  obtain tg row' ovf' where r: "read_path_for_block (or_bucket_store orm) (or_stash orm) (j_tree_path_update L (pos t * 2)) t ff_block (new * 2) =
      ((or_stash orm)\<lparr>st_path_blocks := row', st_overflow_blocks := ovf'\<rparr>, tg\<lparr>b_id := t, b_position := new * 2\<rparr>)"
    "target_taken t (?row @ ?ovf) tg (row' @ ovf')" "length row' = length ?row" "length ovf' = length ?ovf"
    using read_path_result [OF inv t x] by metis
  have len: "length row' = 3 * L" using r(3) path_row_result(1) [OF x I(2,3,4)] by simp
  have d: "b_data tg = oram_content orm t" using r(2) content_reachable [OF inv x t] by (simp add: target_taken_def)
  obtain data out where fd: "f (oram_content orm t) = (data, out)" by fastforce
  define st1 where "st1 = (or_stash orm)\<lparr>st_path_blocks := row', st_overflow_blocks := ovf'\<rparr>"
  define nb where "nb = tg\<lparr>b_id := t, b_position := new * 2, b_data := data\<rparr>"
  have nb: "b_id nb = t" "b_position nb = new * 2" "block_ok nb" "\<not> block_is_empty nb" "b_data nb = data"
    using f fd t by (simp_all add: nb_def block_ok_def block_is_empty_def)
  have ok: "\<forall>b \<in> set (st_overflow_blocks st1). block_ok b" using r(2) by (simp add: st1_def target_taken_def)
  have acc: "path_access L t (pos t) new f orm = (let path = j_tree_path_update L (pos t * 2); (abort, st) = add_block st1 nb
     in if abort = 0 then
          let st = build_path st path L; store = write_path (or_bucket_store orm) path (st_path_blocks st)
          in (abort, out, orm\<lparr>or_stash := st, or_path := path, or_bucket_store := store\<rparr>)
        else (abort, out, orm\<lparr>or_stash := st, or_path := path\<rparr>))"
    unfolding path_access_def Let_def r(1) by (simp add: d fd nb_def st1_def)
  have room: "overflow_room t orm \<longleftrightarrow> (\<exists>b \<in> set (st_overflow_blocks st1). block_is_empty b)"
    using taken_room(1) [OF r(2,3,4)] by (simp add: overflow_room_def st1_def)
  show ?thesis
  proof (cases "overflow_room t orm")
    case True
    then obtain ovf2 where o: "add_block st1 nb = (err_SUCCESS, st1\<lparr>st_overflow_blocks := ovf2\<rparr>)" "length ovf2 = length ovf'"
        "live ovf2 = live ovf' + {#nb#}" "\<forall>b \<in> set ovf2. block_ok b"
      using add_block_result [OF ok nb(3,4)] room by (auto simp: st1_def)
    note F = path_access_fits [OF inv t tN x new r(2) len nb(1,2,3) o(3,4)]
    show ?thesis using True F o(1,2) fd nb(5) r(4) unfolding acc by (auto simp: st1_def same_frame_def Let_def)
  next
    case False
    then have a: "add_block st1 nb = (err_ORAM__STASH_EXHAUSTION, st1)" using add_block_result [OF ok nb(3,4)] room by simp
    have "ovf' = ?ovf" using taken_room(2) [OF r(2,3,4)] False room by (simp add: st1_def)
    then show ?thesis using False fd unfolding acc a by (simp add: st1_def same_frame_def)
  qed
qed

end
