(* ===== verification/Oram.thy ===== *)
theory Oram
  imports PathOram "HOL-Library.Stream"
begin

text \<open>
  The Path ORAM and its position maps (\<^verbatim>\<open>path_oram/path_oram.c\<close>, \<^verbatim>\<open>position_map.c\<close>, \<^verbatim>\<open>path_oram.jinc\<close>,
  \<^verbatim>\<open>position_map.jinc\<close>, \<^verbatim>\<open>oram_position_map.jinc\<close>). An ORAM keeps the position of each block in a
  position map, which is an array that is scanned, or a smaller ORAM whose blocks hold 336 positions.

  The random bytes of \<open>#randombytes\<close> are a stream of 64-bit words, those of \<open>getentropy\<close> a stream of
  32-bit words; both are arguments. A result \<open>None\<close> stands for undefined behaviour of the source: a position
  map of the wrong kind, or a buffer or an array that is too short.

  Proved: through the interface of a position map, an access reads and writes the block it names and no
  other; both kinds of position map implement the interface, the second through an access of its own;
  a program of reads and writes has the results it has on a plain memory.
\<close>

section \<open>Definitions\<close>

subsection \<open>Parameters of a build\<close>

record build_params =
  NUM_SHARDS :: nat
  PATH_LENGTH :: nat
  PATH_LENGTH_0 :: nat
  POSITION_MAP_SIZE_0 :: nat

definition prod_params :: build_params where
  "prod_params = \<lparr>NUM_SHARDS = 16, PATH_LENGTH = 20, PATH_LENGTH_0 = 13, POSITION_MAP_SIZE_0 = 2536\<rparr>"

definition staging_params :: build_params where
  "staging_params = \<lparr>NUM_SHARDS = 16, PATH_LENGTH = 16, PATH_LENGTH_0 = 9, POSITION_MAP_SIZE_0 = 159\<rparr>"

definition test_params :: build_params where
  "test_params = \<lparr>NUM_SHARDS = 3, PATH_LENGTH = 16, PATH_LENGTH_0 = 9, POSITION_MAP_SIZE_0 = 159\<rparr>"

subsection \<open>Accessors\<close>

type_synonym 'r accessor = "u64 list \<Rightarrow> u64 list \<times> 'r"

text \<open>A block as an array of 32-bit words, the low half of each word first.\<close>

definition u32s_of_u64s :: "u64 list \<Rightarrow> u32 list" where
  "u32s_of_u64s ws = concat (map (\<lambda>w. [ucast w, ucast (drop_bit 32 w)]) ws)"

fun u64s_of_u32s :: "u32 list \<Rightarrow> u64 list" where
  "u64s_of_u32s (lo # hi # hs) = (ucast lo OR push_bit 32 (ucast hi)) # u64s_of_u32s hs"
| "u64s_of_u32s _ = []"

definition block_data_to_buffer :: "u64 list accessor" where
  "block_data_to_buffer block_data = (block_data, block_data)"

definition block_data_from_buffer :: "u64 list \<Rightarrow> unit accessor" where
  "block_data_from_buffer in_data block_data = (take BLOCK_DATA_SIZE_QWORDS in_data, ())"

text \<open>The scans of a block for one of its 32-bit words.\<close>

fun write_partial_scan :: "u64 \<Rightarrow> u32 \<Rightarrow> nat \<Rightarrow> u32 \<Rightarrow> u32 list \<Rightarrow> u32 \<times> u32 list" where
  "write_partial_scan write_at_idx in_data i out_data [] = (out_data, [])"
| "write_partial_scan write_at_idx in_data i out_data (w # ws) = (
     let c1 = of_bool (write_at_idx = of_nat i);
         out_data = j_ternary32 c1 w out_data;
         w = j_ternary32 c1 in_data w;
         (out_data, ws) = write_partial_scan write_at_idx in_data (Suc i) out_data ws
     in (out_data, w # ws))"

definition write_partial_out :: "u64 \<Rightarrow> u64 \<Rightarrow> u64 accessor" where
  "write_partial_out write_at_idx in_data block_data = (
     let (out_data, ws) = write_partial_scan write_at_idx (ucast in_data) 0 0 (u32s_of_u64s block_data)
     in (u64s_of_u32s ws, ucast out_data))"

fun read_partial_scan :: "u64 \<Rightarrow> nat \<Rightarrow> u32 \<Rightarrow> u32 list \<Rightarrow> u32" where
  "read_partial_scan read_at_idx i out_data [] = out_data"
| "read_partial_scan read_at_idx i out_data (w # ws) =
     read_partial_scan read_at_idx (Suc i) (j_ternary32 (of_bool (read_at_idx = of_nat i)) w out_data) ws"

definition read_partial :: "u64 \<Rightarrow> u64 accessor" where
  "read_partial read_at_idx block_data = (block_data, ucast (read_partial_scan read_at_idx 0 0 (u32s_of_u64s block_data)))"

subsection \<open>ORAMs and position maps\<close>

text \<open>
  \<open>struct oram\<close> and \<open>struct position_map\<close>. A scanned map has the number of positions, its size and its
  data; a map in an ORAM the number of positions, its size, the ORAM, the entries per block and the
  constants of \<open>prep_ct_div\<close> for them.
\<close>

datatype oram =
    Oram (o_state: oram_state) (o_position_map: position_map)
and position_map =
    Scan_map (pm_num_positions: size_t) (pm_size: size_t) (sm_data: "u32 list")
  | Oram_map (pm_num_positions: size_t) (pm_size: size_t) (om_oram: oram) (om_entries_per_block: u64)
      (om_ct_m_prime: u64) (om_ct_shift1: size_t) (om_ct_shift2: size_t)

type_synonym randombytes = "u64 stream"
type_synonym entropy = "u32 stream"

definition random_mod_by_pow_of_2 :: "nat \<Rightarrow> randombytes \<Rightarrow> u64 \<times> randombytes" where
  "random_mod_by_pow_of_2 modulus rnd = (shd rnd AND (of_nat modulus - 1), stl rnd)"

fun scan_loop :: "u64 \<Rightarrow> nat \<Rightarrow> u32 \<Rightarrow> u32 list \<Rightarrow> u32 \<times> u32 list" where
  "scan_loop block_id i prev_position [] = (prev_position, [])"
| "scan_loop block_id i prev_position (va # data) = (
     let cond = of_bool (of_nat i = block_id);
         tmp = j_ternary32 cond prev_position va;
         prev_position = j_ternary32 cond va prev_position;
         (prev_position, data) = scan_loop block_id (Suc i) prev_position data
     in (prev_position, tmp # data))"

definition scan_position_map_set :: "nat \<Rightarrow> u32 list \<Rightarrow> u64 \<Rightarrow> u64 \<Rightarrow> (u64 \<times> u32 list) option" where
  "scan_position_map_set map_size data block_id position =
     (if length data < map_size then None
      else let (prev_position, scanned) = scan_loop block_id 0 (ucast position) (take map_size data)
           in Some (ucast prev_position, scanned @ drop map_size data))"

text \<open>
  The access with the position map left open (steps 1 to 7): \<open>read_then_set\<close> gives its error, the old
  position and the new map. No result of the accessor is there when the position map fails.
\<close>

definition access_via ::
    "nat \<Rightarrow> ('m \<Rightarrow> u64 \<Rightarrow> u64 \<Rightarrow> randombytes \<Rightarrow> (error_t \<times> u64 \<times> 'm \<times> randombytes) option) \<Rightarrow>
     oram_state \<Rightarrow> 'm \<Rightarrow> u64 \<Rightarrow> 'r accessor \<Rightarrow> randombytes \<Rightarrow>
     (error_t \<times> 'r option \<times> oram_state \<times> 'm \<times> randombytes) option" where
  "access_via path_length read_then_set orm m block_id f rnd = (
     let (new_position, rnd) = random_mod_by_pow_of_2 (2 ^ (path_length - 1)) rnd
     in case read_then_set m block_id new_position rnd of
          None \<Rightarrow> None
        | Some (abort, x, m, rnd) \<Rightarrow>
            (if abort = 0 then
               let (abort, out, orm) = path_access path_length block_id x new_position f orm
               in Some (abort, Some out, orm, m, rnd)
             else Some (abort, None, orm, m, rnd)))"

text \<open>The linear map: the scan does not fail.\<close>

definition read_then_set_linear ::
    "nat \<Rightarrow> position_map \<Rightarrow> u64 \<Rightarrow> u64 \<Rightarrow> randombytes \<Rightarrow> (error_t \<times> u64 \<times> position_map \<times> randombytes) option" where
  "read_then_set_linear map_size m block_id position rnd =
     (case m of
        Oram_map _ _ _ _ _ _ _ \<Rightarrow> None
      | Scan_map num_positions map_length data \<Rightarrow>
          (case scan_position_map_set map_size data block_id position of
             None \<Rightarrow> None
           | Some (x, data) \<Rightarrow> Some (0, x, Scan_map num_positions map_length data, rnd)))"

definition linear_access ::
    "build_params \<Rightarrow> oram \<Rightarrow> u64 \<Rightarrow> 'r accessor \<Rightarrow> randombytes \<Rightarrow> (error_t \<times> 'r option \<times> oram \<times> randombytes) option" where
  "linear_access pr orm block_id f rnd =
     (case access_via (PATH_LENGTH_0 pr) (read_then_set_linear (POSITION_MAP_SIZE_0 pr)) (o_state orm) (o_position_map orm) block_id f rnd of
        None \<Rightarrow> None
      | Some (abort, out, s, m, rnd) \<Rightarrow> Some (abort, out, Oram s m, rnd))"

definition position_map_put :: "build_params \<Rightarrow> oram \<Rightarrow> u64 \<Rightarrow> u64 list \<Rightarrow> randombytes \<Rightarrow> (error_t \<times> oram \<times> randombytes) option" where
  "position_map_put pr orm block_id in_data rnd =
     (if length in_data < BLOCK_DATA_SIZE_QWORDS then None
      else case linear_access pr orm block_id (block_data_from_buffer in_data) rnd of
             None \<Rightarrow> None
           | Some (abort, out, orm, rnd) \<Rightarrow> Some (abort, orm, rnd))"

text \<open>The partial access; its result is there as the linear map does not fail.\<close>

definition partial_oram_access ::
    "build_params \<Rightarrow> bool \<Rightarrow> oram \<Rightarrow> u64 \<Rightarrow> u64 \<Rightarrow> u64 \<Rightarrow> randombytes \<Rightarrow> (error_t \<times> u64 option \<times> oram \<times> randombytes) option" where
  "partial_oram_access pr is_read orm block_id start data rnd =
     linear_access pr orm block_id (if is_read then read_partial start else write_partial_out start data) rnd"

definition oram_position_map_access ::
    "build_params \<Rightarrow> bool \<Rightarrow> position_map \<Rightarrow> u64 \<Rightarrow> u64 \<Rightarrow> randombytes \<Rightarrow> (error_t \<times> u64 \<times> position_map \<times> randombytes) option" where
  "oram_position_map_access pr is_read m block_id position rnd =
     (case m of
        Scan_map _ _ _ \<Rightarrow> None
      | Oram_map num_positions map_length orm entries_per_block m_prime sh1 sh2 \<Rightarrow>
          let idx_in_block = j_ct_mod block_id (of_nat (BLOCK_DATA_SIZE_QWORDS * 2)) m_prime sh1 sh2;
              bid_for_index = j_ct_div block_id m_prime sh1 sh2
          in case partial_oram_access pr is_read orm bid_for_index idx_in_block position rnd of
               Some (abort, Some prev_position, orm, rnd) \<Rightarrow>
                 Some (abort, prev_position, Oram_map num_positions map_length orm entries_per_block m_prime sh1 sh2, rnd)
             | _ \<Rightarrow> None)"

definition read_then_set ::
    "build_params \<Rightarrow> position_map \<Rightarrow> u64 \<Rightarrow> u64 \<Rightarrow> randombytes \<Rightarrow> (error_t \<times> u64 \<times> position_map \<times> randombytes) option" where
  "read_then_set pr m block_id position rnd = oram_position_map_access pr False m block_id position rnd"

definition position_map_read ::
    "build_params \<Rightarrow> position_map \<Rightarrow> u64 \<Rightarrow> randombytes \<Rightarrow> (error_t \<times> u64 \<times> position_map \<times> randombytes) option" where
  "position_map_read pr m block_id rnd = oram_position_map_access pr True m block_id 0 rnd"

definition oram_access :: "build_params \<Rightarrow> oram \<Rightarrow> u64 \<Rightarrow> 'r accessor \<Rightarrow> randombytes \<Rightarrow> (error_t \<times> 'r option \<times> oram \<times> randombytes) option" where
  "oram_access pr orm block_id f rnd =
     (case access_via (PATH_LENGTH pr) (read_then_set pr) (o_state orm) (o_position_map orm) block_id f rnd of
        None \<Rightarrow> None
      | Some (abort, out, s, m, rnd) \<Rightarrow> Some (abort, out, Oram s m, rnd))"

subsection \<open>Statistics\<close>

definition set_state :: "(oram_state \<Rightarrow> oram_state) \<Rightarrow> oram \<Rightarrow> oram" where
  "set_state g orm = Oram (g (o_state orm)) (o_position_map orm)"

definition oram_collect_statistics :: "oram \<Rightarrow> oram" where
  "oram_collect_statistics orm = (
     let tenthousandth_root_one_half = 0.99993068768415357;
         stash_sz = stash_num_overflow_blocks (or_stash (o_state orm));
         stats = or_statistics (o_state orm);
         stats = stats\<lparr>os_access_count := os_access_count stats + 1, os_stash_overflow_count := stash_sz,
           os_sum_stash_overflow_count := os_sum_stash_overflow_count stats + stash_sz,
           os_stash_overflow_ema10k := (1 - tenthousandth_root_one_half) * real (unat stash_sz) +
             tenthousandth_root_one_half * os_stash_overflow_ema10k stats,
           os_max_stash_overflow_count :=
             U64_TERNARY (stash_sz > os_max_stash_overflow_count stats) stash_sz (os_max_stash_overflow_count stats)\<rparr>
     in set_state (\<lambda>s. s\<lparr>or_statistics := stats\<rparr>) orm)"

fun oram_report_statistics :: "oram \<Rightarrow> oram_statistics \<times> oram"
and position_map_oram_statistics :: "position_map \<Rightarrow> oram_statistics option \<times> position_map" where
  "oram_report_statistics (Oram s m) = (
     let (pos_map_stats, m) = position_map_oram_statistics m;
         stats = or_statistics s;
         stats = (case pos_map_stats of
             Some p \<Rightarrow> stats\<lparr>os_posmap_stash_overflow_count := os_stash_overflow_count p,
               os_posmap_max_stash_overflow_count := os_max_stash_overflow_count p,
               os_posmap_sum_stash_overflow_count := os_sum_stash_overflow_count p,
               os_posmap_stash_overflow_ema10k := os_stash_overflow_ema10k p\<rparr>
           | None \<Rightarrow> stats\<lparr>os_posmap_stash_overflow_count := 0, os_posmap_max_stash_overflow_count := 0,
               os_posmap_sum_stash_overflow_count := 0, os_posmap_stash_overflow_ema10k := 0\<rparr>)
     in (stats, Oram (s\<lparr>or_statistics := stats\<rparr>) m))"
| "position_map_oram_statistics (Scan_map np sz data) = (None, Scan_map np sz data)"
| "position_map_oram_statistics (Oram_map np sz orm epb m s1 s2) = (
     let (stats, orm) = oram_report_statistics orm in (Some stats, Oram_map np sz orm epb m s1 s2))"

definition position_map_recursion_depth :: "position_map \<Rightarrow> size_t \<times> position_map" where
  "position_map_recursion_depth m =
     (case m of
        Scan_map _ _ _ \<Rightarrow> (1, m)
      | Oram_map np sz orm epb m' s1 s2 \<Rightarrow>
          let (oram_stats, orm) = oram_report_statistics orm
          in (1 + os_recursion_depth oram_stats, Oram_map np sz orm epb m' s1 s2))"

definition position_map_capacity :: "position_map \<Rightarrow> size_t" where
  "position_map_capacity m = (case m of Scan_map _ sz _ \<Rightarrow> sz | Oram_map _ sz _ _ _ _ _ \<Rightarrow> sz)"

subsection \<open>Operations of an ORAM\<close>

definition oram_put :: "build_params \<Rightarrow> oram \<Rightarrow> u64 \<Rightarrow> u64 list \<Rightarrow> randombytes \<Rightarrow> (error_t \<times> oram \<times> randombytes) option" where
  "oram_put pr orm block_id data rnd =
     (if length data < BLOCK_DATA_SIZE_QWORDS then None
      else case oram_access pr orm block_id (block_data_from_buffer data) rnd of
             None \<Rightarrow> None
           | Some (err, out, orm, rnd) \<Rightarrow> Some (err, oram_collect_statistics orm, rnd))"

definition oram_position_map_put :: "build_params \<Rightarrow> oram \<Rightarrow> u64 \<Rightarrow> u64 list \<Rightarrow> randombytes \<Rightarrow> (error_t \<times> oram \<times> randombytes) option" where
  "oram_position_map_put pr orm block_id data rnd =
     (case position_map_put pr orm block_id data rnd of
        None \<Rightarrow> None
      | Some (err, orm, rnd) \<Rightarrow> Some (err, oram_collect_statistics orm, rnd))"

text \<open>
  \<open>oram_get\<close>, \<open>oram_function_access_get\<close> and \<open>oram_function_access_put\<close> differ in the accessor alone; the
  last two have those of the hash table.
\<close>

definition oram_function_access :: "build_params \<Rightarrow> oram \<Rightarrow> u64 \<Rightarrow> 'r accessor \<Rightarrow> randombytes \<Rightarrow> (error_t \<times> 'r option \<times> oram \<times> randombytes) option" where
  "oram_function_access pr orm block_id f rnd =
     (case oram_access pr orm block_id f rnd of
        None \<Rightarrow> None
      | Some (err, out, orm, rnd) \<Rightarrow> Some (err, out, oram_collect_statistics orm, rnd))"

definition oram_get :: "build_params \<Rightarrow> oram \<Rightarrow> u64 \<Rightarrow> randombytes \<Rightarrow> (error_t \<times> u64 list option \<times> oram \<times> randombytes) option" where
  "oram_get pr orm block_id rnd = oram_function_access pr orm block_id block_data_to_buffer rnd"

definition zero_statistics :: oram_statistics where
  "zero_statistics = \<lparr>os_recursion_depth = 0, os_access_count = 0, os_stash_overflow_count = 0, os_max_stash_overflow_count = 0,
     os_sum_stash_overflow_count = 0, os_stash_overflow_ema10k = 0, os_posmap_stash_overflow_count = 0,
     os_posmap_max_stash_overflow_count = 0, os_posmap_sum_stash_overflow_count = 0, os_posmap_stash_overflow_ema10k = 0\<rparr>"

definition oram_clear :: "oram \<Rightarrow> oram" where
  "oram_clear orm = set_state (\<lambda>s. s\<lparr>or_bucket_store := bucket_store_clear (or_bucket_store s),
     or_stash := snd (stash_clear (or_stash s)), or_statistics := zero_statistics\<rparr>) orm"

definition oram_block_size :: "oram \<Rightarrow> size_t" where
  "oram_block_size orm = of_nat BLOCK_DATA_SIZE_QWORDS"

definition oram_capacity_blocks :: "oram \<Rightarrow> size_t" where
  "oram_capacity_blocks orm = or_capacity_blocks (o_state orm)"

section \<open>Words and scans\<close>

lemma u32_halves:
  "(ucast (ucast (lo :: u32) OR push_bit 32 (ucast (hi :: u32)) :: u64) :: u32) = lo"
  "(ucast (drop_bit 32 (ucast (lo :: u32) OR push_bit 32 (ucast (hi :: u32)) :: u64)) :: u32) = hi"
  by (rule bit_word_eqI, auto simp: bit_simps not_le dest: bit_imp_le_length)+

lemma length_u32s_of_u64s [simp]: "length (u32s_of_u64s ws) = 2 * length ws"
  by (induction ws) (simp_all add: u32s_of_u64s_def)

lemma u32s_of_u64s_inverse: "even (length hs) \<Longrightarrow> u32s_of_u64s (u64s_of_u32s hs) = hs \<and> length (u64s_of_u32s hs) = length hs div 2"
  by (induction hs rule: u64s_of_u32s.induct) (simp_all add: u32s_of_u64s_def u32_halves del: drop_bit_or)

lemma of_nat_idx:
  assumes "i + n \<le> 2 ^ 64" "0 < n"
  shows "(idx :: u64) = of_nat i \<longleftrightarrow> unat idx = i"
proof -
  have "unat (of_nat i :: u64) = i" using assms by (simp add: unat_of_nat_64)
  then show ?thesis using word64_eqI [of idx "of_nat i"] by auto
qed

lemma write_partial_scan_result:
  assumes "i + length ws \<le> 2 ^ 64"
  shows "write_partial_scan idx v i out ws =
    (if i \<le> unat idx \<and> unat idx < i + length ws then (ws ! (unat idx - i), ws[unat idx - i := v]) else (out, ws))"
  using assms
proof (induction ws arbitrary: i out)
  case (Cons w ws)
  have c: "idx = of_nat i \<longleftrightarrow> unat idx = i" using Cons.prems by (intro of_nat_idx [of i "length (w # ws)"]) simp_all
  have s: "unat idx - i = Suc (unat idx - Suc i)" if "Suc i \<le> unat idx" using that by simp
  show ?case unfolding write_partial_scan.simps c Let_def j_ternary32_if using Cons.IH [of "Suc i"] Cons.prems s by (auto simp: not_le)
qed auto

lemma read_partial_scan_result:
  assumes "i + length ws \<le> 2 ^ 64"
  shows "read_partial_scan idx i out ws = (if i \<le> unat idx \<and> unat idx < i + length ws then ws ! (unat idx - i) else out)"
  using assms
proof (induction ws arbitrary: i out)
  case (Cons w ws)
  have c: "idx = of_nat i \<longleftrightarrow> unat idx = i" using Cons.prems by (intro of_nat_idx [of i "length (w # ws)"]) simp_all
  have s: "unat idx - i = Suc (unat idx - Suc i)" if "Suc i \<le> unat idx" using that by simp
  show ?case unfolding read_partial_scan.simps c j_ternary32_if using Cons.IH [of "Suc i"] Cons.prems s by (auto simp: not_le)
qed auto

lemma scan_loop_result:
  assumes "i + length data \<le> 2 ^ 64"
  shows "scan_loop idx i p data =
    (if i \<le> unat idx \<and> unat idx < i + length data then (data ! (unat idx - i), data[unat idx - i := p]) else (p, data))"
  using assms
proof (induction data arbitrary: i p)
  case (Cons va data)
  have c: "of_nat i = idx \<longleftrightarrow> unat idx = i" using Cons.prems of_nat_idx [of i "length (va # data)" idx] by auto
  have s: "unat idx - i = Suc (unat idx - Suc i)" if "Suc i \<le> unat idx" using that by simp
  show ?case unfolding scan_loop.simps c Let_def j_ternary32_if using Cons.IH [of "Suc i"] Cons.prems s by (auto simp: not_le)
qed auto

text \<open>The position a scanned map has for a block; an id that is out of range leaves the map alone.\<close>

lemma scan_position_map_set_result:
  assumes "length data = n" "n < 2 ^ 64"
  shows "scan_position_map_set n data block_id position =
    (if unat block_id < n then Some (ucast (data ! unat block_id), data[unat block_id := ucast position])
     else Some (ucast (ucast position :: u32), data))"
  using assms by (simp add: scan_position_map_set_def scan_loop_result)

lemma write_partial_out_result:
  assumes "length data = 168" "unat idx < 336"
  shows "u32s_of_u64s (fst (write_partial_out idx v data)) = (u32s_of_u64s data)[unat idx := ucast v]"
    "snd (write_partial_out idx v data) = ucast (u32s_of_u64s data ! unat idx)" "length (fst (write_partial_out idx v data)) = 168"
  using assms u32s_of_u64s_inverse [of "(u32s_of_u64s data)[unat idx := ucast v]"]
  by (simp_all add: write_partial_out_def write_partial_scan_result)

lemma read_partial_result:
  assumes "length data = 168" "unat idx < 336"
  shows "read_partial idx data = (data, ucast (u32s_of_u64s data ! unat idx))"
  using assms by (simp add: read_partial_def read_partial_scan_result)

lemma random_mod_lt:
  assumes "0 < L" "L \<le> 62"
  shows "unat (fst (random_mod_by_pow_of_2 (2 ^ (L - 1)) rnd)) < 2 ^ (L - 1)"
proof -
  have "(of_nat (2 ^ (L - 1)) - 1 :: u64) = mask (L - 1)" by (simp add: mask_eq_exp_minus_1)
  then have "fst (random_mod_by_pow_of_2 (2 ^ (L - 1)) rnd) = take_bit (L - 1) (shd rnd)"
    by (simp add: random_mod_by_pow_of_2_def take_bit_eq_mask)
  then show ?thesis by (simp add: unsigned_take_bit_eq take_bit_nat_less_exp)
qed

section \<open>The interface of a position map\<close>

lemma length_oram_content:
  assumes "oram_inv L N pos s"
  shows "length (oram_content s i) = 168"
  using oram_invD(6) [OF assms]
  by (auto simp: oram_content_def content_of_def block_ok_def find_Some_iff split: option.split)

text \<open>
  \<open>pos m i\<close> is the position of block \<open>i\<close>, for \<open>i\<close> below \<open>ids\<close>; the tree has \<open>levels\<close> levels. \<open>read_then_set\<close>
  gives the position and sets it, and changes no other, unless the stash of the map is exhausted,
  which does not happen to a map with \<open>pm_room\<close>.
\<close>

locale position_map_interface =
  fixes rts :: "'m \<Rightarrow> u64 \<Rightarrow> u64 \<Rightarrow> randombytes \<Rightarrow> (error_t \<times> u64 \<times> 'm \<times> randombytes) option"
    and pm_inv :: "'m \<Rightarrow> bool" and pm_room :: "'m \<Rightarrow> bool" and pos :: "'m \<Rightarrow> u64 \<Rightarrow> u64" and ids :: nat and levels :: nat
  assumes pos_lt: "pm_inv m \<Longrightarrow> unat i < ids \<Longrightarrow> unat (pos m i) < 2 ^ (levels - 1)"
    and rts_sets: "pm_inv m \<Longrightarrow> unat i < ids \<Longrightarrow> unat p < 2 ^ (levels - 1) \<Longrightarrow>
      \<exists>err x m' rnd'. rts m i p rnd = Some (err, x, m', rnd') \<and>
        (if err = err_SUCCESS then x = pos m i \<and> pm_inv m' \<and> (\<forall>j. unat j < ids \<longrightarrow> pos m' j = (if j = i then p else pos m j))
         else err = err_ORAM__STASH_EXHAUSTION) \<and> (pm_room m \<longrightarrow> err = err_SUCCESS \<and> pm_room m')"
begin

lemma access_ok:
  assumes inv: "oram_inv levels ids (pos m) s" "pm_inv m" and t: "unat t < ids"
    and f: "\<And>d. length d = 168 \<Longrightarrow> length (fst (f d)) = 168"
  shows "\<exists>err out s' m' rnd'. access_via levels rts s m t f rnd = Some (err, out, s', m', rnd') \<and> same_frame s s' \<and>
    (if err = err_SUCCESS
     then out = Some (snd (f (oram_content s t))) \<and> oram_inv levels ids (pos m') s' \<and> pm_inv m' \<and>
       (\<forall>i. unat i < ids \<longrightarrow> oram_content s' i = (if i = t then fst (f (oram_content s t)) else oram_content s i))
     else err = err_ORAM__STASH_EXHAUSTION) \<and>
    (pm_room m \<and> ids \<le> length (st_overflow_blocks (or_stash s)) \<longrightarrow> err = err_SUCCESS \<and> pm_room m')"
proof -
  note I = oram_invD [OF inv(1)]
  obtain new r1 where new: "random_mod_by_pow_of_2 (2 ^ (levels - 1)) rnd = (new, r1)" by fastforce
  then have lt: "unat new < 2 ^ (levels - 1)" using random_mod_lt [OF I(1,2), of rnd] by simp
  obtain e1 x m' r2 where r: "rts m t new r1 = Some (e1, x, m', r2)"
      "if e1 = err_SUCCESS then x = pos m t \<and> pm_inv m' \<and> (\<forall>j. unat j < ids \<longrightarrow> pos m' j = (if j = t then new else pos m j)) else e1 = err_ORAM__STASH_EXHAUSTION"
      "pm_room m \<longrightarrow> e1 = err_SUCCESS \<and> pm_room m'"
    using rts_sets [OF inv(2) t lt] by blast
  show ?thesis
  proof (cases "e1 = err_SUCCESS")
    case False
    then show ?thesis using r new by (simp add: access_via_def same_frame_def)
  next
    case True
    have f': "length (fst (f (oram_content s t))) = 168" by (intro f length_oram_content [OF inv(1)])
    obtain s' where s': "same_frame s s'" "if overflow_room t s
        then path_access levels t (pos m t) new f s = (err_SUCCESS, snd (f (oram_content s t)), s') \<and> oram_inv levels ids ((pos m)(t := new)) s' \<and>
          (\<forall>i. i \<noteq> UINT64_MAX \<longrightarrow> oram_content s' i = (if i = t then fst (f (oram_content s t)) else oram_content s i))
        else path_access levels t (pos m t) new f s = (err_ORAM__STASH_EXHAUSTION, snd (f (oram_content s t)), s') \<and>
          or_bucket_store s' = or_bucket_store s \<and> st_overflow_blocks (or_stash s') = st_overflow_blocks (or_stash s)"
      using path_access_result [where f = f, OF inv(1) t pos_lt [OF inv(2) t] lt f'] by blast
    have mx: "i \<noteq> UINT64_MAX" if "unat i < ids" for i
      using that I(10) by (auto simp: unsigned_minus_1_eq_mask mask_eq_exp_minus_1)
    have "oram_inv levels ids (pos m') s' \<longleftrightarrow> oram_inv levels ids ((pos m)(t := new)) s'"
      using r(2) True by (intro oram_inv_cong) simp
    then show ?thesis using r s' new True mx overflow_room_if_few [OF inv(1) _ t]
      by (cases "overflow_room t s") (auto simp: access_via_def)
  qed
qed

end

section \<open>The scanned map\<close>

definition scan_pos :: "position_map \<Rightarrow> u64 \<Rightarrow> u64" where
  "scan_pos m i = ucast (sm_data m ! unat i)"

definition scan_inv :: "nat \<Rightarrow> nat \<Rightarrow> position_map \<Rightarrow> bool" where
  "scan_inv n L m \<longleftrightarrow> (case m of Oram_map _ _ _ _ _ _ _ \<Rightarrow> False
     | Scan_map _ _ data \<Rightarrow> length data = n \<and> n < 2 ^ 64 \<and> L \<le> 32 \<and> (\<forall>x \<in> set data. unat x < 2 ^ (L - 1)))"

lemma ucast_32_64: "unat x < 2 ^ 32 \<Longrightarrow> ucast (ucast (x :: u64) :: u32) = x" "unat (ucast (y :: u32) :: u64) = unat y"
proof -
  show y: "unat (ucast (y :: u32) :: u64) = unat y" for y
    by (simp add: unsigned_ucast_eq take_bit_nat_eq_self less_trans [OF unat_lt_32])
  show "ucast (ucast (x :: u64) :: u32) = x" if "unat x < 2 ^ 32"
    using that by (intro word64_eqI) (simp add: y unsigned_ucast_eq unsigned_take_bit_eq take_bit_nat_eq_self)
qed

lemma pow2_le_32: "L \<le> 32 \<Longrightarrow> x < 2 ^ (L - 1) \<Longrightarrow> x < (2 :: nat) ^ 32"
  by (rule less_le_trans, assumption, rule power_increasing) simp_all

interpretation scan_map: position_map_interface "read_then_set_linear n" "scan_inv n L" "\<lambda>_. True" scan_pos n L for n L :: nat
proof
  fix m and i :: u64 assume m: "scan_inv n L m" and i: "unat i < n"
  then obtain np sz data where d: "m = Scan_map np sz data" "length data = n" "n < 2 ^ 64" "L \<le> 32" "\<forall>x \<in> set data. unat x < 2 ^ (L - 1)"
    by (auto simp: scan_inv_def split: position_map.splits)
  show "unat (scan_pos m i) < 2 ^ (L - 1)" using d i by (simp add: scan_pos_def ucast_32_64)
  fix p :: u64 and rnd assume p: "unat p < 2 ^ (L - 1)"
  have p32: "unat p < 2 ^ 32" using d(4) p by (rule pow2_le_32)
  then have up: "unat (ucast p :: u32) = unat p" using ucast_32_64 by metis
  have r: "read_then_set_linear n m i p rnd = Some (0, scan_pos m i, Scan_map np sz (data[unat i := ucast p]), rnd)"
    using d i by (simp add: read_then_set_linear_def scan_position_map_set_result scan_pos_def)
  have "scan_inv n L (Scan_map np sz (data[unat i := ucast p]))"
    using d p up set_update_subset_insert [of data "unat i" "ucast p"] by (auto simp: scan_inv_def)
  moreover have "\<forall>j. unat j < n \<longrightarrow> scan_pos (Scan_map np sz (data[unat i := ucast p])) j = (if j = i then p else scan_pos m j)"
    using d i ucast_32_64(1) [OF p32] word64_eqI by (auto simp: scan_pos_def nth_list_update)
  ultimately show "\<exists>err x m' rnd'. read_then_set_linear n m i p rnd = Some (err, x, m', rnd') \<and>
      (if err = err_SUCCESS then x = scan_pos m i \<and> scan_inv n L m' \<and> (\<forall>j. unat j < n \<longrightarrow> scan_pos m' j = (if j = i then p else scan_pos m j))
       else err = err_ORAM__STASH_EXHAUSTION) \<and> (True \<longrightarrow> err = err_SUCCESS \<and> True)" using r by auto
qed

text \<open>The ORAM with a scanned map.\<close>

definition linear_inv :: "build_params \<Rightarrow> oram \<Rightarrow> bool" where
  "linear_inv pr orm \<longleftrightarrow> oram_inv (PATH_LENGTH_0 pr) (POSITION_MAP_SIZE_0 pr) (scan_pos (o_position_map orm)) (o_state orm) \<and>
     scan_inv (POSITION_MAP_SIZE_0 pr) (PATH_LENGTH_0 pr) (o_position_map orm)"

text \<open>What an access to an ORAM does, for ids below \<open>N\<close>.\<close>

definition access_done :: "nat \<Rightarrow> u64 \<Rightarrow> 'r accessor \<Rightarrow> oram \<Rightarrow> 'r option \<Rightarrow> oram \<Rightarrow> bool" where
  "access_done N t f orm out orm' \<longleftrightarrow> out = Some (snd (f (oram_content (o_state orm) t))) \<and>
     (\<forall>i. unat i < N \<longrightarrow> oram_content (o_state orm') i =
        (if i = t then fst (f (oram_content (o_state orm) t)) else oram_content (o_state orm) i))"

lemma linear_access_result:
  assumes inv: "linear_inv pr orm" and t: "unat t < POSITION_MAP_SIZE_0 pr"
    and f: "\<And>d. length d = 168 \<Longrightarrow> length (fst (f d)) = 168"
  shows "\<exists>err out orm' rnd'. linear_access pr orm t f rnd = Some (err, out, orm', rnd') \<and> same_frame (o_state orm) (o_state orm') \<and>
    out \<noteq> None \<and>
    (if err = err_SUCCESS then linear_inv pr orm' \<and> access_done (POSITION_MAP_SIZE_0 pr) t f orm out orm'
     else err = err_ORAM__STASH_EXHAUSTION) \<and>
    (POSITION_MAP_SIZE_0 pr \<le> length (st_overflow_blocks (or_stash (o_state orm))) \<longrightarrow> err = err_SUCCESS)"
proof -
  let ?n = "POSITION_MAP_SIZE_0 pr" and ?L = "PATH_LENGTH_0 pr" and ?m = "o_position_map orm"
  have inv': "oram_inv ?L ?n (scan_pos ?m) (o_state orm)" "scan_inv ?n ?L ?m" using inv by (simp_all add: linear_inv_def)
  obtain err out s' m' rnd' where a: "access_via ?L (read_then_set_linear ?n) (o_state orm) ?m t f rnd = Some (err, out, s', m', rnd')"
      "same_frame (o_state orm) s'" "if err = err_SUCCESS
       then out = Some (snd (f (oram_content (o_state orm) t))) \<and> oram_inv ?L ?n (scan_pos m') s' \<and> scan_inv ?n ?L m' \<and>
         (\<forall>i. unat i < ?n \<longrightarrow> oram_content s' i = (if i = t then fst (f (oram_content (o_state orm) t)) else oram_content (o_state orm) i))
       else err = err_ORAM__STASH_EXHAUSTION"
      "?n \<le> length (st_overflow_blocks (or_stash (o_state orm))) \<longrightarrow> err = err_SUCCESS"
    using scan_map.access_ok [where f = f, OF inv' t f] by blast
  have "out \<noteq> None" using a(1) by (auto simp: access_via_def read_then_set_linear_def Let_def split: prod.splits option.splits position_map.splits if_splits)
  then show ?thesis using a by (auto simp: linear_access_def linear_inv_def access_done_def)
qed

section \<open>The map in an ORAM\<close>

definition oram_map_pos :: "position_map \<Rightarrow> u64 \<Rightarrow> u64" where
  "oram_map_pos m i = ucast (u32s_of_u64s (oram_content (o_state (om_oram m)) (i div 336)) ! unat (i mod 336))"

definition oram_map_inv :: "build_params \<Rightarrow> nat \<Rightarrow> nat \<Rightarrow> position_map \<Rightarrow> bool" where
  "oram_map_inv pr n L m \<longleftrightarrow> (case m of Scan_map _ _ _ \<Rightarrow> False
     | Oram_map _ _ orm _ m_prime shift1 shift2 \<Rightarrow> linear_inv pr orm \<and> prep_ct_div 336 = Some (m_prime, shift1, shift2) \<and>
         n \<le> 336 * POSITION_MAP_SIZE_0 pr \<and> L \<le> 32 \<and> (\<forall>i. unat i < n \<longrightarrow> unat (oram_map_pos m i) < 2 ^ (L - 1)))"

definition oram_map_room :: "build_params \<Rightarrow> position_map \<Rightarrow> bool" where
  "oram_map_room pr m \<longleftrightarrow> POSITION_MAP_SIZE_0 pr \<le> length (st_overflow_blocks (or_stash (o_state (om_oram m))))"

lemma word_div_mod_336: "unat ((i :: u64) div 336) = unat i div 336" "unat (i mod 336) = unat i mod 336"
  by (simp_all add: unat_div unat_mod)

lemma word_div_mod_eq: "(i :: u64) div 336 = j div 336 \<Longrightarrow> unat (i mod 336) = unat (j mod 336) \<Longrightarrow> i = j"
proof (rule word64_eqI)
  assume "i div 336 = j div 336" "unat (i mod 336) = unat (j mod 336)"
  then have "unat i div 336 = unat j div 336" "unat i mod 336 = unat j mod 336" by (simp_all flip: word_div_mod_336)
  then show "unat i = unat j" by (metis div_mult_mod_eq)
qed

text \<open>One access to the position of a block, read or written.\<close>

lemma oram_position_map_access_result:
  assumes m: "oram_map_inv pr n L m" and i: "unat i < n" and p: "unat p < 2 ^ (L - 1)"
  shows "\<exists>err x m' rnd'. oram_position_map_access pr is_read m i p rnd = Some (err, x, m', rnd') \<and>
    (if err = err_SUCCESS
     then x = oram_map_pos m i \<and> oram_map_inv pr n L m' \<and> (\<forall>j. unat j < n \<longrightarrow> oram_map_pos m' j = (if j = i \<and> \<not> is_read then p else oram_map_pos m j))
     else err = err_ORAM__STASH_EXHAUSTION) \<and> (oram_map_room pr m \<longrightarrow> err = err_SUCCESS \<and> oram_map_room pr m')"
proof -
  obtain np sz orm epb mp s1 s2 where d: "m = Oram_map np sz orm epb mp s1 s2" "linear_inv pr orm" "prep_ct_div 336 = Some (mp, s1, s2)"
      "n \<le> 336 * POSITION_MAP_SIZE_0 pr" "L \<le> 32" "\<And>i. unat i < n \<Longrightarrow> unat (oram_map_pos m i) < 2 ^ (L - 1)"
    using m by (auto simp: oram_map_inv_def split: position_map.splits)
  have ct: "j_ct_div i mp s1 s2 = i div 336" "j_ct_mod i 336 mp s1 s2 = i mod 336"
    using j_ct_mod_result [of 336, OF _ _ d(3)] by simp_all
  let ?c = "oram_content (o_state orm)" and ?f = "if is_read then read_partial (i mod 336) else write_partial_out (i mod 336) p"
  have bid: "unat (j div 336) < POSITION_MAP_SIZE_0 pr" if "unat j < n" for j :: u64
    using that d(4) by (simp add: word_div_mod_336 less_mult_imp_div_less mult.commute less_le_trans)
  have idx: "unat (j mod 336) < 336" for j :: u64 by (simp add: word_div_mod_336)
  have inv: "oram_inv (PATH_LENGTH_0 pr) (POSITION_MAP_SIZE_0 pr) (scan_pos (o_position_map orm)) (o_state orm)" using d(2) by (simp add: linear_inv_def)
  note len = length_oram_content [OF inv]
  have f: "length (fst (?f d)) = 168" if "length d = 168" for d
    using that idx by (simp add: read_partial_result write_partial_out_result)
  obtain err out orm' rnd' where a: "linear_access pr orm (i div 336) ?f rnd = Some (err, out, orm', rnd')" "out \<noteq> None"
      "if err = err_SUCCESS then linear_inv pr orm' \<and> access_done (POSITION_MAP_SIZE_0 pr) (i div 336) ?f orm out orm' else err = err_ORAM__STASH_EXHAUSTION"
      "same_frame (o_state orm) (o_state orm')" "POSITION_MAP_SIZE_0 pr \<le> length (st_overflow_blocks (or_stash (o_state orm))) \<longrightarrow> err = err_SUCCESS"
    using linear_access_result [where f = ?f, OF d(2) bid [OF i] f, of rnd] by blast
  then obtain x where x: "out = Some x" by blast
  define m' where "m' = Oram_map np sz orm' epb mp s1 s2"
  have acc: "oram_position_map_access pr is_read m i p rnd = Some (err, x, m', rnd')"
    using a(1) x by (simp add: oram_position_map_access_def d(1) ct partial_oram_access_def m'_def Let_def cong: if_cong split del: if_split)
  have "x = oram_map_pos m i \<and> oram_map_inv pr n L m' \<and> (\<forall>j. unat j < n \<longrightarrow> oram_map_pos m' j = (if j = i \<and> \<not> is_read then p else oram_map_pos m j))"
    if "err = err_SUCCESS"
  proof -
    have A: "linear_inv pr orm'" "x = snd (?f (?c (i div 336)))"
        "\<And>j. unat j < POSITION_MAP_SIZE_0 pr \<Longrightarrow> oram_content (o_state orm') j = (if j = i div 336 then fst (?f (?c (i div 336))) else ?c j)"
      using a(3) that x by (simp_all add: access_done_def)
    have xp: "x = oram_map_pos m i" using A(2) idx len
      by (simp add: oram_map_pos_def d(1) read_partial_result write_partial_out_result)
    have pos: "oram_map_pos m' j = (if j = i \<and> \<not> is_read then p else oram_map_pos m j)" if j: "unat j < n" for j
    proof (cases "j div 336 = i div 336 \<and> \<not> is_read")
      case True
      have "unat p < 2 ^ 32" using d(5) p by (rule pow2_le_32)
      moreover have "j = i" if "unat (i mod 336) = unat (j mod 336)" using True that word_div_mod_eq [of j i] by simp
      ultimately show ?thesis using True A(3) [OF bid [OF j]] idx len
        by (auto simp: oram_map_pos_def m'_def d(1) write_partial_out_result nth_list_update ucast_32_64)
    next
      case False
      then show ?thesis using A(3) [OF bid [OF j]] idx len
        by (auto simp: oram_map_pos_def m'_def d(1) read_partial_result)
    qed
    have "\<forall>j. unat j < n \<longrightarrow> unat (oram_map_pos m' j) < 2 ^ (L - 1)" using pos d(6) p by simp
    then have "oram_map_inv pr n L m'" using A(1) d(3-5) by (simp add: oram_map_inv_def m'_def)
    then show ?thesis using xp pos by blast
  qed
  moreover have "oram_map_room pr m \<longrightarrow> err = err_SUCCESS \<and> oram_map_room pr m'"
    using a(4,5) by (simp add: oram_map_room_def d(1) m'_def same_frame_def)
  ultimately show ?thesis using acc a(3) by auto
qed

interpretation oram_map: position_map_interface "read_then_set pr" "oram_map_inv pr n L" "oram_map_room pr" oram_map_pos n L for pr and n L :: nat
proof
  show "unat (oram_map_pos m i) < 2 ^ (L - 1)" if "oram_map_inv pr n L m" "unat i < n" for m i
    using that by (auto simp: oram_map_inv_def split: position_map.splits)
  show "\<exists>err x m' rnd'. read_then_set pr m i p rnd = Some (err, x, m', rnd') \<and>
      (if err = err_SUCCESS then x = oram_map_pos m i \<and> oram_map_inv pr n L m' \<and> (\<forall>j. unat j < n \<longrightarrow> oram_map_pos m' j = (if j = i then p else oram_map_pos m j))
       else err = err_ORAM__STASH_EXHAUSTION) \<and> (oram_map_room pr m \<longrightarrow> err = err_SUCCESS \<and> oram_map_room pr m')"
    if "oram_map_inv pr n L m" "unat i < n" "unat p < 2 ^ (L - 1)" for m i p rnd
    using oram_position_map_access_result [OF that, of False rnd] unfolding read_then_set_def by (simp only: simp_thms)
qed

section \<open>The ORAM\<close>

text \<open>The invariant of an ORAM whose blocks have ids below \<open>N\<close>, with its position map in an ORAM.\<close>

definition oram_ok :: "build_params \<Rightarrow> nat \<Rightarrow> oram \<Rightarrow> bool" where
  "oram_ok pr N orm \<longleftrightarrow> oram_inv (PATH_LENGTH pr) N (oram_map_pos (o_position_map orm)) (o_state orm) \<and>
     oram_map_inv pr N (PATH_LENGTH pr) (o_position_map orm)"

text \<open>An ORAM whose stashes have a slot for every id.\<close>

definition oram_room :: "build_params \<Rightarrow> nat \<Rightarrow> oram \<Rightarrow> bool" where
  "oram_room pr N orm \<longleftrightarrow> N \<le> length (st_overflow_blocks (or_stash (o_state orm))) \<and> oram_map_room pr (o_position_map orm)"

lemma statistics_frame [simp]:
  "oram_inv L N pos (s\<lparr>or_statistics := x\<rparr>) = oram_inv L N pos s" "oram_content (s\<lparr>or_statistics := x\<rparr>) = oram_content s"
  by (simp_all add: oram_inv_def oram_content_def oram_blocks_def)

lemma collect_frame [simp]:
  "o_position_map (oram_collect_statistics orm) = o_position_map orm"
  "oram_inv L N pos (o_state (oram_collect_statistics orm)) = oram_inv L N pos (o_state orm)"
  "oram_content (o_state (oram_collect_statistics orm)) = oram_content (o_state orm)"
  by (simp_all add: oram_collect_statistics_def set_state_def Let_def)

lemma or_stash_collect [simp]: "or_stash (o_state (oram_collect_statistics orm)) = or_stash (o_state orm)"
  by (simp add: oram_collect_statistics_def set_state_def Let_def)

lemma oram_ok_collect [simp]: "oram_ok pr N (oram_collect_statistics orm) = oram_ok pr N orm"
  "oram_room pr N (oram_collect_statistics orm) = oram_room pr N orm"
  "linear_inv pr (oram_collect_statistics orm) = linear_inv pr orm"
  "access_done N t f orm out (oram_collect_statistics orm') = access_done N t f orm out orm'"
  by (simp_all add: oram_ok_def oram_room_def linear_inv_def access_done_def)

lemma oram_access_result:
  assumes inv: "oram_ok pr N orm" and t: "unat t < N" and f: "\<And>d. length d = 168 \<Longrightarrow> length (fst (f d)) = 168"
  shows "\<exists>err out orm' rnd'. oram_access pr orm t f rnd = Some (err, out, orm', rnd') \<and> same_frame (o_state orm) (o_state orm') \<and>
    (if err = err_SUCCESS then oram_ok pr N orm' \<and> access_done N t f orm out orm' else err = err_ORAM__STASH_EXHAUSTION) \<and>
    (oram_room pr N orm \<longrightarrow> err = err_SUCCESS \<and> oram_room pr N orm')"
proof -
  let ?m = "o_position_map orm" and ?L = "PATH_LENGTH pr"
  have inv': "oram_inv ?L N (oram_map_pos ?m) (o_state orm)" "oram_map_inv pr N ?L ?m" using inv by (simp_all add: oram_ok_def)
  obtain err out s' m' rnd' where a: "access_via ?L (read_then_set pr) (o_state orm) ?m t f rnd = Some (err, out, s', m', rnd')"
      "same_frame (o_state orm) s'" "if err = err_SUCCESS
       then out = Some (snd (f (oram_content (o_state orm) t))) \<and> oram_inv ?L N (oram_map_pos m') s' \<and> oram_map_inv pr N ?L m' \<and>
         (\<forall>i. unat i < N \<longrightarrow> oram_content s' i = (if i = t then fst (f (oram_content (o_state orm) t)) else oram_content (o_state orm) i))
       else err = err_ORAM__STASH_EXHAUSTION"
      "oram_map_room pr ?m \<and> N \<le> length (st_overflow_blocks (or_stash (o_state orm))) \<longrightarrow> err = err_SUCCESS \<and> oram_map_room pr m'"
    using oram_map.access_ok [where f = f, OF inv' t f] by blast
  then show ?thesis by (auto simp: oram_access_def oram_ok_def access_done_def oram_room_def same_frame_def)
qed

lemma oram_function_access_result:
  assumes "oram_ok pr N orm" "unat t < N" "\<And>d. length d = 168 \<Longrightarrow> length (fst (f d)) = 168"
  shows "\<exists>err out orm' rnd'. oram_function_access pr orm t f rnd = Some (err, out, orm', rnd') \<and>
    (if err = err_SUCCESS then oram_ok pr N orm' \<and> access_done N t f orm out orm' else err = err_ORAM__STASH_EXHAUSTION) \<and>
    (oram_room pr N orm \<longrightarrow> err = err_SUCCESS \<and> oram_room pr N orm')"
proof -
  obtain err out orm' rnd' where "oram_access pr orm t f rnd = Some (err, out, orm', rnd')"
      "if err = err_SUCCESS then oram_ok pr N orm' \<and> access_done N t f orm out orm' else err = err_ORAM__STASH_EXHAUSTION"
      "oram_room pr N orm \<longrightarrow> err = err_SUCCESS \<and> oram_room pr N orm'"
    using oram_access_result [where f = f, OF assms(1,2)] assms(3) by blast
  then show ?thesis by (simp add: oram_function_access_def)
qed

lemma length_content: "oram_ok pr N orm \<Longrightarrow> length (oram_content (o_state orm) i) = 168"
  unfolding oram_ok_def by (elim conjE) (rule length_oram_content)

subsection \<open>Reads and writes\<close>

text \<open>A program of reads and writes, and its run: the errors and what the reads give.\<close>

datatype oram_op = Get u64 | Put u64 "u64 list"

fun run_op :: "build_params \<Rightarrow> oram_op \<Rightarrow> oram \<Rightarrow> randombytes \<Rightarrow> (error_t \<times> u64 list option \<times> oram \<times> randombytes) option" where
  "run_op pr (Get i) orm rnd = oram_get pr orm i rnd"
| "run_op pr (Put i d) orm rnd = map_option (\<lambda>(err, orm, rnd). (err, None, orm, rnd)) (oram_put pr orm i d rnd)"

fun run_ops :: "build_params \<Rightarrow> oram_op list \<Rightarrow> oram \<Rightarrow> randombytes \<Rightarrow> (error_t \<times> u64 list option list \<times> oram \<times> randombytes) option" where
  "run_ops pr [] orm rnd = Some (err_SUCCESS, [], orm, rnd)"
| "run_ops pr (oo # ops) orm rnd =
     (case run_op pr oo orm rnd of
        None \<Rightarrow> None
      | Some (err, out, orm, rnd) \<Rightarrow>
          (if err \<noteq> err_SUCCESS then Some (err, [], orm, rnd)
           else map_option (\<lambda>(err, outs, r). (err, out # outs, r)) (run_ops pr ops orm rnd)))"

text \<open>The same program on a plain memory.\<close>

fun memory_op :: "oram_op \<Rightarrow> (u64 \<Rightarrow> u64 list) \<Rightarrow> u64 list option \<times> (u64 \<Rightarrow> u64 list)" where
  "memory_op (Get i) mem = (Some (mem i), mem)"
| "memory_op (Put i d) mem = (None, mem(i := take 168 d))"

fun memory_ops :: "oram_op list \<Rightarrow> (u64 \<Rightarrow> u64 list) \<Rightarrow> u64 list option list \<times> (u64 \<Rightarrow> u64 list)" where
  "memory_ops [] mem = ([], mem)"
| "memory_ops (oo # ops) mem = (
     let (out, mem) = memory_op oo mem; (outs, mem) = memory_ops ops mem in (out # outs, mem))"

fun op_ok :: "nat \<Rightarrow> oram_op \<Rightarrow> bool" where
  "op_ok N (Get i) = (unat i < N)"
| "op_ok N (Put i d) = (unat i < N \<and> 168 \<le> length d)"

lemma run_op_result:
  assumes inv: "oram_ok pr N orm" and ok: "op_ok N oo" and mem: "\<And>i. unat i < N \<Longrightarrow> oram_content (o_state orm) i = mem i"
  shows "\<exists>err out orm' rnd'. run_op pr oo orm rnd = Some (err, out, orm', rnd') \<and>
    (if err = err_SUCCESS
     then oram_ok pr N orm' \<and> out = fst (memory_op oo mem) \<and> (\<forall>i. unat i < N \<longrightarrow> oram_content (o_state orm') i = snd (memory_op oo mem) i)
     else err = err_ORAM__STASH_EXHAUSTION) \<and> (oram_room pr N orm \<longrightarrow> err = err_SUCCESS \<and> oram_room pr N orm')"
proof (cases oo)
  case (Get i)
  have "length (fst (block_data_to_buffer d)) = 168" if "length d = 168" for d using that by (simp add: block_data_to_buffer_def)
  then obtain err out orm' rnd' where a: "oram_function_access pr orm i block_data_to_buffer rnd = Some (err, out, orm', rnd')"
      "if err = err_SUCCESS then oram_ok pr N orm' \<and> access_done N i block_data_to_buffer orm out orm' else err = err_ORAM__STASH_EXHAUSTION"
      "oram_room pr N orm \<longrightarrow> err = err_SUCCESS \<and> oram_room pr N orm'"
    using oram_function_access_result [where f = block_data_to_buffer and t = i and rnd = rnd, OF inv] ok Get by (simp only: op_ok.simps) blast
  then show ?thesis using ok mem by (auto simp: Get oram_get_def access_done_def block_data_to_buffer_def)
next
  case (Put i d)
  have "length (fst (block_data_from_buffer d e)) = 168" for e using ok Put by (simp add: block_data_from_buffer_def)
  then obtain err out orm' rnd' where a: "oram_access pr orm i (block_data_from_buffer d) rnd = Some (err, out, orm', rnd')"
      "if err = err_SUCCESS then oram_ok pr N orm' \<and> access_done N i (block_data_from_buffer d) orm out orm' else err = err_ORAM__STASH_EXHAUSTION"
      "oram_room pr N orm \<longrightarrow> err = err_SUCCESS \<and> oram_room pr N orm'"
    using oram_access_result [where f = "block_data_from_buffer d" and t = i and rnd = rnd, OF inv] ok Put by (simp only: op_ok.simps) blast
  then show ?thesis using ok mem by (auto simp: Put oram_put_def access_done_def block_data_from_buffer_def)
qed

lemma run_ops_result:
  assumes "oram_ok pr N orm" "\<forall>oo \<in> set ops. op_ok N oo" "\<And>i. unat i < N \<Longrightarrow> oram_content (o_state orm) i = mem i"
  shows "\<exists>err outs orm' rnd'. run_ops pr ops orm rnd = Some (err, outs, orm', rnd') \<and>
    (if err = err_SUCCESS
     then oram_ok pr N orm' \<and> outs = fst (memory_ops ops mem) \<and> (\<forall>i. unat i < N \<longrightarrow> oram_content (o_state orm') i = snd (memory_ops ops mem) i)
     else err = err_ORAM__STASH_EXHAUSTION \<and> outs = take (length outs) (fst (memory_ops ops mem)) \<and> length outs < length ops) \<and>
    (oram_room pr N orm \<longrightarrow> err = err_SUCCESS)"
  using assms
proof (induction ops arbitrary: orm rnd mem)
  case (Cons oo ops)
  obtain err out orm1 rnd1 where 1: "run_op pr oo orm rnd = Some (err, out, orm1, rnd1)"
      "if err = err_SUCCESS
       then oram_ok pr N orm1 \<and> out = fst (memory_op oo mem) \<and> (\<forall>i. unat i < N \<longrightarrow> oram_content (o_state orm1) i = snd (memory_op oo mem) i)
       else err = err_ORAM__STASH_EXHAUSTION" "oram_room pr N orm \<longrightarrow> err = err_SUCCESS \<and> oram_room pr N orm1"
    using run_op_result [of pr N orm oo mem rnd, OF Cons.prems(1) _ Cons.prems(3)] Cons.prems(2) by (simp only: list.set ball_simps) blast
  show ?case
  proof (cases "err = err_SUCCESS")
    case True
    then obtain err' outs orm' rnd' where "run_ops pr ops orm1 rnd1 = Some (err', outs, orm', rnd')"
        "if err' = err_SUCCESS
         then oram_ok pr N orm' \<and> outs = fst (memory_ops ops (snd (memory_op oo mem))) \<and>
           (\<forall>i. unat i < N \<longrightarrow> oram_content (o_state orm') i = snd (memory_ops ops (snd (memory_op oo mem))) i)
         else err' = err_ORAM__STASH_EXHAUSTION \<and> outs = take (length outs) (fst (memory_ops ops (snd (memory_op oo mem)))) \<and> length outs < length ops"
        "oram_room pr N orm1 \<longrightarrow> err' = err_SUCCESS"
      using Cons.IH [of orm1 "snd (memory_op oo mem)" rnd1] Cons.prems(2) 1(2) by auto
    then show ?thesis using 1 True by (auto simp: Let_def split: prod.splits if_splits)
  next
    case False
    then show ?thesis using 1 by simp
  qed
qed simp

end
