(* ===== verification/OramCreate.thy ===== *)
theory OramCreate
  imports Oram
begin

text \<open>
  The creation of ORAMs and position maps (\<^verbatim>\<open>path_oram.c\<close>, \<^verbatim>\<open>position_map.c\<close>). Allocation is taken to
  succeed, as \<open>CHECK\<close> stops the program otherwise.

  Proved: an ORAM is created empty, and it satisfies the invariant if no write of the initial positions
  failed; clearing an ORAM keeps the invariant and empties it.
\<close>

section \<open>Definitions\<close>

definition scan_position_map_create :: "nat \<Rightarrow> u32 \<Rightarrow> entropy \<Rightarrow> u32 list \<times> entropy" where
  "scan_position_map_create map_size num_positions getentropy =
     (map (\<lambda>r. r mod num_positions) (stake map_size getentropy), sdrop map_size getentropy)"

definition scan_map_create :: "nat \<Rightarrow> u32 \<Rightarrow> entropy \<Rightarrow> position_map \<times> entropy" where
  "scan_map_create num_block_ids_in_domain num_positions_in_range getentropy = (
     let (data, getentropy) = scan_position_map_create num_block_ids_in_domain num_positions_in_range getentropy
     in (Scan_map (ucast num_positions_in_range) (of_nat num_block_ids_in_domain) data, getentropy))"

definition scan_position_map_create_120G_16shards :: "entropy \<Rightarrow> position_map \<times> entropy" where
  "scan_position_map_create_120G_16shards = scan_map_create 2536 4096"

definition scan_position_map_create_depth16 :: "entropy \<Rightarrow> position_map \<times> entropy" where
  "scan_position_map_create_depth16 = scan_map_create 159 256"

text \<open>What the functions that create an ORAM share.\<close>

definition oram_create :: "nat \<Rightarrow> nat \<Rightarrow> position_map \<Rightarrow> oram" where
  "oram_create num_levels num_blocks m = (
     let stash_overflow_size = 100;
         (depth, m) = position_map_recursion_depth m
     in Oram \<lparr>or_bucket_store = bucket_store_create (of_nat num_levels), or_stash = stash_create num_levels stash_overflow_size,
              or_path = tree_path_create num_levels, or_capacity_blocks = of_nat num_blocks,
              or_statistics = zero_statistics\<lparr>os_recursion_depth := depth\<rparr>\<rparr> m)"

definition oram_create_120G_16shards_posmap :: "entropy \<Rightarrow> oram \<times> entropy" where
  "oram_create_120G_16shards_posmap getentropy = (
     let num_levels = 13; num_blocks = 2 ^ num_levels;
         (m, getentropy) = scan_position_map_create_120G_16shards getentropy
     in (oram_create num_levels num_blocks m, getentropy))"

definition oram_create_depth16_posmap :: "entropy \<Rightarrow> oram \<times> entropy" where
  "oram_create_depth16_posmap getentropy = (
     let num_levels = 9; num_blocks = 159;
         (m, getentropy) = scan_position_map_create_depth16 getentropy
     in (oram_create num_levels num_blocks m, getentropy))"

text \<open>
  The loop that fills the ORAM of a position map with random positions, a block at a time from number
  \<open>i\<close> on. The error of \<open>oram_position_map_put\<close> is not looked at; the errors are kept here to speak of them.
\<close>

fun fill_position_map ::
    "build_params \<Rightarrow> u32 \<Rightarrow> nat \<Rightarrow> nat \<Rightarrow> oram \<Rightarrow> entropy \<Rightarrow> randombytes \<Rightarrow> (error_t list \<times> oram \<times> entropy \<times> randombytes) option" where
  "fill_position_map pr num_positions_in_range i 0 orm getentropy rnd = Some ([], orm, getentropy, rnd)"
| "fill_position_map pr num_positions_in_range i (Suc n) orm getentropy rnd = (
     let buf = map (\<lambda>r. r mod num_positions_in_range) (stake (BLOCK_DATA_SIZE_QWORDS * 2) getentropy)
     in case oram_position_map_put pr orm (of_nat i) (u64s_of_u32s buf) rnd of
          None \<Rightarrow> None
        | Some (err, orm, rnd) \<Rightarrow>
            map_option (\<lambda>(errs, r). (err # errs, r))
              (fill_position_map pr num_positions_in_range (Suc i) n orm (sdrop (BLOCK_DATA_SIZE_QWORDS * 2) getentropy) rnd))"

definition oram_position_map_create ::
    "build_params \<Rightarrow> nat \<Rightarrow> u32 \<Rightarrow> oram \<Rightarrow> entropy \<Rightarrow> randombytes \<Rightarrow> (error_t list \<times> position_map \<times> entropy \<times> randombytes) option" where
  "oram_position_map_create pr num_block_ids_in_domain num_positions_in_range orm getentropy rnd = (
     let block_size = unat (oram_block_size orm);
         blocks_needed = num_block_ids_in_domain div (block_size * 2) + (if num_block_ids_in_domain mod (block_size * 2) = 0 then 0 else 1);
         entries_per_block = of_nat (block_size * 2)
     in case fill_position_map pr num_positions_in_range 0 blocks_needed orm getentropy rnd of
          None \<Rightarrow> None
        | Some (errs, orm, getentropy, rnd) \<Rightarrow>
            (case prep_ct_div entries_per_block of
               None \<Rightarrow> None
             | Some (m_prime, shift1, shift2) \<Rightarrow>
                 Some (errs, Oram_map (ucast num_positions_in_range) (of_nat num_block_ids_in_domain) orm entries_per_block m_prime shift1 shift2,
                       getentropy, rnd)))"

definition oram_position_map_create_120G_16shards ::
    "build_params \<Rightarrow> entropy \<Rightarrow> randombytes \<Rightarrow> (error_t list \<times> position_map \<times> entropy \<times> randombytes) option" where
  "oram_position_map_create_120G_16shards pr getentropy rnd = (
     let (orm, getentropy) = oram_create_120G_16shards_posmap getentropy
     in oram_position_map_create pr 851968 524288 orm getentropy rnd)"

definition oram_position_map_create_depth16 ::
    "build_params \<Rightarrow> entropy \<Rightarrow> randombytes \<Rightarrow> (error_t list \<times> position_map \<times> entropy \<times> randombytes) option" where
  "oram_position_map_create_depth16 pr getentropy rnd = (
     let (orm, getentropy) = oram_create_depth16_posmap getentropy
     in oram_position_map_create pr 53248 32768 orm getentropy rnd)"

definition oram_create_120G_16shards ::
    "build_params \<Rightarrow> entropy \<Rightarrow> randombytes \<Rightarrow> (error_t list \<times> oram \<times> entropy \<times> randombytes) option" where
  "oram_create_120G_16shards pr getentropy rnd = (
     let num_levels = 20; num_blocks = 2 ^ (num_levels - 1) * 13 div 8
     in map_option (\<lambda>(errs, m, r). (errs, oram_create num_levels num_blocks m, r)) (oram_position_map_create_120G_16shards pr getentropy rnd))"

definition oram_create_depth16 ::
    "build_params \<Rightarrow> entropy \<Rightarrow> randombytes \<Rightarrow> (error_t list \<times> oram \<times> entropy \<times> randombytes) option" where
  "oram_create_depth16 pr getentropy rnd = (
     let num_levels = 16; num_blocks = 2 ^ (num_levels - 1) * 13 div 8
     in map_option (\<lambda>(errs, m, r). (errs, oram_create num_levels num_blocks m, r)) (oram_position_map_create_depth16 pr getentropy rnd))"

section \<open>Empty ORAMs\<close>

lemma set_concat_replicate: "set (concat (replicate n (replicate k x))) \<subseteq> {x}"
  by auto

lemma live_ff: "set bs \<subseteq> {ff_block} \<Longrightarrow> live bs = {#}"
  by (auto simp: live_def block_is_empty_def filter_mset_eq_conv)

lemma oram_inv_empty:
  assumes "0 < L" "L \<le> 62" "N < 2 ^ 64" "or_bucket_store s = replicate (2 ^ L - 1) (replicate 3 ff_block)"
    "length (st_path_blocks (or_stash s)) = 3 * L" "set (st_overflow_blocks (or_stash s)) \<subseteq> {ff_block}"
  shows "oram_inv L N pos s" "i \<noteq> UINT64_MAX \<Longrightarrow> oram_content s i = replicate 168 UINT64_MAX"
proof -
  have ff: "set (oram_blocks s) \<subseteq> {ff_block}" using assms(4,6) by (auto simp: oram_blocks_def)
  then have ff': "\<And>b. b \<in> set (oram_blocks s) \<Longrightarrow> b = ff_block" by blast
  have "unique_ids (oram_blocks s)" unfolding unique_ids_live live_ff [OF ff] by simp
  then show "oram_inv L N pos s"
    unfolding oram_inv_def using assms by (auto dest!: ff' simp: block_is_empty_def)
  show "oram_content s i = replicate 168 UINT64_MAX" if "i \<noteq> UINT64_MAX"
    unfolding oram_content_def using that by (intro content_of_absent) (simp_all add: live_ff [OF ff])
qed

lemma bucket_store_create_length:
  assumes "L \<le> 62"
  shows "bucket_store_create (of_nat L) = replicate (2 ^ L - 1) (replicate 3 ff_block)"
proof -
  have u: "unat (of_nat L :: u64) = L" using assms by (intro unat_of_nat_small) simp
  have "unat (push_bit L 1 :: u64) = 2 ^ L" using assms unat_pow2_64 [of L] by (simp add: push_bit_eq_mult)
  then have "unat (push_bit L 1 - 1 :: u64) = 2 ^ L - 1"
    by (subst unat_sub) (simp_all add: word_le_nat_alt)
  then show ?thesis by (simp add: bucket_store_create_def tree_path_num_nodes_def u)
qed

text \<open>An ORAM is created empty.\<close>

lemma oram_create_result:
  assumes "0 < L" "L \<le> 62" "N < 2 ^ 64"
  shows "oram_inv L N pos (o_state (oram_create L nb m))" "i \<noteq> UINT64_MAX \<Longrightarrow> oram_content (o_state (oram_create L nb m)) i = replicate 168 UINT64_MAX"
    "o_position_map (oram_create L nb m) = snd (position_map_recursion_depth m)"
proof -
  let ?s = "o_state (oram_create L nb m)"
  have s: "or_bucket_store ?s = replicate (2 ^ L - 1) (replicate 3 ff_block)" "length (st_path_blocks (or_stash ?s)) = 3 * L"
      "set (st_overflow_blocks (or_stash ?s)) \<subseteq> {ff_block}"
    by (auto simp: oram_create_def bucket_store_create_length [OF assms(2)] stash_create_def Let_def split: prod.splits)
  show "oram_inv L N pos ?s" "i \<noteq> UINT64_MAX \<Longrightarrow> oram_content ?s i = replicate 168 UINT64_MAX"
    using oram_inv_empty [OF assms s] by blast+
  show "o_position_map (oram_create L nb m) = snd (position_map_recursion_depth m)"
    by (simp add: oram_create_def split: prod.splits)
qed

lemma oram_clear_result:
  assumes "oram_ok pr N orm"
  shows "oram_ok pr N (oram_clear orm)" "i \<noteq> UINT64_MAX \<Longrightarrow> oram_content (o_state (oram_clear orm)) i = replicate 168 UINT64_MAX"
proof -
  let ?s = "o_state (oram_clear orm)" and ?L = "PATH_LENGTH pr"
  note I = oram_invD [OF assms [unfolded oram_ok_def, THEN conjunct1]]
  have s: "or_bucket_store ?s = replicate (2 ^ ?L - 1) (replicate 3 ff_block)" "length (st_path_blocks (or_stash ?s)) = 3 * ?L"
      "set (st_overflow_blocks (or_stash ?s)) \<subseteq> {ff_block}"
    using I by (auto simp: oram_clear_def set_state_def bucket_store_clear_def stash_clear_def)
  have m: "o_position_map (oram_clear orm) = o_position_map orm" by (simp add: oram_clear_def set_state_def)
  show "oram_ok pr N (oram_clear orm)" "i \<noteq> UINT64_MAX \<Longrightarrow> oram_content ?s i = replicate 168 UINT64_MAX"
    using oram_inv_empty [OF I(1,2,10) s] assms by (simp_all add: oram_ok_def m)
qed

lemma mod_positions_lt:
  assumes "unat np = 2 ^ (L - 1)" "x \<in> set (map (\<lambda>r. r mod np) xs)"
  shows "unat (x :: u32) < 2 ^ (L - 1)"
proof -
  obtain r where "x = r mod np" using assms(2) by auto
  then show ?thesis using assms(1) by (simp add: unat_mod)
qed

lemma scan_map_create_result:
  assumes "unat np = 2 ^ (L - 1)" "L \<le> 32" "n < 2 ^ 64"
  shows "scan_inv n L (fst (scan_map_create n np ent))"
  using assms mod_positions_lt [OF assms(1)]
  by (auto simp: scan_map_create_def scan_position_map_create_def scan_inv_def Let_def)

lemma linear_inv_create:
  assumes "scan_inv (POSITION_MAP_SIZE_0 pr) (PATH_LENGTH_0 pr) m0" "0 < PATH_LENGTH_0 pr"
  shows "linear_inv pr (oram_create (PATH_LENGTH_0 pr) nb m0)"
proof -
  obtain npos sz data where "m0 = Scan_map npos sz data" "POSITION_MAP_SIZE_0 pr < 2 ^ 64" "PATH_LENGTH_0 pr \<le> 32"
    using assms(1) by (auto simp: scan_inv_def split: position_map.splits)
  then show ?thesis
    using assms oram_create_result(1) [of "PATH_LENGTH_0 pr" "POSITION_MAP_SIZE_0 pr" _ nb m0]
      oram_create_result(3) [of "PATH_LENGTH_0 pr" "POSITION_MAP_SIZE_0 pr" nb m0]
    by (simp add: linear_inv_def position_map_recursion_depth_def)
qed

text \<open>A put into the ORAM of a position map, and its result on the positions stored.\<close>

definition positions_below :: "nat \<Rightarrow> nat \<Rightarrow> oram \<Rightarrow> bool" where
  "positions_below L k orm \<longleftrightarrow> (\<forall>i < k. \<forall>x \<in> set (u32s_of_u64s (oram_content (o_state orm) (of_nat i))). unat x < 2 ^ (L - 1))"

lemma position_map_put_result:
  assumes inv: "linear_inv pr orm" and i: "unat t < POSITION_MAP_SIZE_0 pr" and d: "length d = 168"
  shows "\<exists>err orm' rnd'. oram_position_map_put pr orm t d rnd = Some (err, orm', rnd') \<and>
    (if err = err_SUCCESS
     then linear_inv pr orm' \<and> (\<forall>j. unat j < POSITION_MAP_SIZE_0 pr \<longrightarrow>
            oram_content (o_state orm') j = (if j = t then d else oram_content (o_state orm) j))
     else err = err_ORAM__STASH_EXHAUSTION) \<and>
    length (st_overflow_blocks (or_stash (o_state orm'))) = length (st_overflow_blocks (or_stash (o_state orm))) \<and>
    (POSITION_MAP_SIZE_0 pr \<le> length (st_overflow_blocks (or_stash (o_state orm))) \<longrightarrow> err = err_SUCCESS)"
proof -
  have "length (fst (block_data_from_buffer d e)) = 168" for e using d by (simp add: block_data_from_buffer_def)
  then obtain err out orm' rnd' where "linear_access pr orm t (block_data_from_buffer d) rnd = Some (err, out, orm', rnd')"
      "if err = err_SUCCESS then linear_inv pr orm' \<and> access_done (POSITION_MAP_SIZE_0 pr) t (block_data_from_buffer d) orm out orm'
       else err = err_ORAM__STASH_EXHAUSTION" "same_frame (o_state orm) (o_state orm')"
      "POSITION_MAP_SIZE_0 pr \<le> length (st_overflow_blocks (or_stash (o_state orm))) \<longrightarrow> err = err_SUCCESS"
    using linear_access_result [where f = "block_data_from_buffer d" and rnd = rnd, OF inv i] by blast
  then show ?thesis using d by (auto simp: oram_position_map_put_def position_map_put_def access_done_def block_data_from_buffer_def same_frame_def)
qed

lemma fill_position_map_result:
  assumes "linear_inv pr orm" "unat np = 2 ^ (L - 1)" "k + n \<le> POSITION_MAP_SIZE_0 pr" "positions_below L k orm"
    and "fill_position_map pr np k n orm ent rnd = Some (errs, orm', ent', rnd')" "\<forall>e \<in> set errs. e = err_SUCCESS"
  shows "linear_inv pr orm' \<and> positions_below L (k + n) orm'"
  using assms
proof (induction n arbitrary: k orm ent rnd errs)
  case (Suc n)
  define buf where "buf = map (\<lambda>r. r mod np) (stake 336 ent)"
  have N: "POSITION_MAP_SIZE_0 pr < 2 ^ 64" using oram_invD(10) Suc.prems(1) unfolding linear_inv_def by blast
  have u: "unat (of_nat j :: u64) = j" if "j \<le> k" for j using that Suc.prems(3) N by (simp add: unat_of_nat_64)
  have buf: "u32s_of_u64s (u64s_of_u32s buf) = buf" "length (u64s_of_u32s buf) = 168"
    using u32s_of_u64s_inverse [of buf] by (simp_all add: buf_def)
  have lt: "\<forall>x \<in> set buf. unat x < 2 ^ (L - 1)" using mod_positions_lt [OF Suc.prems(2)] by (auto simp: buf_def)
  have "unat (of_nat k :: u64) < POSITION_MAP_SIZE_0 pr" using u [of k] Suc.prems(3) by simp
  then obtain err orm1 rnd1 where p: "oram_position_map_put pr orm (of_nat k) (u64s_of_u32s buf) rnd = Some (err, orm1, rnd1)"
      "if err = err_SUCCESS
       then linear_inv pr orm1 \<and> (\<forall>j. unat j < POSITION_MAP_SIZE_0 pr \<longrightarrow>
              oram_content (o_state orm1) j = (if j = of_nat k then u64s_of_u32s buf else oram_content (o_state orm) j))
       else err = err_ORAM__STASH_EXHAUSTION"
    using position_map_put_result [OF Suc.prems(1) _ buf(2)] by blast
  obtain errs1 where f: "fill_position_map pr np (Suc k) n orm1 (sdrop 336 ent) rnd1 = Some (errs1, orm', ent', rnd')" "errs = err # errs1"
    using Suc.prems(5) p(1) by (auto simp: buf_def Let_def)
  then have e: "err = err_SUCCESS" "\<forall>e \<in> set errs1. e = err_SUCCESS" using Suc.prems(6) by simp_all
  have "positions_below L (Suc k) orm1"
    unfolding positions_below_def
  proof (intro allI impI)
    fix i assume i: "i < Suc k"
    have "unat (of_nat i :: u64) < POSITION_MAP_SIZE_0 pr" using u [of i] i Suc.prems(3) by simp
    then have "oram_content (o_state orm1) (of_nat i) = (if (of_nat i :: u64) = of_nat k then u64s_of_u32s buf else oram_content (o_state orm) (of_nat i))"
      using p(2) e(1) by simp
    moreover have "(of_nat i :: u64) = of_nat k \<longleftrightarrow> i = k" using u [of i] u [of k] i by (metis less_Suc_eq_le order_refl)
    ultimately show "\<forall>x \<in> set (u32s_of_u64s (oram_content (o_state orm1) (of_nat i))). unat x < 2 ^ (L - 1)"
      using i lt buf(1) Suc.prems(4) by (auto simp: positions_below_def less_Suc_eq)
  qed
  then show ?case using Suc.IH [OF _ Suc.prems(2) _ _ f(1) e(2)] p(2) e(1) Suc.prems(3) by simp
qed simp

text \<open>No put fails when the stash has a slot for every block of the map.\<close>

lemma fill_position_map_room:
  assumes "linear_inv pr orm" "k + n \<le> POSITION_MAP_SIZE_0 pr" "POSITION_MAP_SIZE_0 pr \<le> length (st_overflow_blocks (or_stash (o_state orm)))"
    and "fill_position_map pr np k n orm ent rnd = Some (errs, orm', ent', rnd')"
  shows "\<forall>e \<in> set errs. e = err_SUCCESS"
  using assms
proof (induction n arbitrary: k orm ent rnd errs)
  case (Suc n)
  let ?d = "u64s_of_u32s (map (\<lambda>r. r mod np) (stake 336 ent))"
  have N: "POSITION_MAP_SIZE_0 pr < 2 ^ 64" using oram_invD(10) Suc.prems(1) unfolding linear_inv_def by blast
  have d: "length ?d = 168" using u32s_of_u64s_inverse [of "map (\<lambda>r. r mod np) (stake 336 ent)"] by simp
  have k: "unat (of_nat k :: u64) < POSITION_MAP_SIZE_0 pr" using Suc.prems(2) N by (simp add: unat_of_nat_64)
  obtain orm1 rnd1 where p: "oram_position_map_put pr orm (of_nat k) ?d rnd = Some (err_SUCCESS, orm1, rnd1)" "linear_inv pr orm1"
      "length (st_overflow_blocks (or_stash (o_state orm1))) = length (st_overflow_blocks (or_stash (o_state orm)))"
    using position_map_put_result [OF Suc.prems(1) k d, of rnd] Suc.prems(3) by auto
  obtain errs1 where "fill_position_map pr np (Suc k) n orm1 (sdrop 336 ent) rnd1 = Some (errs1, orm', ent', rnd')" "errs = err_SUCCESS # errs1"
    using Suc.prems(4) p(1) by (auto simp: Let_def)
  then show ?case using Suc.IH [OF p(2), of "Suc k" "sdrop 336 ent" rnd1 errs1] Suc.prems(2,3) p(3) by simp
qed simp

lemma blocks_needed_bounds:
  fixes n z :: nat
  assumes "n \<le> 336 * z"
  shows "n div 336 + (if n mod 336 = 0 then 0 else 1) \<le> z" "n \<le> 336 * (n div 336 + (if n mod 336 = 0 then 0 else 1))"
proof -
  have d: "n = 336 * (n div 336) + n mod 336" "n mod 336 < 336" by simp_all
  show "n div 336 + (if n mod 336 = 0 then 0 else 1) \<le> z"
  proof (cases "n mod 336 = 0")
    case False
    then have "336 * (n div 336) < 336 * z" using assms d by linarith
    then show ?thesis using False by simp
  qed (use assms d in simp)
  show "n \<le> 336 * (n div 336 + (if n mod 336 = 0 then 0 else 1))" using d by (cases "n mod 336 = 0") simp_all
qed

text \<open>The map in an ORAM that is created, when no put failed.\<close>

lemma oram_position_map_create_result:
  assumes scan: "scan_inv (POSITION_MAP_SIZE_0 pr) (PATH_LENGTH_0 pr) m0" "0 < PATH_LENGTH_0 pr"
    and n: "0 < n" "n \<le> 336 * POSITION_MAP_SIZE_0 pr" and np: "unat np = 2 ^ (L - 1)" "L \<le> 32"
    and c: "oram_position_map_create pr n np (oram_create (PATH_LENGTH_0 pr) nb m0) ent rnd = Some (errs, m, ent', rnd')"
      "\<forall>e \<in> set errs. e = err_SUCCESS"
  shows "oram_map_inv pr n L m"
proof -
  let ?o0 = "oram_create (PATH_LENGTH_0 pr) nb m0" and ?k = "n div 336 + (if n mod 336 = 0 then 0 else 1)"
  note i0 = linear_inv_create [OF scan, of nb]
  obtain orm mp s1 s2 where f: "fill_position_map pr np 0 ?k ?o0 ent rnd = Some (errs, orm, ent', rnd')"
      "prep_ct_div 336 = Some (mp, s1, s2)" "m = Oram_map (ucast np) (of_nat n) orm 336 mp s1 s2"
    using c(1) by (auto simp: oram_position_map_create_def oram_block_size_def Let_def split: option.splits prod.splits)
  note k = blocks_needed_bounds [OF n(2)]
  have r: "linear_inv pr orm" "positions_below L ?k orm"
    using fill_position_map_result [OF i0 np(1) _ _ f(1) c(2)] k(1) by (simp_all add: positions_below_def)
  have "unat (oram_map_pos m i) < 2 ^ (L - 1)" if i: "unat i < n" for i
  proof -
    have b: "unat i div 336 < ?k" using i k(2) by (simp add: less_mult_imp_div_less mult.commute less_le_trans)
    have w: "i div 336 = of_nat (unat i div 336)" by (rule word64_eqI) (simp add: word_div_mod_336 unat_of_nat_64 div_less_dividend le_less_trans [OF div_le_dividend])
    have "oram_inv (PATH_LENGTH_0 pr) (POSITION_MAP_SIZE_0 pr) (scan_pos (o_position_map orm)) (o_state orm)" using r(1) by (simp add: linear_inv_def)
    then have "unat (i mod 336) < length (u32s_of_u64s (oram_content (o_state orm) (i div 336)))"
      by (simp add: length_oram_content word_div_mod_336)
    then have "u32s_of_u64s (oram_content (o_state orm) (i div 336)) ! unat (i mod 336) \<in> set (u32s_of_u64s (oram_content (o_state orm) (i div 336)))" by (rule nth_mem)
    then show ?thesis using r(2) b by (simp add: positions_below_def oram_map_pos_def f(3) ucast_32_64 w)
  qed
  then show ?thesis using r(1) f(2,3) n(2) np(2) by (simp add: oram_map_inv_def)
qed

lemma oram_position_map_create_room:
  assumes scan: "scan_inv (POSITION_MAP_SIZE_0 pr) (PATH_LENGTH_0 pr) m0" "0 < PATH_LENGTH_0 pr"
    and n: "n \<le> 336 * POSITION_MAP_SIZE_0 pr" "POSITION_MAP_SIZE_0 pr \<le> 100"
    and c: "oram_position_map_create pr n np (oram_create (PATH_LENGTH_0 pr) nb m0) ent rnd = Some (errs, m, ent', rnd')"
  shows "\<forall>e \<in> set errs. e = err_SUCCESS"
proof -
  let ?o0 = "oram_create (PATH_LENGTH_0 pr) nb m0" and ?k = "n div 336 + (if n mod 336 = 0 then 0 else 1)"
  note i0 = linear_inv_create [OF scan, of nb]
  obtain orm where f: "fill_position_map pr np 0 ?k ?o0 ent rnd = Some (errs, orm, ent', rnd')"
    using c(1) by (auto simp: oram_position_map_create_def oram_block_size_def Let_def split: option.splits prod.splits)
  have "length (st_overflow_blocks (or_stash (o_state ?o0))) = 100" by (simp add: oram_create_def stash_create_def Let_def split: prod.splits)
  then show ?thesis using fill_position_map_room [OF i0 _ _ f] blocks_needed_bounds(1) [OF n(1)] n(2) by simp
qed

text \<open>Reading the statistics of the inner ORAM changes nothing else.\<close>

lemma recursion_depth_frame:
  assumes "oram_map_inv pr n L m"
  shows "oram_map_inv pr n L (snd (position_map_recursion_depth m))" "oram_map_pos (snd (position_map_recursion_depth m)) = oram_map_pos m"
proof -
  obtain np sz orm epb mp s1 s2 where m: "m = Oram_map np sz orm epb mp s1 s2" "linear_inv pr orm"
    using assms by (auto simp: oram_map_inv_def split: position_map.splits)
  obtain s np' sz' data where o: "orm = Oram s (Scan_map np' sz' data)"
    using m(2) by (cases orm) (auto simp: linear_inv_def scan_inv_def split: position_map.splits)
  define m' where "m' = snd (position_map_recursion_depth m)"
  have m': "m' = Oram_map np sz (Oram (s\<lparr>or_statistics := fst (oram_report_statistics orm)\<rparr>) (Scan_map np' sz' data)) epb mp s1 s2"
    by (simp add: m'_def position_map_recursion_depth_def m(1) o Let_def)
  have p: "oram_map_pos m' = oram_map_pos m" by (simp add: oram_map_pos_def m(1) m' o fun_eq_iff)
  then show "oram_map_pos (snd (position_map_recursion_depth m)) = oram_map_pos m" by (simp add: m'_def)
  have "linear_inv pr (om_oram m')" using m(2) by (simp add: m' o linear_inv_def)
  then have "oram_map_inv pr n L m'" using assms p unfolding oram_map_inv_def by (simp add: m(1)) (simp add: m')
  then show "oram_map_inv pr n L (snd (position_map_recursion_depth m))" by (simp add: m'_def)
qed

lemma oram_create_ok:
  assumes "oram_map_inv pr N (PATH_LENGTH pr) m" "0 < PATH_LENGTH pr" "N < 2 ^ 64"
  shows "oram_ok pr N (oram_create (PATH_LENGTH pr) nb m)"
proof -
  have L: "PATH_LENGTH pr \<le> 62" using assms(1) by (auto simp: oram_map_inv_def split: position_map.splits)
  note c = oram_create_result [OF assms(2) L assms(3)]
  show ?thesis unfolding oram_ok_def c(3) using c(1) recursion_depth_frame(1) [OF assms(1)] by simp
qed

text \<open>Filling the position map ends, whether the puts fail or not.\<close>

definition scans :: "build_params \<Rightarrow> oram \<Rightarrow> bool" where
  "scans pr orm \<longleftrightarrow> (case o_position_map orm of Scan_map _ _ data \<Rightarrow> length data = POSITION_MAP_SIZE_0 pr | _ \<Rightarrow> False)"

lemma position_map_put_total:
  assumes "scans pr orm" "POSITION_MAP_SIZE_0 pr < 2 ^ 64" "168 \<le> length d"
  shows "\<exists>err orm' rnd'. oram_position_map_put pr orm t d rnd = Some (err, orm', rnd') \<and> scans pr orm'"
proof -
  obtain np sz data where m: "o_position_map orm = Scan_map np sz data" "length data = POSITION_MAP_SIZE_0 pr"
    using assms(1) by (auto simp: scans_def split: position_map.splits)
  obtain x data' where "scan_position_map_set (POSITION_MAP_SIZE_0 pr) data t p = Some (x p, data' p) \<and> length (data' p) = POSITION_MAP_SIZE_0 pr" for p
    using m(2) assms(2) by (auto simp: scan_position_map_set_result intro: that [of "\<lambda>p. if unat t < POSITION_MAP_SIZE_0 pr then ucast (data ! unat t) else ucast (ucast p :: u32)"
      "\<lambda>p. if unat t < POSITION_MAP_SIZE_0 pr then data[unat t := ucast p] else data"])
  then show ?thesis using m assms(3)
    by (auto simp: oram_position_map_put_def position_map_put_def linear_access_def access_via_def read_then_set_linear_def scans_def
        oram_collect_statistics_def set_state_def Let_def split: prod.splits)
qed

lemma fill_position_map_total:
  assumes "scans pr orm" "POSITION_MAP_SIZE_0 pr < 2 ^ 64"
  shows "\<exists>errs orm' ent' rnd'. fill_position_map pr np k n orm ent rnd = Some (errs, orm', ent', rnd') \<and> length errs = n"
  using assms(1)
proof (induction n arbitrary: k orm ent rnd)
  case (Suc n)
  let ?d = "u64s_of_u32s (map (\<lambda>r. r mod np) (stake 336 ent))"
  have "168 \<le> length ?d" using u32s_of_u64s_inverse [of "map (\<lambda>r. r mod np) (stake 336 ent)"] by simp
  then obtain err orm1 rnd1 where 1: "oram_position_map_put pr orm (of_nat k) ?d rnd = Some (err, orm1, rnd1)" "scans pr orm1"
    using position_map_put_total [OF Suc.prems assms(2)] by blast
  then obtain errs orm' ent' rnd' where "fill_position_map pr np (Suc k) n orm1 (sdrop 336 ent) rnd1 = Some (errs, orm', ent', rnd') \<and> length errs = n"
    using Suc.IH by blast
  then show ?case using 1 by (simp add: Let_def)
qed simp

lemma oram_position_map_create_total:
  assumes "scan_inv (POSITION_MAP_SIZE_0 pr) L0 m0"
  shows "\<exists>errs m ent' rnd'. oram_position_map_create pr n np (oram_create L0 nb m0) ent rnd = Some (errs, m, ent', rnd')"
proof -
  obtain npos sz data where m0: "m0 = Scan_map npos sz data" "length data = POSITION_MAP_SIZE_0 pr" "POSITION_MAP_SIZE_0 pr < 2 ^ 64"
    using assms by (auto simp: scan_inv_def split: position_map.splits)
  have "scans pr (oram_create L0 nb m0)" using m0 by (simp add: scans_def oram_create_def position_map_recursion_depth_def)
  note f = fill_position_map_total [OF this m0(3)]
  obtain mp s where "prep_ct_div 336 = Some (mp, 1, s)" using prep_ct_div_result [of 336] by auto
  then show ?thesis using f [of np 0 "n div 336 + (if n mod 336 = 0 then 0 else 1)" ent rnd]
    by (auto simp: oram_position_map_create_def oram_block_size_def Let_def)
qed

text \<open>The two ORAMs that are created. The errors are those of the puts that fill the position map.\<close>

lemma oram_create_depth16_result:
  assumes "PATH_LENGTH pr = 16" "PATH_LENGTH_0 pr = 9" "POSITION_MAP_SIZE_0 pr = 159"
  shows "\<exists>errs orm ent' rnd'. oram_create_depth16 pr ent rnd = Some (errs, orm, ent', rnd') \<and>
    ((\<forall>e \<in> set errs. e = err_SUCCESS) \<longrightarrow> oram_ok pr 53248 orm)"
proof -
  obtain m0 ent0 where m0: "scan_position_map_create_depth16 ent = (m0, ent0)" by fastforce
  have s: "scan_inv 159 9 m0" using scan_map_create_result [of 256 9 159 ent] m0 by (simp add: scan_position_map_create_depth16_def)
  obtain errs m ent' rnd' where m: "oram_position_map_create pr 53248 32768 (oram_create 9 159 m0) ent0 rnd = Some (errs, m, ent', rnd')"
    using oram_position_map_create_total [of pr 9 m0] s assms(3) by metis
  have "oram_ok pr 53248 (oram_create 16 53248 m)" if "\<forall>e \<in> set errs. e = err_SUCCESS"
  proof -
    have "oram_map_inv pr 53248 16 m"
      using assms s m that by (intro oram_position_map_create_result [of pr m0 _ _ _ 159 ent0 rnd errs m ent' rnd']) simp_all
    then show ?thesis using oram_create_ok [of pr 53248 m 53248] assms(1) by simp
  qed
  then show ?thesis using m m0
    by (simp add: oram_create_depth16_def oram_position_map_create_depth16_def oram_create_depth16_posmap_def Let_def)
qed

lemma oram_create_120G_16shards_result:
  assumes "PATH_LENGTH pr = 20" "PATH_LENGTH_0 pr = 13" "POSITION_MAP_SIZE_0 pr = 2536"
  shows "\<exists>errs orm ent' rnd'. oram_create_120G_16shards pr ent rnd = Some (errs, orm, ent', rnd') \<and>
    ((\<forall>e \<in> set errs. e = err_SUCCESS) \<longrightarrow> oram_ok pr 851968 orm)"
proof -
  obtain m0 ent0 where m0: "scan_position_map_create_120G_16shards ent = (m0, ent0)" by fastforce
  have s: "scan_inv 2536 13 m0" using scan_map_create_result [of 4096 13 2536 ent] m0 by (simp add: scan_position_map_create_120G_16shards_def)
  obtain errs m ent' rnd' where m: "oram_position_map_create pr 851968 524288 (oram_create 13 8192 m0) ent0 rnd = Some (errs, m, ent', rnd')"
    using oram_position_map_create_total [of pr 13 m0] s assms(3) by metis
  have "oram_ok pr 851968 (oram_create 20 851968 m)" if "\<forall>e \<in> set errs. e = err_SUCCESS"
  proof -
    have "oram_map_inv pr 851968 20 m"
      using assms s m that by (intro oram_position_map_create_result [of pr m0 _ _ _ 8192 ent0 rnd errs m ent' rnd']) simp_all
    then show ?thesis using oram_create_ok [of pr 851968 m 851968] assms(1) by simp
  qed
  then show ?thesis using m m0
    by (simp add: oram_create_120G_16shards_def oram_position_map_create_120G_16shards_def oram_create_120G_16shards_posmap_def Let_def)
qed

end
