(* ===== verification/OramDemo.thy ===== *)
theory OramDemo
  imports OramCreate
begin

text \<open>
  The smallest ORAM: trees of one bucket, a position map of one block, two blocks. It serves as the
  concrete instance of the theorems on ORAMs.
\<close>

definition demo_params :: build_params where
  "demo_params = \<lparr>NUM_SHARDS = 1, PATH_LENGTH = 1, PATH_LENGTH_0 = 1, POSITION_MAP_SIZE_0 = 1\<rparr>"

definition zero_block :: block where
  "zero_block = \<lparr>b_id = 0, b_position = 0, b_data = replicate 168 0\<rparr>"

definition demo_state :: oram_state where
  "demo_state = \<lparr>or_bucket_store = [[zero_block, ff_block, ff_block]], or_stash = stash_create 1 2, or_path = [0],
     or_capacity_blocks = 1, or_statistics = zero_statistics\<rparr>"

definition demo_map :: position_map where
  "demo_map = (case prep_ct_div 336 of Some (m, s1, s2) \<Rightarrow> Oram_map 1 2 (Oram demo_state (Scan_map 1 1 [0])) 336 m s1 s2)"

definition demo_oram :: oram where
  "demo_oram = oram_create 1 2 demo_map"

lemma demo_node_covers: "node_covers 0 0"
  using path_covers [of 0 1 0 0] by (simp add: path_node_def tree_node_def)

lemma demo_state_blocks: "oram_blocks demo_state = [zero_block, ff_block, ff_block, ff_block, ff_block]"
  by (simp add: oram_blocks_def demo_state_def stash_create_def numeral_2_eq_2)

lemma demo_state_content: "oram_content demo_state 0 = replicate 168 0"
  by (simp add: oram_content_def demo_state_blocks content_of_def zero_block_def)

lemma demo_state_inv: "oram_inv 1 1 (\<lambda>_. 0) demo_state"
  unfolding oram_inv_def demo_state_blocks
  by (simp add: demo_state_def stash_create_def zero_block_def block_ok_def unique_ids_def block_is_empty_def demo_node_covers ff_block_def)

lemma demo_linear_inv: "linear_inv demo_params (Oram demo_state (Scan_map 1 1 [0]))"
proof -
  have "oram_inv 1 1 (scan_pos (Scan_map 1 1 [0])) demo_state \<longleftrightarrow> oram_inv 1 1 (\<lambda>_. 0) demo_state"
    by (intro oram_inv_cong) (simp add: scan_pos_def)
  then show ?thesis using demo_state_inv by (simp add: linear_inv_def demo_params_def scan_inv_def)
qed

lemma u32s_replicate: "u32s_of_u64s (replicate n 0) = replicate (2 * n) 0"
  by (induction n) (simp_all add: u32s_of_u64s_def)

lemma demo_map_inv: "oram_map_inv demo_params 2 1 demo_map"
proof -
  obtain m s where p: "prep_ct_div 336 = Some (m, 1, s)" using prep_ct_div_result [of 336] by auto
  then have d: "demo_map = Oram_map 1 2 (Oram demo_state (Scan_map 1 1 [0])) 336 m 1 s" by (simp add: demo_map_def)
  have "oram_map_pos demo_map i = 0" if "unat i < 2" for i
  proof -
    have "i div 336 = 0" "unat (i mod 336) < 336" using that by (auto intro!: word64_eqI simp: word_div_mod_336)
    then show ?thesis by (simp add: oram_map_pos_def d demo_state_content u32s_replicate)
  qed
  then show ?thesis using demo_linear_inv p by (simp add: oram_map_inv_def d demo_params_def)
qed

lemma demo_oram_ok: "oram_ok demo_params 2 demo_oram"
  using oram_create_ok [of demo_params 2 demo_map 2] demo_map_inv by (simp add: demo_oram_def demo_params_def)

lemma demo_map_room: "oram_map_room demo_params demo_map"
proof -
  obtain m s where "prep_ct_div 336 = Some (m, 1, s)" using prep_ct_div_result [of 336] by auto
  then show ?thesis by (simp add: oram_map_room_def demo_map_def demo_params_def demo_state_def stash_create_def)
qed

lemma demo_oram_room: "oram_room demo_params 2 demo_oram"
proof -
  obtain m s where "prep_ct_div 336 = Some (m, 1, s)" using prep_ct_div_result [of 336] by auto
  then show ?thesis
    by (simp add: oram_room_def demo_oram_def oram_create_def stash_create_def oram_map_room_def demo_map_def demo_params_def
        position_map_recursion_depth_def demo_state_def Let_def)
qed

lemma demo_content: "i \<noteq> UINT64_MAX \<Longrightarrow> oram_content (o_state demo_oram) i = replicate 168 UINT64_MAX"
  unfolding demo_oram_def by (rule oram_create_result(2) [of 1 2]) simp_all

end
