(* ===== verification/ProbeTable.thy ===== *)
theory ProbeTable
  imports Prelude
begin

text \<open>
  Robin Hood tables with a total order on the keys, as the oblivious hash table of \<^verbatim>\<open>ohtable/ohtable.jinc\<close>
  keeps them: \<open>N\<close> slots of records, the first word of a record its key, the key \<open>UINT64_MAX\<close> that of an
  empty slot. \<open>H\<close> gives the home slot of a key, \<open>R\<close> the raw hash that breaks ties.

  A position \<open>P\<close> of a probe runs on past the last slot: its slot is \<open>P mod N\<close>. The code measures the distance
  of a record from home at such a position, so that records whose home is behind the slot and records
  whose home is before it are not compared (\<open>richer\<close>).

  Proved: what the three steps of an insertion, to skip, to swap and to store, do to the table.
\<close>

section \<open>Definitions\<close>

abbreviation rec_key :: "u64 list \<Rightarrow> u64" where "rec_key r \<equiv> r ! 0"

text \<open>At slot \<open>s\<close> the key \<open>a\<close> is closer to home than \<open>b\<close>, and gives way to it.\<close>

definition richer :: "(u64 \<Rightarrow> nat) \<Rightarrow> (u64 \<Rightarrow> nat) \<Rightarrow> nat \<Rightarrow> u64 \<Rightarrow> u64 \<Rightarrow> bool" where
  "richer H R s a b \<longleftrightarrow> (s < H a \<longleftrightarrow> s < H b) \<and> (H b < H a \<or> H a = H b \<and> R a < R b)"

text \<open>The position at which a probe from slot \<open>h\<close> first visits slot \<open>s\<close>.\<close>

definition unroll :: "nat \<Rightarrow> nat \<Rightarrow> nat \<Rightarrow> nat" where
  "unroll N h s = (if h \<le> s then s else s + N)"

text \<open>A probe for \<open>k\<close> passes all slots before position \<open>P\<close>.\<close>

definition passes :: "nat \<Rightarrow> (u64 \<Rightarrow> nat) \<Rightarrow> (u64 \<Rightarrow> nat) \<Rightarrow> (nat \<Rightarrow> u64 list) \<Rightarrow> u64 \<Rightarrow> nat \<Rightarrow> bool" where
  "passes N H R T k P \<longleftrightarrow> (\<forall>i. H k \<le> i \<and> i < P \<longrightarrow>
     (let a = rec_key (T (i mod N)) in a \<noteq> UINT64_MAX \<and> a \<noteq> k \<and> \<not> richer H R (i mod N) a k))"

definition probe_inv :: "nat \<Rightarrow> (u64 \<Rightarrow> nat) \<Rightarrow> (u64 \<Rightarrow> nat) \<Rightarrow> (nat \<Rightarrow> u64 list) \<Rightarrow> bool" where
  "probe_inv N H R T \<longleftrightarrow> (\<forall>k. H k < N) \<and>
     (\<forall>s < N. rec_key (T s) \<noteq> UINT64_MAX \<longrightarrow>
        passes N H R T (rec_key (T s)) (unroll N (H (rec_key (T s))) s))"

definition has_empty :: "nat \<Rightarrow> (nat \<Rightarrow> u64 list) \<Rightarrow> bool" where
  "has_empty N T \<longleftrightarrow> (\<exists>s < N. rec_key (T s) = UINT64_MAX)"

definition used_slots :: "nat \<Rightarrow> (nat \<Rightarrow> u64 list) \<Rightarrow> nat set" where
  "used_slots N T = {s. s < N \<and> rec_key (T s) \<noteq> UINT64_MAX}"

text \<open>The table as a map from keys to records.\<close>

definition table_map :: "nat \<Rightarrow> (nat \<Rightarrow> u64 list) \<Rightarrow> u64 \<rightharpoonup> u64 list" where
  "table_map N T k = map_option T (find (\<lambda>s. rec_key (T s) = k \<and> k \<noteq> UINT64_MAX) [0..<N])"

section \<open>Positions and the order\<close>

lemma richer_trans: "richer H R s a b \<Longrightarrow> richer H R s b c \<Longrightarrow> richer H R s a c"
  by (auto simp: richer_def)

lemma richer_asym: "richer H R s a b \<Longrightarrow> \<not> richer H R s b a"
  by (auto simp: richer_def)

lemma richer_irrefl [simp]: "\<not> richer H R s a a"
  by (simp add: richer_def)

lemma unroll_mod:
  assumes "h < N" "h \<le> P" "P < h + N" shows "unroll N h (P mod N) = P"
proof (cases "P < N")
  case False
  then have "P mod N = P - N" using assms by (simp add: mod_if)
  then show ?thesis using assms False by (simp add: unroll_def)
qed (use assms in \<open>simp add: unroll_def\<close>)

lemma unroll_bounds:
  assumes "s < N" "h < N" shows "h \<le> unroll N h s" "unroll N h s < h + N" "unroll N h s mod N = s"
  using assms by (auto simp: unroll_def)

text \<open>The richer key has the same position.\<close>

lemma richer_position:
  assumes "richer H R (P mod N) a k" "H a < N" "H k < N" "H k \<le> P" "P < H k + N"
  shows "H a \<le> P" "P < H a + N"
proof -
  have "P mod N = (if P < N then P else P - N)" using assms by (simp add: mod_if)
  then show "H a \<le> P" "P < H a + N" using assms by (auto simp: richer_def split: if_splits)
qed

lemma slot_once:
  assumes "h \<le> i" "i < P" "P < h + N" shows "i mod N \<noteq> P mod (N::nat)"
proof
  assume "i mod N = P mod N"
  then have "N dvd P - i" using assms(2) by (metis mod_eq_dvd_iff_nat less_imp_le)
  then show False using assms by (auto dest: dvd_imp_le)
qed

lemma passes_at: "passes N H R T k P \<Longrightarrow> H k \<le> i \<Longrightarrow> i < P \<Longrightarrow>
    rec_key (T (i mod N)) \<noteq> UINT64_MAX \<and> rec_key (T (i mod N)) \<noteq> k \<and> \<not> richer H R (i mod N) (rec_key (T (i mod N))) k"
  by (simp add: passes_def Let_def)

lemma passes_home [simp]: "passes N H R T k (H k)"
  unfolding passes_def by auto

lemma passes_Suc:
  "H k \<le> P \<Longrightarrow> passes N H R T k (Suc P) \<longleftrightarrow> passes N H R T k P \<and>
     rec_key (T (P mod N)) \<noteq> UINT64_MAX \<and> rec_key (T (P mod N)) \<noteq> k \<and> \<not> richer H R (P mod N) (rec_key (T (P mod N))) k"
  unfolding passes_def Let_def less_Suc_eq by blast

text \<open>A probe does not pass an empty slot.\<close>

lemma passes_bound:
  assumes "passes N H R T k P" "has_empty N T" "H k < N" shows "P < H k + N"
proof (rule ccontr)
  assume P: "\<not> ?thesis"
  obtain q where q: "q < N" "rec_key (T q) = UINT64_MAX" using assms(2) by (auto simp: has_empty_def)
  note u = unroll_bounds [OF q(1) assms(3)]
  show False using passes_at [OF assms(1) u(1)] u q P by simp
qed

lemma probe_invD:
  assumes "probe_inv N H R T"
  shows "H k < N" "s < N \<Longrightarrow> rec_key (T s) = k \<Longrightarrow> k \<noteq> UINT64_MAX \<Longrightarrow> passes N H R T k (unroll N (H k) s)"
  using assms by (auto simp: probe_inv_def)

text \<open>No key has two slots.\<close>

lemma probe_inv_inj:
  assumes "probe_inv N H R T" "s < N" "s' < N" "rec_key (T s) = k" "rec_key (T s') = k" "k \<noteq> UINT64_MAX"
  shows "s = s'"
proof (rule ccontr)
  assume ne: "s \<noteq> s'"
  let ?u = "unroll N (H k)"
  note b = unroll_bounds [OF assms(2) probe_invD(1) [OF assms(1), of k]]
  note b' = unroll_bounds [OF assms(3) probe_invD(1) [OF assms(1), of k]]
  have "?u s < ?u s' \<or> ?u s' < ?u s" using ne b(3) b'(3) by (metis linorder_neqE_nat)
  then show False
    using passes_at [OF probe_invD(2) [OF assms(1,3,5,6)] b(1)] passes_at [OF probe_invD(2) [OF assms(1,2,4,6)] b'(1)]
      b b' assms by auto
qed

section \<open>The map of a table\<close>

lemma table_map_Some:
  assumes "probe_inv N H R T"
  shows "table_map N T k = Some r \<longleftrightarrow> k \<noteq> UINT64_MAX \<and> (\<exists>s < N. T s = r \<and> rec_key r = k)"
proof
  assume "table_map N T k = Some r"
  then obtain s where "find (\<lambda>s. rec_key (T s) = k \<and> k \<noteq> UINT64_MAX) [0..<N] = Some s" "T s = r"
    unfolding table_map_def by blast
  then show "k \<noteq> UINT64_MAX \<and> (\<exists>s < N. T s = r \<and> rec_key r = k)" by (auto simp: find_Some_iff)
next
  assume "k \<noteq> UINT64_MAX \<and> (\<exists>s < N. T s = r \<and> rec_key r = k)"
  then obtain s where s: "k \<noteq> UINT64_MAX" "s < N" "T s = r" "rec_key r = k" by blast
  have "rec_key (T j) \<noteq> k" if "j < s" for j using probe_inv_inj [OF assms, of j s k] that s by auto
  then have "find (\<lambda>s. rec_key (T s) = k \<and> k \<noteq> UINT64_MAX) [0..<N] = Some s"
    unfolding find_Some_iff using s by (intro exI [of _ s]) simp
  then show "table_map N T k = Some r" using s by (simp add: table_map_def)
qed

lemma table_map_None: "table_map N T k = None \<longleftrightarrow> k = UINT64_MAX \<or> (\<forall>s < N. rec_key (T s) \<noteq> k)"
  by (auto simp: table_map_def find_None_iff)

lemma table_map_empty: "(\<And>s. s < N \<Longrightarrow> rec_key (T s) = UINT64_MAX) \<Longrightarrow> table_map N T = Map.empty"
  by (rule ext) (metis table_map_None)

lemma table_map_key: "probe_inv N H R T \<Longrightarrow> table_map N T k = Some r \<Longrightarrow> rec_key r = k"
  by (auto simp: table_map_Some)

lemma used_slots_card:
  assumes "probe_inv N H R T" shows "card (dom (table_map N T)) = card (used_slots N T)"
proof -
  have "dom (table_map N T) = (\<lambda>s. rec_key (T s)) ` used_slots N T"
    using table_map_Some [OF assms] by (fastforce simp: dom_def used_slots_def)
  moreover have "inj_on (\<lambda>s. rec_key (T s)) (used_slots N T)"
    by (rule inj_onI) (auto simp: used_slots_def intro: probe_inv_inj [OF assms])
  ultimately show ?thesis by (simp add: card_image)
qed

lemma has_empty_card: "card (used_slots N T) < N \<Longrightarrow> has_empty N T"
proof (rule ccontr)
  assume c: "card (used_slots N T) < N" and "\<not> has_empty N T"
  then have "used_slots N T = {..<N}" by (auto simp: used_slots_def has_empty_def)
  then show False using c by simp
qed

section \<open>Writing a slot\<close>

lemma option_eqI: "(\<And>r. x = Some r \<longleftrightarrow> y = Some r) \<Longrightarrow> x = y"
  by (cases x) (metis option.exhaust)+

lemma map_write:
  assumes I: "probe_inv N H R T" and I': "probe_inv N H R (T(s := c))" and s: "s < N" and c: "rec_key c \<noteq> UINT64_MAX"
  shows "table_map N (T(s := c)) = (table_map N T)(rec_key (T s) := None, rec_key c \<mapsto> c)"
proof (rule ext)
  fix k
  show "table_map N (T(s := c)) k = ((table_map N T)(rec_key (T s) := None, rec_key c \<mapsto> c)) k"
  proof (cases "k = rec_key c")
    case True
    have "table_map N (T(s := c)) k = Some c" unfolding table_map_Some [OF I'] using s c True by auto
    then show ?thesis using True by simp
  next
    case k: False
    have "table_map N (T(s := c)) k = Some r \<longleftrightarrow> k \<noteq> rec_key (T s) \<and> table_map N T k = Some r" for r
    proof
      assume "table_map N (T(s := c)) k = Some r"
      then obtain s' where s': "k \<noteq> UINT64_MAX" "s' < N" "(T(s := c)) s' = r" "rec_key r = k" unfolding table_map_Some [OF I'] by blast
      then have "s' \<noteq> s" "T s' = r" using k by auto
      then show "k \<noteq> rec_key (T s) \<and> table_map N T k = Some r"
        unfolding table_map_Some [OF I] using s' probe_inv_inj [OF I s'(2) s _ _ s'(1)] by blast
    next
      assume "k \<noteq> rec_key (T s) \<and> table_map N T k = Some r"
      then obtain s' where s': "k \<noteq> UINT64_MAX" "s' < N" "T s' = r" "rec_key r = k" "k \<noteq> rec_key (T s)" unfolding table_map_Some [OF I] by blast
      then have "s' \<noteq> s" by auto
      then show "table_map N (T(s := c)) k = Some r" unfolding table_map_Some [OF I'] using s' by auto
    qed
    then show ?thesis using k by (intro option_eqI) simp
  qed
qed

lemma write_inv:
  assumes I: "probe_inv N H R T" and p: "passes N H R T k P" "H k \<le> P" "P < H k + N" and c: "rec_key c = k" "k \<noteq> UINT64_MAX"
    and place: "let a = rec_key (T (P mod N)) in a = UINT64_MAX \<or> a = k \<or> richer H R (P mod N) a k"
    and only: "\<And>s. s < N \<Longrightarrow> rec_key (T s) = k \<Longrightarrow> s = P mod N"
  shows "probe_inv N H R (T(P mod N := c))"
proof -
  let ?s = "P mod N" and ?T = "T(P mod N := c)"
  have step: "passes N H R ?T k' (unroll N (H k') s)" if s: "s < N" "rec_key (?T s) = k'" "k' \<noteq> UINT64_MAX" for s k'
  proof (cases "s = ?s")
    case True
    then have k': "k' = k" using s c by simp
    have "unroll N (H k') s = P" unfolding True k' using p probe_invD(1) [OF I] by (intro unroll_mod)
    moreover have "passes N H R ?T k P"
      unfolding passes_def Let_def using passes_at [OF p(1)] slot_once [OF _ _ p(3)] by simp
    ultimately show ?thesis using k' by simp
  next
    case False
    then have old: "rec_key (T s) = k'" and ne: "k' \<noteq> k" using s only [OF s(1)] by auto
    note pas = probe_invD(2) [OF I s(1) old s(3)]
    have "\<not> richer H R ?s k k'" if "H k' \<le> i" "i < unroll N (H k') s" "i mod N = ?s" for i
      using passes_at [OF pas that(1,2)] place that(3) ne richer_trans [of H R ?s _ k k'] by (auto simp: Let_def)
    then show ?thesis using passes_at [OF pas] ne c unfolding passes_def Let_def by auto
  qed
  then show ?thesis using probe_invD(1) [OF I] by (simp add: probe_inv_def)
qed

section \<open>An insertion\<close>

text \<open>
  An insertion of \<open>c0\<close> into \<open>T0\<close> has the table \<open>T\<close>, carries \<open>c\<close> and has come to position \<open>P\<close>: the carried record
  with those of the table is the result, or the key is in the table and nothing has changed yet.
\<close>

definition inserting :: "nat \<Rightarrow> (u64 \<Rightarrow> nat) \<Rightarrow> (u64 \<Rightarrow> nat) \<Rightarrow> (nat \<Rightarrow> u64 list) \<Rightarrow> u64 list \<Rightarrow> (nat \<Rightarrow> u64 list) \<Rightarrow> u64 list \<Rightarrow> nat \<Rightarrow> bool" where
  "inserting N H R T0 c0 T c P \<longleftrightarrow>
     probe_inv N H R T \<and> has_empty N T \<and> rec_key c \<noteq> UINT64_MAX \<and> H (rec_key c) \<le> P \<and> passes N H R T (rec_key c) P \<and>
     H (rec_key c0) \<le> P \<and> (\<forall>i. H (rec_key c0) \<le> i \<and> i < P \<longrightarrow> rec_key (T (i mod N)) \<noteq> UINT64_MAX) \<and>
     (if rec_key c = rec_key c0 then c = c0 \<and> T = T0
      else \<exists>i. H (rec_key c0) \<le> i \<and> i < P \<and> rec_key (T (i mod N)) = rec_key c0) \<and>
     (if table_map N T0 (rec_key c0) = None
      then table_map N T (rec_key c) = None \<and> (table_map N T)(rec_key c \<mapsto> c) = (table_map N T0)(rec_key c0 \<mapsto> c0)
      else c = c0 \<and> T = T0)"

lemma inserting_start:
  "probe_inv N H R T0 \<Longrightarrow> has_empty N T0 \<Longrightarrow> rec_key c0 \<noteq> UINT64_MAX \<Longrightarrow> inserting N H R T0 c0 T0 c0 (H (rec_key c0))"
  unfolding inserting_def by auto

lemma insertingD:
  assumes "inserting N H R T0 c0 T c P"
  shows "probe_inv N H R T" "has_empty N T" "rec_key c \<noteq> UINT64_MAX" "H (rec_key c) \<le> P" "passes N H R T (rec_key c) P"
    "P < H (rec_key c) + N" "H (rec_key c0) \<le> P" "P < H (rec_key c0) + N"
proof -
  show I: "probe_inv N H R T" and e: "has_empty N T" and p: "passes N H R T (rec_key c) P"
    and "rec_key c \<noteq> UINT64_MAX" "H (rec_key c) \<le> P" "H (rec_key c0) \<le> P"
    using assms by (simp_all add: inserting_def)
  show "P < H (rec_key c) + N" using passes_bound [OF p e probe_invD(1) [OF I]] .
  show "P < H (rec_key c0) + N"
  proof (rule ccontr)
    assume P: "\<not> ?thesis"
    obtain q where q: "q < N" "rec_key (T q) = UINT64_MAX" using e by (auto simp: has_empty_def)
    note u = unroll_bounds [OF q(1) probe_invD(1) [OF I, of "rec_key c0"]]
    have "rec_key (T (unroll N (H (rec_key c0)) q mod N)) \<noteq> UINT64_MAX" using assms u P unfolding inserting_def by auto
    then show False using u q by simp
  qed
qed

text \<open>A probe for a key of the table comes to its slot.\<close>

lemma probe_present:
  assumes I: "probe_inv N H R T" and s: "s < N" "rec_key (T s) = k" "k \<noteq> UINT64_MAX" and p: "passes N H R T k P" "H k \<le> P"
  shows "rec_key (T (P mod N)) \<noteq> UINT64_MAX" "\<not> richer H R (P mod N) (rec_key (T (P mod N))) k"
proof -
  let ?U = "unroll N (H k) s"
  note u = unroll_bounds [OF s(1) probe_invD(1) [OF I, of k]] and pas = probe_invD(2) [OF I s]
  have "P \<le> ?U" using passes_at [OF p(1) u(1)] u(3) s by force
  then consider "P = ?U" | "P < ?U" by linarith
  then have "rec_key (T (P mod N)) \<noteq> UINT64_MAX \<and> \<not> richer H R (P mod N) (rec_key (T (P mod N))) k"
    by cases (use passes_at [OF pas p(2)] u s in auto)
  then show "rec_key (T (P mod N)) \<noteq> UINT64_MAX" "\<not> richer H R (P mod N) (rec_key (T (P mod N))) k" by auto
qed

lemma inserting_new:
  assumes "inserting N H R T0 c0 T c P"
    and "rec_key (T (P mod N)) = UINT64_MAX \<or> richer H R (P mod N) (rec_key (T (P mod N))) (rec_key c)"
  shows "table_map N T0 (rec_key c0) = None"
proof (rule ccontr)
  note D = insertingD [OF assms(1)]
  assume n: "table_map N T0 (rec_key c0) \<noteq> None"
  then have "c = c0" "T = T0" using assms(1) by (simp_all add: inserting_def)
  then obtain s where "s < N" "rec_key (T s) = rec_key c" using n by (auto simp: table_map_None)
  then show False using probe_present [OF D(1) _ _ D(3,5,4)] assms(2) by blast
qed

lemma inserting_store:
  assumes ins: "inserting N H R T0 c0 T c P" and e: "rec_key (T (P mod N)) = UINT64_MAX \<or> rec_key (T (P mod N)) = rec_key c"
  shows "probe_inv N H R (T(P mod N := c))" "table_map N (T(P mod N := c)) = (table_map N T0)(rec_key c0 \<mapsto> c0)"
    "rec_key (T (P mod N)) = UINT64_MAX \<longleftrightarrow> table_map N T0 (rec_key c0) = None"
proof -
  note D = insertingD [OF ins]
  have N: "P mod N < N" using probe_invD(1) [OF D(1), of 0] by simp
  show new: "rec_key (T (P mod N)) = UINT64_MAX \<longleftrightarrow> table_map N T0 (rec_key c0) = None"
  proof
    assume "table_map N T0 (rec_key c0) = None"
    then have "table_map N T (rec_key c) = None" using ins by (simp add: inserting_def)
    then show "rec_key (T (P mod N)) = UINT64_MAX" using e N D(3) by (auto simp: table_map_None)
  qed (use inserting_new [OF ins] in blast)
  have only: "s = P mod N" if "s < N" "rec_key (T s) = rec_key c" for s
  proof (cases "rec_key (T (P mod N)) = UINT64_MAX")
    case True
    then have "table_map N T (rec_key c) = None" using ins new by (simp add: inserting_def)
    then show ?thesis using that D(3) by (simp add: table_map_None)
  qed (use e probe_inv_inj [OF D(1) that(1) N that(2)] D(3) in blast)
  show I': "probe_inv N H R (T(P mod N := c))"
    using e only by (intro write_inv [OF D(1,5,4,6) refl D(3)]) (auto simp: Let_def)
  have none: "table_map N T UINT64_MAX = None" by (simp add: table_map_None)
  show "table_map N (T(P mod N := c)) = (table_map N T0)(rec_key c0 \<mapsto> c0)"
    unfolding map_write [OF D(1) I' N D(3)]
    using e new ins none unfolding inserting_def by (cases "rec_key (T (P mod N)) = UINT64_MAX") (auto simp: fun_upd_idem)
qed

lemma inserting_skip:
  assumes ins: "inserting N H R T0 c0 T c P"
    and "rec_key (T (P mod N)) \<noteq> UINT64_MAX" "rec_key (T (P mod N)) \<noteq> rec_key c"
    and "\<not> richer H R (P mod N) (rec_key (T (P mod N))) (rec_key c)"
  shows "inserting N H R T0 c0 T c (Suc P)"
proof -
  have "passes N H R T (rec_key c) (Suc P)" using assms passes_Suc [of H "rec_key c" P N R T] insertingD(4,5) [OF ins] by simp
  then show ?thesis using assms unfolding inserting_def less_Suc_eq by auto
qed

lemma inserting_swap:
  assumes ins: "inserting N H R T0 c0 T c P"
    and a: "rec_key (T (P mod N)) \<noteq> UINT64_MAX" "richer H R (P mod N) (rec_key (T (P mod N))) (rec_key c)"
  shows "inserting N H R T0 c0 (T(P mod N := c)) (T (P mod N)) (Suc P)" "table_map N T0 (rec_key c0) = None"
    "rec_key (T (P mod N)) \<noteq> rec_key c0"
proof -
  let ?s = "P mod N" and ?T = "T(P mod N := c)" and ?k = "rec_key c" and ?ko = "rec_key c0" and ?a = "rec_key (T (P mod N))"
  note D = insertingD [OF ins]
  have N: "?s < N" using probe_invD(1) [OF D(1), of 0] by simp
  show new: "table_map N T0 ?ko = None" using inserting_new [OF ins] a(2) by blast
  then have m: "table_map N T ?k = None" "(table_map N T)(?k \<mapsto> c) = (table_map N T0)(?ko \<mapsto> c0)" using ins by (simp_all add: inserting_def)
  have ak: "?a \<noteq> ?k" using a(2) by auto
  have I': "probe_inv N H R ?T"
    using a m(1) D(3) by (intro write_inv [OF D(1,5,4,6) refl D(3)]) (auto simp: Let_def table_map_None)
  have m': "table_map N ?T = (table_map N T)(?a := None, ?k \<mapsto> c)" by (rule map_write [OF D(1) I' N D(3)])
  have r: "table_map N T ?a = Some (T ?s)" unfolding table_map_Some [OF D(1)] using a N by blast
  show a0: "?a \<noteq> ?ko"
  proof (cases "?k = ?ko")
    case False
    then obtain i where i: "H ?ko \<le> i" "i < P" "rec_key (T (i mod N)) = ?ko" using ins by (auto simp: inserting_def)
    show ?thesis
    proof
      assume "?a = ?ko"
      then have "i mod N = ?s" using probe_inv_inj [OF D(1) _ N i(3)] a(1) N by auto
      then show False using slot_once [OF i(1,2) D(8)] by simp
    qed
  qed (use ak in simp)
  note pos = richer_position [OF a(2) probe_invD(1) [OF D(1)] probe_invD(1) [OF D(1)] D(4,6)]
  have pas: "passes N H R T ?a P"
    using probe_invD(2) [OF D(1) N refl a(1)] unroll_mod [OF probe_invD(1) [OF D(1)] pos] by simp
  have pas': "passes N H R ?T ?a (Suc P)"
    using passes_at [OF pas] slot_once [OF _ _ pos(2)] ak D(3) richer_asym [OF a(2)]
    unfolding passes_def Let_def less_Suc_eq by auto
  have "has_empty N ?T" using D(2) a(1) unfolding has_empty_def by (metis fun_upd_other)
  moreover have "rec_key (?T (i mod N)) \<noteq> UINT64_MAX" if "H ?ko \<le> i" "i < Suc P" for i
    using that ins D(3) unfolding inserting_def less_Suc_eq by auto
  moreover have "\<exists>i. H ?ko \<le> i \<and> i < Suc P \<and> rec_key (?T (i mod N)) = ?ko"
  proof (cases "?k = ?ko")
    case False
    then obtain i where i: "H ?ko \<le> i" "i < P" "rec_key (T (i mod N)) = ?ko" using ins by (auto simp: inserting_def)
    then show ?thesis using slot_once [OF i(1,2) D(8)] by (intro exI [of _ i]) simp
  qed (use D(7) in \<open>intro exI [of _ P]; simp\<close>)
  moreover have "table_map N ?T ?a = None" using m' ak by simp
  moreover have "(table_map N ?T)(?a \<mapsto> T ?s) = (table_map N T0)(?ko \<mapsto> c0)"
    unfolding m' m(2) [symmetric] using ak r by (simp add: fun_eq_iff)
  ultimately show "inserting N H R T0 c0 ?T (T ?s) (Suc P)"
    unfolding inserting_def using I' a(1) a0 pos pas' new D(7) by auto
qed

text \<open>The slots that stay empty are not written.\<close>

definition blank_slots :: "nat \<Rightarrow> (nat \<Rightarrow> u64 list) \<Rightarrow> bool" where
  "blank_slots N T \<longleftrightarrow> (\<forall>s < N. length (T s) = 7 \<and> (rec_key (T s) = UINT64_MAX \<longrightarrow> T s = replicate 7 UINT64_MAX))"

lemma blank_slots_write: "blank_slots N T \<Longrightarrow> rec_key c \<noteq> UINT64_MAX \<Longrightarrow> length c = 7 \<Longrightarrow> blank_slots N (T(s := c))"
  by (simp add: blank_slots_def)

section \<open>A lookup\<close>

text \<open>The first slot from the home of \<open>k\<close> on, among \<open>n\<close> slots, that is empty or has the key.\<close>

definition first_hit :: "nat \<Rightarrow> (u64 \<Rightarrow> nat) \<Rightarrow> (nat \<Rightarrow> u64 list) \<Rightarrow> u64 \<Rightarrow> nat \<Rightarrow> u64 list option" where
  "first_hit N H T k n = find (\<lambda>r. rec_key r = UINT64_MAX \<or> rec_key r = k) (map (\<lambda>i. T (i mod N)) [H k..<H k + n])"

text \<open>All records are at most \<open>d\<close> slots from home.\<close>

definition offsets_le :: "nat \<Rightarrow> (u64 \<Rightarrow> nat) \<Rightarrow> (nat \<Rightarrow> u64 list) \<Rightarrow> nat \<Rightarrow> bool" where
  "offsets_le N H T d \<longleftrightarrow> (\<forall>s < N. rec_key (T s) \<noteq> UINT64_MAX \<longrightarrow>
     unroll N (H (rec_key (T s))) s \<le> H (rec_key (T s)) + d)"

lemma find_map_upt:
  assumes "a \<le> j" "j < b" "P (f j)" "\<And>i. a \<le> i \<Longrightarrow> i < j \<Longrightarrow> \<not> P (f i)"
  shows "find P (map f [a..<b]) = Some (f j)"
  unfolding find_Some_iff using assms by (intro exI [of _ "j - a"]) auto

lemma first_hit_present:
  assumes I: "probe_inv N H R T" and w: "offsets_le N H T d" "d < n" and m: "table_map N T k = Some r"
  shows "first_hit N H T k n = Some r"
proof -
  obtain s where s: "s < N" "T s = r" "rec_key r = k" "k \<noteq> UINT64_MAX" using m unfolding table_map_Some [OF I] by blast
  note u = unroll_bounds [OF s(1) probe_invD(1) [OF I, of k]]
  have le: "unroll N (H k) s \<le> H k + d" using w(1) s by (auto simp: offsets_le_def)
  have p: "passes N H R T k (unroll N (H k) s)" using probe_invD(2) [OF I s(1)] s by simp
  have "first_hit N H T k n = Some (T (unroll N (H k) s mod N))"
    unfolding first_hit_def using u le w(2) s passes_at [OF p] by (intro find_map_upt) auto
  then show ?thesis using u(3) s by simp
qed

lemma first_hit_absent:
  assumes "blank_slots N T" "0 < N" "table_map N T k = None" "k \<noteq> UINT64_MAX"
  shows "first_hit N H T k n = (if \<exists>i < n. rec_key (T ((H k + i) mod N)) = UINT64_MAX then Some (replicate 7 UINT64_MAX) else None)"
proof -
  have abs: "rec_key (T (i mod N)) \<noteq> k" for i using assms(2-4) by (auto simp: table_map_None)
  have "first_hit N H T k n = find (\<lambda>r. rec_key r = UINT64_MAX) (map (\<lambda>i. T (i mod N)) [H k..<H k + n])"
    unfolding first_hit_def by (rule find_cong) (use abs in auto)
  moreover have "\<forall>r. find (\<lambda>r. rec_key r = UINT64_MAX) (map (\<lambda>i. T (i mod N)) [H k..<H k + n]) = Some r \<longrightarrow> r = replicate 7 UINT64_MAX"
    using assms(1,2) by (auto simp: find_Some_iff blank_slots_def)
  moreover have "find (\<lambda>r. rec_key r = UINT64_MAX) (map (\<lambda>i. T (i mod N)) [H k..<H k + n]) = None \<longleftrightarrow>
      \<not> (\<exists>i < n. rec_key (T ((H k + i) mod N)) = UINT64_MAX)"
    by (auto simp: find_None_iff) (metis add_diff_inverse_nat diff_less_mono2 less_diff_conv2 linorder_not_less nat_add_left_cancel_less)
  ultimately show ?thesis by (metis option.exhaust)
qed

text \<open>A record is at most as far from home as there are other records.\<close>

lemma offsets_le_card:
  assumes I: "probe_inv N H R T" shows "offsets_le N H T (card (dom (table_map N T)) - 1)"
  unfolding offsets_le_def
proof (intro allI impI)
  fix s assume s: "s < N" "rec_key (T s) \<noteq> UINT64_MAX"
  let ?k = "rec_key (T s)" and ?U = "unroll N (H (rec_key (T s))) s"
  note u = unroll_bounds [OF s(1) probe_invD(1) [OF I, of ?k]] and p = probe_invD(2) [OF I s(1) refl s(2)]
  have N: "0 < N" using s(1) by simp
  have "i mod N \<noteq> s" if "i \<in> {H ?k..<?U}" for i using slot_once [of "H ?k" i ?U N] u that by auto
  moreover have "i mod N \<in> used_slots N T" if "i \<in> {H ?k..<?U}" for i
    using passes_at [OF p, of i] that N by (simp add: used_slots_def)
  ultimately have sub: "(\<lambda>i. i mod N) ` {H ?k..<?U} \<subseteq> used_slots N T - {s}" by blast
  have inj: "inj_on (\<lambda>i. i mod N) {H ?k..<?U}"
  proof (rule linorder_inj_onI')
    fix i j assume "i \<in> {H ?k..<?U}" "j \<in> {H ?k..<?U}" "i < j"
    then show "i mod N \<noteq> j mod N" using slot_once [of "H ?k" i j N] u(2) by simp
  qed
  have fin: "finite (used_slots N T)" by (simp add: used_slots_def)
  have "?U - H ?k \<le> card (used_slots N T - {s})"
    using card_mono [OF _ sub] fin card_image [OF inj] by simp
  also have "\<dots> = card (used_slots N T) - 1" using s fin by (simp add: used_slots_def)
  finally show "?U \<le> H ?k + (card (dom (table_map N T)) - 1)" unfolding used_slots_card [OF I] by simp
qed

end
