(* ===== verification/OHTable.thy ===== *)
theory OHTable
  imports ProbeTable OramCreate Bytes
begin

text \<open>
  The oblivious hash table (\<^verbatim>\<open>ohtable/ohtable.c\<close>, \<^verbatim>\<open>ohtable/ohtable.jinc\<close>, \<^verbatim>\<open>util/record.jinc\<close>): records of seven
  words, 24 to a block of an ORAM, by Robin Hood hashing with the FNV-1a hash of the key. The accessors that
  the ORAM applies to a block insert and look up records; their arguments, which live across several
  accesses, are records here, with the carried record in place of the pointer to it.

  The registers that hold 0 or 1 are bools. The load factor is a quotient of reals, without the rounding
  of double. A result \<open>None\<close> stands for undefined behaviour, or for a loop that does not end.
\<close>

section \<open>Definitions\<close>

subsection \<open>Records\<close>

abbreviation (input) RECORD_SIZE :: nat where "RECORD_SIZE \<equiv> 7"

text \<open>The record at index \<open>i\<close> of a block, and a block with the record at index \<open>i\<close> replaced.\<close>

definition record_at :: "u64 list \<Rightarrow> nat \<Rightarrow> u64 list" where
  "record_at block_data i = take RECORD_SIZE (drop (RECORD_SIZE * i) block_data)"

definition set_record :: "u64 list \<Rightarrow> nat \<Rightarrow> u64 list \<Rightarrow> u64 list" where
  "set_record block_data i r = take (RECORD_SIZE * i) block_data @ r @ drop (RECORD_SIZE * i + RECORD_SIZE) block_data"

definition record_empty :: "u64 list \<Rightarrow> bool" where
  "record_empty r \<longleftrightarrow> r ! 0 = - 1"

definition record_empty_or_matches :: "u64 list \<Rightarrow> u64 \<Rightarrow> bool" where
  "record_empty_or_matches r key \<longleftrightarrow> r ! 0 = - 1 \<or> r ! 0 = key"

definition cond_copy_record :: "bool \<Rightarrow> u64 list \<Rightarrow> u64 list \<Rightarrow> u64 list" where
  "cond_copy_record c dst src = map2 (\<lambda>a b. j_ternary (of_bool c) b a) dst src"

definition cond_swap_record :: "bool \<Rightarrow> u64 list \<Rightarrow> u64 list \<Rightarrow> u64 list \<times> u64 list" where
  "cond_swap_record c a b =
     (map2 (\<lambda>ra rb. j_ternary (of_bool c) rb ra) a b, map2 (\<lambda>ra rb. j_ternary (of_bool c) ra rb) a b)"

subsection \<open>The table and its hash\<close>

record ohtable =
  oh_oram :: oram
  oh_capacity :: size_t
  oh_record_size_qwords :: size_t
  oh_items_per_block :: size_t
  oh_num_blocks :: size_t
  oh_temp_record :: "u64 list"
  oh_max_offset :: size_t
  oh_max_trace_length :: size_t
  oh_total_displacement :: size_t
  oh_num_items :: size_t
  oh_swap_buf :: "u64 list"
  oh_capacity_ct_m_prime :: u64
  oh_capacity_ct_shift1 :: size_t
  oh_capacity_ct_shift2 :: size_t
  oh_items_per_block_ct_m_prime :: u64
  oh_items_per_block_ct_shift1 :: size_t
  oh_items_per_block_ct_shift2 :: size_t

record location =
  loc_block_id :: u64
  loc_index :: size_t

definition FNV_OFFSET_BASIS :: u64 where "FNV_OFFSET_BASIS = 14695981039346656037"
definition FNV_PRIME :: u64 where "FNV_PRIME = 1099511628211"

definition raw_hash :: "u64 \<Rightarrow> u64" where
  "raw_hash key = fold (\<lambda>byte hash. (hash XOR ucast byte) * FNV_PRIME) (bytes_of_u64 key) FNV_OFFSET_BASIS"

definition ohtable_hash :: "ohtable \<Rightarrow> u64 \<Rightarrow> location" where
  "ohtable_hash oh key = (
     let rh = raw_hash key;
         h = j_ct_mod rh (oh_capacity oh) (oh_capacity_ct_m_prime oh) (oh_capacity_ct_shift1 oh) (oh_capacity_ct_shift2 oh);
         block_id = j_ct_div h (oh_items_per_block_ct_m_prime oh) (oh_items_per_block_ct_shift1 oh) (oh_items_per_block_ct_shift2 oh);
         index = j_ct_mod h (oh_items_per_block oh) (oh_items_per_block_ct_m_prime oh)
           (oh_items_per_block_ct_shift1 oh) (oh_items_per_block_ct_shift2 oh)
     in \<lparr>loc_block_id = block_id, loc_index = index\<rparr>)"

definition distance_to_hash :: "u64 \<Rightarrow> u64 \<Rightarrow> u64 \<Rightarrow> u64" where
  "distance_to_hash ohtable_capacity hash target_hash = (
     let c0 = target_hash - hash; c1 = c0 + ohtable_capacity
     in if target_hash < hash then c1 else c0)"

definition ohtable_hash_from_location :: "ohtable \<Rightarrow> location \<Rightarrow> size_t" where
  "ohtable_hash_from_location oh loc = loc_block_id loc * oh_items_per_block oh + loc_index loc"

subsection \<open>The accessor of an insertion\<close>

record robinhood_accessor_args =
  ra_record_size_qwords :: size_t
  ra_start_index :: size_t
  ra_insert_complete :: bool
  ra_in_record :: "u64 list"
  ra_curr_jump :: size_t
  ra_curr_record_hash :: u64
  ra_curr_slot_hash :: u64
  ra_trace :: size_t
  ra_inserted_new_item :: bool
  ra_max_offset :: size_t
  ra_ohtable_capacity :: size_t
  ra_capacity_ct_m_prime :: u64
  ra_capacity_ct_shift1 :: size_t
  ra_capacity_ct_shift2 :: size_t

text \<open>One slot of the block; \<open>inserted\<close> is set when a record has been stored or swapped in this block.\<close>

definition robinhood_slot ::
    "nat \<Rightarrow> u64 list \<times> robinhood_accessor_args \<times> bool \<Rightarrow> u64 list \<times> robinhood_accessor_args \<times> bool" where
  "robinhood_slot i = (\<lambda>(block_data, a, inserted). (
     let record = ra_in_record a;
         candidate = record_at block_data i;
         search_started = (ra_start_index a \<le> of_nat i);
         insert_complete = ra_insert_complete a;
         should_store = (record_empty_or_matches candidate (record ! 0) \<and> search_started \<and> \<not> insert_complete);
         candidate_hash = j_ct_mod (raw_hash (candidate ! 0)) (ra_ohtable_capacity a)
           (ra_capacity_ct_m_prime a) (ra_capacity_ct_shift1 a) (ra_capacity_ct_shift2 a);
         candidate_jump = distance_to_hash (ra_ohtable_capacity a) candidate_hash (ra_curr_slot_hash a);
         curr_jump = ra_curr_jump a;
         jump_smaller = (candidate_jump = curr_jump \<and> raw_hash (candidate ! 0) < raw_hash (record ! 0) \<or> candidate_jump < curr_jump);
         should_swap = (\<not> should_store \<and> \<not> insert_complete \<and> search_started \<and> jump_smaller);
         a = a\<lparr>ra_inserted_new_item := (ra_inserted_new_item a \<or> (record_empty candidate \<and> should_store \<or> should_swap) \<and> \<not> inserted)\<rparr>;
         candidate = cond_copy_record should_store candidate record;
         (candidate, record) = cond_swap_record should_swap candidate record;
         block_data = set_record block_data i candidate;
         inserted = (inserted \<or> should_store \<or> should_swap);
         insert_complete = (insert_complete \<or> should_store);
         max_offset = j_ternary (of_bool (curr_jump > ra_max_offset a \<and> should_store \<or> should_swap)) curr_jump (ra_max_offset a);
         inc = of_bool (\<not> insert_complete \<and> search_started)
     in (block_data,
         a\<lparr>ra_in_record := record, ra_insert_complete := insert_complete, ra_max_offset := max_offset,
           ra_curr_record_hash := j_ternary (of_bool should_swap) candidate_hash (ra_curr_record_hash a),
           ra_curr_jump := j_ternary (of_bool should_swap) candidate_jump curr_jump + inc,
           ra_curr_slot_hash := ra_curr_slot_hash a + of_bool search_started,
           ra_trace := ra_trace a + inc\<rparr>,
         inserted)))"

definition robinhood :: "robinhood_accessor_args \<Rightarrow> robinhood_accessor_args accessor" where
  "robinhood a block_data = (
     let (block_data, a, inserted) = fold robinhood_slot [0..<BLOCK_DATA_SIZE_QWORDS div RECORD_SIZE] (block_data, a, False)
     in (block_data, a))"

subsection \<open>The accessor of a lookup\<close>

record get_record_accessor_args =
  ga_record_size_qwords :: size_t
  ga_start_index :: size_t
  ga_search_complete :: bool
  ga_out_record :: "u64 list"
  ga_key :: u64

definition get_record_slot :: "u64 list \<Rightarrow> nat \<Rightarrow> get_record_accessor_args \<Rightarrow> get_record_accessor_args" where
  "get_record_slot block_data i a = (
     let candidate = record_at block_data i;
         search_started = (ga_start_index a \<le> of_nat i);
         should_copy = (record_empty_or_matches candidate (ga_key a) \<and> search_started \<and> \<not> ga_search_complete a)
     in a\<lparr>ga_out_record := cond_copy_record should_copy (ga_out_record a) candidate,
          ga_search_complete := (ga_search_complete a \<or> should_copy)\<rparr>)"

definition get_record :: "get_record_accessor_args \<Rightarrow> get_record_accessor_args accessor" where
  "get_record a block_data = (block_data, fold (get_record_slot block_data) [0..<BLOCK_DATA_SIZE_QWORDS div RECORD_SIZE] a)"

subsection \<open>Operations\<close>

definition oh_create :: "oram \<Rightarrow> size_t \<Rightarrow> ohtable option" where
  "oh_create orm record_size_qwords =
     (if record_size_qwords = 0 then None
      else let items_per_block = of_nat BLOCK_DATA_SIZE_QWORDS div record_size_qwords;
               num_blocks = oram_capacity_blocks orm;
               capacity = num_blocks * items_per_block
           in case (prep_ct_div capacity, prep_ct_div items_per_block) of
                (Some (m, s1, s2), Some (m', s1', s2')) \<Rightarrow>
                  Some \<lparr>oh_oram = orm, oh_capacity = capacity, oh_record_size_qwords = record_size_qwords,
                    oh_items_per_block = items_per_block, oh_num_blocks = num_blocks,
                    oh_temp_record = replicate (unat record_size_qwords) 0, oh_max_offset = 0, oh_max_trace_length = 0,
                    oh_total_displacement = 0, oh_num_items = 0, oh_swap_buf = replicate (unat record_size_qwords) 0,
                    oh_capacity_ct_m_prime = m, oh_capacity_ct_shift1 = s1, oh_capacity_ct_shift2 = s2,
                    oh_items_per_block_ct_m_prime = m', oh_items_per_block_ct_shift1 = s1', oh_items_per_block_ct_shift2 = s2'\<rparr>
              | _ \<Rightarrow> None)"

text \<open>The ORAM of a test or staging build, or that of production.\<close>

definition ohtable_create ::
    "bool \<Rightarrow> build_params \<Rightarrow> size_t \<Rightarrow> entropy \<Rightarrow> randombytes \<Rightarrow> (error_t list \<times> ohtable \<times> entropy \<times> randombytes) option" where
  "ohtable_create test_or_staging pr record_size_qwords getentropy rnd =
     (case (if test_or_staging then oram_create_depth16 pr getentropy rnd else oram_create_120G_16shards pr getentropy rnd) of
        None \<Rightarrow> None
      | Some (errs, orm, getentropy, rnd) \<Rightarrow> map_option (\<lambda>oh. (errs, oh, getentropy, rnd)) (oh_create orm record_size_qwords))"

definition ohtable_clear :: "ohtable \<Rightarrow> ohtable" where
  "ohtable_clear oh = oh\<lparr>oh_oram := oram_clear (oh_oram oh), oh_max_trace_length := 0, oh_total_displacement := 0, oh_num_items := 0\<rparr>"

record ohtable_statistics =
  hs_max_trace_length :: size_t
  hs_total_displacement :: size_t
  hs_num_items :: size_t
  hs_capacity :: size_t
  hs_oram_recursion_depth :: size_t
  hs_oram_access_count :: size_t
  hs_stash_overflow_count :: size_t
  hs_max_stash_overflow_count :: size_t
  hs_sum_stash_overflow_count :: size_t
  hs_stash_overflow_ema10k :: real
  hs_posmap_stash_overflow_count :: size_t
  hs_posmap_max_stash_overflow_count :: size_t
  hs_posmap_sum_stash_overflow_count :: size_t
  hs_posmap_stash_overflow_ema10k :: real

definition ohtable_statistics_create :: "ohtable \<Rightarrow> ohtable_statistics \<times> ohtable" where
  "ohtable_statistics_create oh = (
     let (oram_stats, orm) = oram_report_statistics (oh_oram oh)
     in (\<lparr>hs_max_trace_length = oh_max_trace_length oh, hs_total_displacement = oh_total_displacement oh,
          hs_num_items = oh_num_items oh, hs_capacity = oh_capacity oh,
          hs_oram_recursion_depth = os_recursion_depth oram_stats, hs_oram_access_count = os_access_count oram_stats,
          hs_stash_overflow_count = os_stash_overflow_count oram_stats,
          hs_max_stash_overflow_count = os_max_stash_overflow_count oram_stats,
          hs_sum_stash_overflow_count = os_sum_stash_overflow_count oram_stats,
          hs_stash_overflow_ema10k = os_stash_overflow_ema10k oram_stats,
          hs_posmap_stash_overflow_count = os_posmap_stash_overflow_count oram_stats,
          hs_posmap_max_stash_overflow_count = os_posmap_max_stash_overflow_count oram_stats,
          hs_posmap_sum_stash_overflow_count = os_posmap_sum_stash_overflow_count oram_stats,
          hs_posmap_stash_overflow_ema10k = os_posmap_stash_overflow_ema10k oram_stats\<rparr>,
         oh\<lparr>oh_oram := orm\<rparr>))"

definition ohtable_capacity :: "ohtable \<Rightarrow> size_t" where
  "ohtable_capacity oh = oh_capacity oh"

definition ohtable_num_items :: "ohtable \<Rightarrow> size_t" where
  "ohtable_num_items oh = oh_num_items oh"

definition ohtable_mean_displacement :: "ohtable \<Rightarrow> real" where
  "ohtable_mean_displacement oh = real (unat (oh_total_displacement oh)) / real (unat (oh_num_items oh))"

definition is_full :: "ohtable \<Rightarrow> bool" where
  "is_full oh \<longleftrightarrow> real (unat (oh_num_items oh)) / real (unat (oh_capacity oh)) > 98 / 100"

text \<open>The loop of \<open>ohtable_put\<close> over the blocks of the probe.\<close>

partial_function (option) put_loop ::
    "build_params \<Rightarrow> size_t \<Rightarrow> oram \<Rightarrow> u64 \<Rightarrow> robinhood_accessor_args \<Rightarrow> randombytes \<Rightarrow>
     (error_t \<times> oram \<times> robinhood_accessor_args \<times> randombytes) option" where
  "put_loop pr num_blocks orm block_id a rnd =
     (if ra_insert_complete a then Some (err_SUCCESS, orm, a, rnd)
      else case oram_function_access pr orm block_id (robinhood a) rnd of
             None \<Rightarrow> None
           | Some (err, out, orm, rnd) \<Rightarrow>
               (let a = (case out of None \<Rightarrow> a | Some a' \<Rightarrow> a')
                in if err \<noteq> err_SUCCESS then Some (err, orm, a, rnd)
                   else put_loop pr num_blocks orm (U64_TERNARY (block_id + 1 = num_blocks) 0 (block_id + 1)) (a\<lparr>ra_start_index := 0\<rparr>) rnd))"

definition ohtable_put :: "build_params \<Rightarrow> ohtable \<Rightarrow> u64 list \<Rightarrow> randombytes \<Rightarrow> (error_t \<times> ohtable \<times> randombytes) option" where
  "ohtable_put pr oh record rnd =
     (if is_full oh then Some (err_OHTABLE__TABLE_FULL, oh, rnd)
      else if length record < unat (oh_record_size_qwords oh) then None
      else let loc = ohtable_hash oh (record ! 0);
               block_id = loc_block_id loc;
               temp_record = take (unat (oh_record_size_qwords oh)) record;
               curr_record_hash = ohtable_hash_from_location oh loc;
               a = \<lparr>ra_record_size_qwords = oh_record_size_qwords oh, ra_start_index = loc_index loc, ra_insert_complete = False,
                    ra_in_record = temp_record, ra_curr_jump = 0, ra_curr_record_hash = curr_record_hash,
                    ra_curr_slot_hash = curr_record_hash, ra_trace = 0, ra_inserted_new_item = False, ra_max_offset = 0,
                    ra_ohtable_capacity = oh_capacity oh, ra_capacity_ct_m_prime = oh_capacity_ct_m_prime oh,
                    ra_capacity_ct_shift1 = oh_capacity_ct_shift1 oh, ra_capacity_ct_shift2 = oh_capacity_ct_shift2 oh\<rparr>
           in case put_loop pr (oh_num_blocks oh) (oh_oram oh) block_id a rnd of
                None \<Rightarrow> None
              | Some (err, orm, a, rnd) \<Rightarrow>
                  (let oh = oh\<lparr>oh_oram := orm, oh_temp_record := ra_in_record a\<rparr>
                   in if err \<noteq> err_SUCCESS then Some (err, oh, rnd)
                      else Some (err_SUCCESS,
                        oh\<lparr>oh_num_items := oh_num_items oh + U64_TERNARY (ra_inserted_new_item a) 1 0,
                           oh_total_displacement := oh_total_displacement oh + ra_trace a,
                           oh_max_trace_length := U64_TERNARY (ra_trace a > oh_max_trace_length oh) (ra_trace a) (oh_max_trace_length oh),
                           oh_max_offset := U64_TERNARY (ra_max_offset a > oh_max_offset oh) (ra_max_offset a) (oh_max_offset oh)\<rparr>, rnd)))"

text \<open>The loop of \<open>ohtable_get\<close>.\<close>

fun get_loop ::
    "nat \<Rightarrow> build_params \<Rightarrow> size_t \<Rightarrow> oram \<Rightarrow> u64 \<Rightarrow> get_record_accessor_args \<Rightarrow> randombytes \<Rightarrow>
     (error_t \<times> oram \<times> get_record_accessor_args \<times> randombytes) option" where
  "get_loop 0 pr num_blocks orm block_id a rnd = Some (err_SUCCESS, orm, a, rnd)"
| "get_loop (Suc blocks_to_scan) pr num_blocks orm block_id a rnd =
     (case oram_function_access pr orm block_id (get_record a) rnd of
        None \<Rightarrow> None
      | Some (err, out, orm, rnd) \<Rightarrow>
          (let a = (case out of None \<Rightarrow> a | Some a' \<Rightarrow> a')
           in if err \<noteq> err_SUCCESS then Some (err, orm, a, rnd)
              else get_loop blocks_to_scan pr num_blocks orm (U64_TERNARY (block_id + 1 = num_blocks) 0 (block_id + 1)) (a\<lparr>ga_start_index := 0\<rparr>) rnd))"

definition ohtable_get :: "build_params \<Rightarrow> ohtable \<Rightarrow> u64 \<Rightarrow> u64 list \<Rightarrow> randombytes \<Rightarrow> (error_t \<times> u64 list \<times> ohtable \<times> randombytes) option" where
  "ohtable_get pr oh key record rnd =
     (if length record < unat (oh_record_size_qwords oh) then None
      else let n = unat (oh_record_size_qwords oh);
               blocks_to_scan = 1 + (oh_max_offset oh + oh_items_per_block oh - 1) div oh_items_per_block oh;
               loc = ohtable_hash oh key;
               a = \<lparr>ga_record_size_qwords = oh_record_size_qwords oh, ga_start_index = loc_index loc, ga_search_complete = False,
                    ga_out_record = take n record, ga_key = key\<rparr>
           in case get_loop (unat blocks_to_scan) pr (oh_num_blocks oh) (oh_oram oh) (loc_block_id loc) a rnd of
                None \<Rightarrow> None
              | Some (err, orm, a, rnd) \<Rightarrow> Some (err, ga_out_record a @ drop n record, oh\<lparr>oh_oram := orm\<rparr>, rnd))"

end
