(* ===== verification/OHTableSlots.thy ===== *)
theory OHTableSlots
  imports OHTable
begin

text \<open>
  The insertion of \<^verbatim>\<open>OHTable\<close> on the slots of a table: a block is 24 slots of a Robin Hood table, the accessor
  takes the steps of \<^verbatim>\<open>ProbeTable\<close> on the slots of its block, and the loop over the blocks ends with the new record
  in the table.
\<close>

section \<open>Records in a block\<close>

lemma cond_copy_record_if: "length dst = length src \<Longrightarrow> cond_copy_record c dst src = (if c then src else dst)"
  by (rule nth_equalityI) (simp_all add: cond_copy_record_def ct_simps)

lemma cond_swap_record_if: "length a = length b \<Longrightarrow> cond_swap_record c a b = (if c then (b, a) else (a, b))"
  by (auto simp: cond_swap_record_def ct_simps intro!: nth_equalityI)

lemma length_record_at [simp]: "length d = 168 \<Longrightarrow> i < 24 \<Longrightarrow> length (record_at d i) = 7"
  by (simp add: record_at_def)

lemma length_set_record [simp]: "length d = 168 \<Longrightarrow> i < 24 \<Longrightarrow> length r = 7 \<Longrightarrow> length (set_record d i r) = 168"
  by (simp add: set_record_def)

lemma nth_record_at: "length d = 168 \<Longrightarrow> i < 24 \<Longrightarrow> j < 7 \<Longrightarrow> record_at d i ! j = d ! (7 * i + j)"
  by (simp add: record_at_def)

lemma nth_set_record:
  "length d = 168 \<Longrightarrow> i < 24 \<Longrightarrow> length r = 7 \<Longrightarrow> k < 168 \<Longrightarrow> set_record d i r ! k = (if k div 7 = i then r ! (k mod 7) else d ! k)"
proof -
  assume a: "length d = 168" "i < 24" "length r = 7" "k < 168"
  have k: "k = 7 * (k div 7) + k mod 7" "k mod 7 < 7" by simp_all
  consider "k div 7 < i" | "k div 7 = i" | "i < k div 7" by linarith
  then show ?thesis
  proof cases
    case 1
    then have "k < 7 * i" using k by linarith
    then show ?thesis using 1 a by (simp add: set_record_def nth_append)
  next
    case 2
    then have "7 * i \<le> k" "k - 7 * i = k mod 7" using k by linarith+
    then show ?thesis using 2 a k(2) by (simp add: set_record_def nth_append)
  next
    case 3
    then have "7 * i + 7 \<le> k" "\<not> k - 7 * i < 7" using k by linarith+
    then show ?thesis using 3 a by (simp add: set_record_def nth_append)
  qed
qed

lemma record_at_set_record:
  "length d = 168 \<Longrightarrow> i < 24 \<Longrightarrow> j < 24 \<Longrightarrow> length r = 7 \<Longrightarrow> record_at (set_record d i r) j = (if j = i then r else record_at d j)"
  by (rule nth_equalityI) (auto simp: nth_record_at nth_set_record)

lemma set_record_same: "length d = 168 \<Longrightarrow> i < 24 \<Longrightarrow> set_record d i (record_at d i) = d"
  by (rule nth_equalityI) (auto simp: nth_record_at nth_set_record)

lemma record_at_blank: "i < 24 \<Longrightarrow> record_at (replicate 168 x) i = replicate 7 x"
  by (simp add: record_at_def)

text \<open>One block put into a table.\<close>

definition with_block :: "nat \<Rightarrow> (nat \<Rightarrow> u64 list) \<Rightarrow> u64 list \<Rightarrow> nat \<Rightarrow> u64 list" where
  "with_block b T d s = (if s div 24 = b then record_at d (s mod 24) else T s)"

lemma with_block_set:
  assumes "length d = 168" "i < 24" "length r = 7"
  shows "with_block b T (set_record d i r) = (with_block b T d)(24 * b + i := r)"
proof (rule ext)
  fix s :: nat
  have "s = 24 * (s div 24) + s mod 24" by simp
  then have "s = 24 * b + i \<longleftrightarrow> s div 24 = b \<and> s mod 24 = i" using assms(2) by auto
  then show "with_block b T (set_record d i r) s = ((with_block b T d)(24 * b + i := r)) s"
    using assms by (simp add: with_block_def record_at_set_record)
qed

lemma with_block_at: "i < 24 \<Longrightarrow> with_block b T d (24 * b + i) = record_at d i"
  by (simp add: with_block_def)

section \<open>One slot\<close>

lemma j_ternary_01 [simp]: "j_ternary 1 x y = x" "j_ternary 0 x y = y"
  using j_ternary_if [of True x y] j_ternary_if [of False x y] by simp_all

lemma robinhood_slot_pass:
  assumes "length d = 168" "i < 24" "length (ra_in_record a) = 7" "ra_insert_complete a \<or> of_nat i < ra_start_index a"
  shows "robinhood_slot i (d, a, ins) = (d, a\<lparr>ra_curr_slot_hash := ra_curr_slot_hash a + of_bool (ra_start_index a \<le> of_nat i)\<rparr>, ins)"
proof (cases "ra_insert_complete a")
  case True
  then show ?thesis using assms(1-3)
    by (cases a) (simp add: robinhood_slot_def Let_def cond_copy_record_if cond_swap_record_if set_record_same ct_simps)
next
  case False
  then have "(ra_start_index a \<le> of_nat i) = False" using assms(4) by simp
  then show ?thesis using assms(1-3) False
    by (cases a) (simp add: robinhood_slot_def Let_def cond_copy_record_if cond_swap_record_if set_record_same ct_simps)
qed

definition slot_hash :: "robinhood_accessor_args \<Rightarrow> u64 \<Rightarrow> u64" where
  "slot_hash a key = j_ct_mod (raw_hash key) (ra_ohtable_capacity a) (ra_capacity_ct_m_prime a) (ra_capacity_ct_shift1 a) (ra_capacity_ct_shift2 a)"

definition jump_smaller :: "robinhood_accessor_args \<Rightarrow> u64 \<Rightarrow> bool" where
  "jump_smaller a key \<longleftrightarrow> (
     let candidate_jump = distance_to_hash (ra_ohtable_capacity a) (slot_hash a key) (ra_curr_slot_hash a)
     in candidate_jump = ra_curr_jump a \<and> raw_hash key < raw_hash (rec_key (ra_in_record a)) \<or> candidate_jump < ra_curr_jump a)"

text \<open>The three cases of a slot of the search.\<close>

lemma robinhood_slot_store:
  assumes "length d = 168" "i < 24" "length (ra_in_record a) = 7" "\<not> ra_insert_complete a" "ra_start_index a \<le> of_nat i"
    and "rec_key (record_at d i) = UINT64_MAX \<or> rec_key (record_at d i) = rec_key (ra_in_record a)"
  shows "robinhood_slot i (d, a, ins) = (set_record d i (ra_in_record a),
      a\<lparr>ra_inserted_new_item := (ra_inserted_new_item a \<or> rec_key (record_at d i) = UINT64_MAX \<and> \<not> ins), ra_insert_complete := True,
        ra_max_offset := max (ra_curr_jump a) (ra_max_offset a), ra_curr_slot_hash := ra_curr_slot_hash a + 1\<rparr>, True)"
proof -
  have "record_empty_or_matches (record_at d i) (rec_key (ra_in_record a)) = True" using assms(6) by (simp add: record_empty_or_matches_def)
  then show ?thesis using assms(1-5)
    by (cases a) (simp add: robinhood_slot_def Let_def cond_copy_record_if cond_swap_record_if ct_simps record_empty_def max_absorb1 max_absorb2 less_imp_le not_less)
qed

lemma robinhood_slot_swap:
  assumes "length d = 168" "i < 24" "length (ra_in_record a) = 7" "\<not> ra_insert_complete a" "ra_start_index a \<le> of_nat i"
    and "rec_key (record_at d i) \<noteq> UINT64_MAX" "rec_key (record_at d i) \<noteq> rec_key (ra_in_record a)"
    and "jump_smaller a (rec_key (record_at d i))"
  shows "robinhood_slot i (d, a, ins) = (set_record d i (ra_in_record a),
      a\<lparr>ra_inserted_new_item := (ra_inserted_new_item a \<or> \<not> ins), ra_in_record := record_at d i,
        ra_max_offset := ra_curr_jump a, ra_curr_record_hash := slot_hash a (rec_key (record_at d i)),
        ra_curr_jump := distance_to_hash (ra_ohtable_capacity a) (slot_hash a (rec_key (record_at d i))) (ra_curr_slot_hash a) + 1,
        ra_curr_slot_hash := ra_curr_slot_hash a + 1, ra_trace := ra_trace a + 1\<rparr>, True)"
proof -
  have "record_empty_or_matches (record_at d i) (rec_key (ra_in_record a)) = False" using assms(6,7) by (simp add: record_empty_or_matches_def)
  with assms(8) [unfolded jump_smaller_def Let_def slot_hash_def] show ?thesis using assms(1-5)
    by (elim disjE; cases a) (simp_all add: robinhood_slot_def Let_def cond_copy_record_if cond_swap_record_if ct_simps slot_hash_def)
qed

lemma robinhood_slot_skip:
  assumes "length d = 168" "i < 24" "length (ra_in_record a) = 7" "\<not> ra_insert_complete a" "ra_start_index a \<le> of_nat i"
    and "rec_key (record_at d i) \<noteq> UINT64_MAX" "rec_key (record_at d i) \<noteq> rec_key (ra_in_record a)"
    and "\<not> jump_smaller a (rec_key (record_at d i))"
  shows "robinhood_slot i (d, a, ins) = (d,
      a\<lparr>ra_curr_jump := ra_curr_jump a + 1, ra_curr_slot_hash := ra_curr_slot_hash a + 1, ra_trace := ra_trace a + 1\<rparr>, ins)"
proof -
  have "record_empty_or_matches (record_at d i) (rec_key (ra_in_record a)) = False" using assms(6,7) by (simp add: record_empty_or_matches_def)
  with assms(8) [unfolded jump_smaller_def Let_def] show ?thesis using assms(1-5)
    by (cases "distance_to_hash (ra_ohtable_capacity a) (slot_hash a (rec_key (record_at d i))) (ra_curr_slot_hash a) = ra_curr_jump a"; cases a)
      (simp_all add: robinhood_slot_def Let_def cond_copy_record_if cond_swap_record_if set_record_same ct_simps slot_hash_def)
qed

section \<open>The order of the code\<close>

definition home :: "nat \<Rightarrow> u64 \<Rightarrow> nat" where
  "home N k = unat (raw_hash k) mod N"

definition raw :: "u64 \<Rightarrow> nat" where
  "raw k = unat (raw_hash k)"

definition args_ok :: "nat \<Rightarrow> robinhood_accessor_args \<Rightarrow> bool" where
  "args_ok N a \<longleftrightarrow> 2 \<le> N \<and> N \<le> 4611686018427387904 \<and> ra_ohtable_capacity a = of_nat N \<and> length (ra_in_record a) = 7 \<and>
     prep_ct_div (of_nat N) = Some (ra_capacity_ct_m_prime a, ra_capacity_ct_shift1 a, ra_capacity_ct_shift2 a)"

lemma slot_hash_home: "args_ok N a \<Longrightarrow> unat (slot_hash a k) = home N k"
  unfolding args_ok_def slot_hash_def home_def
  using j_ct_mod_result(2) [of "of_nat N" "ra_capacity_ct_m_prime a" "ra_capacity_ct_shift1 a" "ra_capacity_ct_shift2 a" "raw_hash k"]
  by (simp add: unat_of_nat_64 unat_mod)

lemma home_lt: "0 < N \<Longrightarrow> home N k < N"
  by (simp add: home_def)

lemma distance_unat:
  assumes "unat h < N" "P < 2 * N" "N \<le> 4611686018427387904"
  shows "unat (distance_to_hash (of_nat N) h (of_nat P)) = (if P < unat h then P + N - unat h else P - unat h)"
proof -
  have P: "unat (of_nat P :: u64) = P" and N: "unat (of_nat N :: u64) = N" using assms by (simp_all add: unat_of_nat_64)
  have lt: "(of_nat P :: u64) < h \<longleftrightarrow> P < unat h" by (simp add: word_less_nat_alt P)
  show ?thesis
  proof (cases "P < unat h")
    case True
    have "(of_nat P :: u64) - h + of_nat N = of_nat (P + N - unat h)"
      using True assms(1) by (simp add: of_nat_diff)
    moreover have "unat (of_nat (P + N - unat h) :: u64) = P + N - unat h" using assms True by (intro unat_of_nat_64) linarith
    ultimately show ?thesis using True lt by (simp add: distance_to_hash_def)
  next
    case False
    then have "h \<le> of_nat P" using lt by simp
    then show ?thesis using False lt by (simp add: distance_to_hash_def unat_sub_64 P)
  qed
qed

text \<open>What the code compares at position \<open>P\<close> is the order of the table.\<close>

lemma jump_smaller_richer:
  assumes a: "args_ok N a" and P: "home N k \<le> P" "P < home N k + N" and k: "rec_key (ra_in_record a) = k"
    and slot: "ra_curr_slot_hash a = of_nat P" and jump: "ra_curr_jump a = of_nat (P - home N k)"
  shows "jump_smaller a r \<longleftrightarrow> richer (home N) raw (P mod N) r k"
    and "richer (home N) raw (P mod N) r k \<Longrightarrow>
      distance_to_hash (ra_ohtable_capacity a) (slot_hash a r) (ra_curr_slot_hash a) = of_nat (P - home N r)"
proof -
  have N: "2 \<le> N" "N \<le> 4611686018427387904" "ra_ohtable_capacity a = of_nat N" using a by (simp_all add: args_ok_def)
  have h: "home N k < N" "home N r < N" using N home_lt by simp_all
  let ?d = "distance_to_hash (ra_ohtable_capacity a) (slot_hash a r) (ra_curr_slot_hash a)"
  have d: "unat ?d = (if P < home N r then P + N - home N r else P - home N r)"
    unfolding slot N(3) using distance_unat [of "slot_hash a r" N P] slot_hash_home [OF a] h P N by simp
  have j: "unat (ra_curr_jump a) = P - home N k" unfolding jump using h P N by (intro unat_of_nat_64) linarith
  have m: "P mod N = (if P < N then P else P - N)" using P h by (simp add: mod_if)
  have w: "raw_hash r < raw_hash k \<longleftrightarrow> raw r < raw k" by (simp add: raw_def word_less_nat_alt)
  have "jump_smaller a r \<longleftrightarrow> unat ?d = P - home N k \<and> raw r < raw k \<or> unat ?d < P - home N k"
    unfolding jump_smaller_def Let_def k w word_less_nat_alt [of "distance_to_hash _ _ _"] j word_unat_eq_iff ..
  also have "\<dots> \<longleftrightarrow> richer (home N) raw (P mod N) r k"
    unfolding d m richer_def using P h by (cases "P < N"; cases "P < home N r") auto
  finally show "jump_smaller a r \<longleftrightarrow> richer (home N) raw (P mod N) r k" .
  show "?d = of_nat (P - home N r)" if "richer (home N) raw (P mod N) r k"
  proof -
    note q = richer_position [OF that h(2,1) P]
    moreover have "unat (of_nat (P - home N r) :: u64) = P - home N r" using h q N by (intro unat_of_nat_64) linarith
    ultimately show ?thesis using d by (intro word64_eqI) simp
  qed
qed

section \<open>The steps of the accessor\<close>

definition in_progress :: "nat \<Rightarrow> (nat \<Rightarrow> u64 list) \<Rightarrow> u64 list \<Rightarrow> (nat \<Rightarrow> u64 list) \<Rightarrow> robinhood_accessor_args \<Rightarrow> bool \<Rightarrow> nat \<Rightarrow> bool" where
  "in_progress N T0 c0 T a ins P \<longleftrightarrow> args_ok N a \<and> \<not> ra_insert_complete a \<and> blank_slots N T \<and>
     inserting N (home N) raw T0 c0 T (ra_in_record a) P \<and>
     ra_curr_slot_hash a = of_nat P \<and> ra_curr_jump a = of_nat (P - home N (rec_key (ra_in_record a))) \<and>
     (ra_inserted_new_item a \<longleftrightarrow> rec_key (ra_in_record a) \<noteq> rec_key c0) \<and>
     (ins \<longrightarrow> rec_key (ra_in_record a) \<noteq> rec_key c0) \<and>
     unat (ra_max_offset a) < N \<and> (rec_key (ra_in_record a) = rec_key c0 \<longrightarrow> ra_max_offset a = 0)"

text \<open>The insertion is complete; if no record has been displaced, the offset of the new one is known.\<close>

definition completed :: "nat \<Rightarrow> (nat \<Rightarrow> u64 list) \<Rightarrow> u64 list \<Rightarrow> (nat \<Rightarrow> u64 list) \<Rightarrow> robinhood_accessor_args \<Rightarrow> bool" where
  "completed N T0 c0 T a \<longleftrightarrow> length (ra_in_record a) = 7 \<and> unat (ra_max_offset a) < N \<and> ra_insert_complete a \<and> blank_slots N T \<and> probe_inv N (home N) raw T \<and>
     table_map N T = (table_map N T0)(rec_key c0 \<mapsto> c0) \<and>
     (ra_inserted_new_item a \<longleftrightarrow> table_map N T0 (rec_key c0) = None) \<and>
     (ra_in_record a = c0 \<longrightarrow> (\<exists>P. home N (rec_key c0) \<le> P \<and> P < home N (rec_key c0) + N \<and> T = T0(P mod N := c0) \<and>
        ra_max_offset a = of_nat (P - home N (rec_key c0))))"

lemma robinhood_slot_step:
  assumes I: "in_progress N T0 c0 (with_block b T d) a ins P" and s: "P mod N = 24 * b + i" "i < 24" "ra_start_index a \<le> of_nat i"
    and d: "length d = 168"
  obtains d' a' ins' where "robinhood_slot i (d, a, ins) = (d', a', ins')" "length d' = 168" "ra_start_index a' = ra_start_index a"
    "in_progress N T0 c0 (with_block b T d') a' ins' (Suc P) \<or> completed N T0 c0 (with_block b T d') a'"
proof -
  let ?T = "with_block b T d" and ?c = "ra_in_record a" and ?r = "record_at d i"
  have a: "args_ok N a" and nc: "\<not> ra_insert_complete a" and blank: "blank_slots N ?T" and ins: "inserting N (home N) raw T0 c0 ?T ?c P"
    and slot: "ra_curr_slot_hash a = of_nat P" and jump: "ra_curr_jump a = of_nat (P - home N (rec_key ?c))"
    and new: "ra_inserted_new_item a \<longleftrightarrow> rec_key ?c \<noteq> rec_key c0" and fl: "ins \<longrightarrow> rec_key ?c \<noteq> rec_key c0"
    and mo: "rec_key ?c = rec_key c0 \<longrightarrow> ra_max_offset a = 0" and mN: "unat (ra_max_offset a) < N"
    using I by (simp_all add: in_progress_def)
  note D = insertingD [OF ins]
  have c: "length ?c = 7" using a by (simp add: args_ok_def)
  have r: "?T (P mod N) = ?r" unfolding s(1) using s(2) by (rule with_block_at)
  have w: "with_block b T (set_record d i ?c) = ?T(P mod N := ?c)" unfolding s(1) by (rule with_block_set [OF d s(2) c])
  have bw: "blank_slots N (?T(P mod N := ?c))" using blank_slots_write [OF blank D(3) c] .
  have jN: "unat (ra_curr_jump a) < N"
  proof -
    have lt: "P - home N (rec_key ?c) < N" "N \<le> 4611686018427387904" using D(4,6) a by (simp_all add: args_ok_def)
    then show ?thesis unfolding jump by (subst unat_of_nat_64) simp_all
  qed
  have maxN: "unat (max (ra_curr_jump a) (ra_max_offset a)) < N" using jN mN by (simp add: max_def)
  note js = jump_smaller_richer [OF a D(4,6) refl slot jump, of "rec_key ?r"]
  show thesis
  proof (cases "rec_key ?r = UINT64_MAX \<or> rec_key ?r = rec_key ?c")
    case True
    note st = inserting_store [OF ins, unfolded r, OF True]
    have k: "rec_key ?c = rec_key c0 \<Longrightarrow> ?c = c0 \<and> ?T = T0" using ins by (simp add: inserting_def)
    have un: "table_map N T0 (rec_key c0) = None" if "rec_key ?c \<noteq> rec_key c0"
      using ins that unfolding inserting_def by (auto split: if_splits)
    have ro: "ra_max_offset a = 0 \<Longrightarrow> max (ra_curr_jump a) (ra_max_offset a) = of_nat (P - home N (rec_key ?c))"
      using jump by (simp add: max_def)
    show thesis
      by (rule that [OF robinhood_slot_store [OF d s(2) c nc s(3) True]])
        (use d s(2) c bw st new fl un k mo ro maxN D(7,8) in \<open>auto simp: completed_def w\<close>)
  next
    case False
    note F = this [unfolded de_Morgan_disj, THEN conjunct1] this [unfolded de_Morgan_disj, THEN conjunct2]
    show thesis
    proof (cases "jump_smaller a (rec_key ?r)")
      case True
      then have rr: "richer (home N) raw (P mod N) (rec_key ?r) (rec_key ?c)" using js(1) by simp
      note sw = inserting_swap [OF ins, unfolded r, OF F(1) rr] and pos = insertingD(4) [OF sw(1)]
      have j: "distance_to_hash (ra_ohtable_capacity a) (slot_hash a (rec_key ?r)) (ra_curr_slot_hash a) + 1 = of_nat (Suc P - home N (rec_key ?r))"
        using js(2) [OF rr] richer_position(1) [OF rr probe_invD(1) [OF D(1)] probe_invD(1) [OF D(1)] D(4,6)] by (simp add: Suc_diff_le)
      show thesis
        by (rule that [OF robinhood_slot_swap [OF d s(2) c nc s(3) F True]])
          (use d s(2) c a bw sw slot j new fl nc jN in \<open>auto simp: in_progress_def w args_ok_def\<close>)
    next
      case nj: False
      then have "inserting N (home N) raw T0 c0 ?T ?c (Suc P)" using inserting_skip [OF ins, unfolded r, OF F] js(1) by simp
      then show thesis
        by (intro that [OF robinhood_slot_skip [OF d s(2) c nc s(3) F nj]])
          (use d a blank slot jump new fl mo mN nc D(4) in \<open>simp_all add: in_progress_def args_ok_def Suc_diff_le\<close>)
    qed
  qed
qed

section \<open>A block\<close>

lemma robinhood_slot_completed:
  assumes "completed N T0 c0 T a" "length d = 168" "i < 24"
  shows "\<exists>a'. robinhood_slot i (d, a, ins) = (d, a', ins) \<and> completed N T0 c0 T a'"
proof -
  have "robinhood_slot i (d, a, ins) = (d, a\<lparr>ra_curr_slot_hash := ra_curr_slot_hash a + of_bool (ra_start_index a \<le> of_nat i)\<rparr>, ins)"
    using assms by (intro robinhood_slot_pass) (simp_all add: completed_def)
  then show ?thesis using assms(1) by (simp add: completed_def)
qed

lemma fold_completed:
  assumes "completed N T0 c0 T a" "length d = 168"
  shows "\<exists>a'. fold robinhood_slot [i..<24] (d, a, ins) = (d, a', ins) \<and> completed N T0 c0 T a'"
  using assms
proof (induction "24 - i" arbitrary: i a)
  case (Suc n)
  then have i: "i < 24" "[i..<24] = i # [Suc i..<24]" by (simp_all add: upt_conv_Cons)
  obtain a' where "robinhood_slot i (d, a, ins) = (d, a', ins)" "completed N T0 c0 T a'"
    using robinhood_slot_completed [OF Suc.prems i(1)] by blast
  then show ?case using Suc.hyps(1) [of "Suc i" a'] Suc.hyps(2) Suc.prems(2) i(2) by simp
qed simp

lemma fold_search:
  assumes "in_progress N T0 c0 (with_block b T d) a ins P" "i < 24 \<longrightarrow> P mod N = 24 * b + i" "i \<le> 24"
    and "length d = 168" "ra_start_index a \<le> of_nat i" "24 * b + 24 \<le> N"
  shows "\<exists>d' a' ins'. fold robinhood_slot [i..<24] (d, a, ins) = (d', a', ins') \<and> length d' = 168 \<and>
    (in_progress N T0 c0 (with_block b T d') a' ins' (P + (24 - i)) \<or> completed N T0 c0 (with_block b T d') a')"
  using assms
proof (induction "24 - i" arbitrary: i d a ins P)
  case (Suc n)
  then have i: "i < 24" "[i..<24] = i # [Suc i..<24]" by (simp_all add: upt_conv_Cons)
  obtain d' a' ins' where st: "robinhood_slot i (d, a, ins) = (d', a', ins')" "length d' = 168" "ra_start_index a' = ra_start_index a"
      "in_progress N T0 c0 (with_block b T d') a' ins' (Suc P) \<or> completed N T0 c0 (with_block b T d') a'"
    using robinhood_slot_step [OF Suc.prems(1) _ i(1) Suc.prems(5,4)] Suc.prems(2) i(1) by metis
  from st(4) show ?case
  proof
    assume c: "completed N T0 c0 (with_block b T d') a'"
    show ?case using fold_completed [OF c st(2), of "Suc i" ins'] st(1,2) i(2) by auto
  next
    assume p: "in_progress N T0 c0 (with_block b T d') a' ins' (Suc P)"
    have "Suc P mod N = 24 * b + Suc i" if "Suc i < 24"
      using Suc.prems(2,6) i(1) that by (simp add: mod_Suc)
    moreover have "ra_start_index a' \<le> of_nat (Suc i)"
    proof -
      have "unat (of_nat (Suc i) :: u64) = Suc i" "unat (of_nat i :: u64) = i" by (rule unat_of_nat_64, use i(1) in simp)+
      then show ?thesis using Suc.prems(5) by (simp only: st(3) word_le_nat_alt)
    qed
    moreover have "n = 24 - Suc i" "P + (24 - i) = Suc P + (24 - Suc i)" using Suc.hyps(2) i(1) by simp_all
    ultimately show ?case
      using Suc.hyps(1) [of "Suc i", OF _ p _ _ st(2) _ Suc.prems(6)] st(1) i by simp
  qed
qed auto

lemma fold_before:
  assumes "length d = 168" "length (ra_in_record a) = 7" "k \<le> unat (ra_start_index a)" "k \<le> 24"
  shows "fold robinhood_slot [0..<k] (d, a, ins) = (d, a, ins)"
  using assms(3,4)
proof (induction k)
  case (Suc k)
  then have lt: "of_nat k < ra_start_index a" by (simp add: word_less_nat_alt unat_of_nat_64)
  then have "robinhood_slot k (d, a, ins) = (d, a, ins)"
    using robinhood_slot_pass [OF assms(1) _ assms(2), of k] Suc.prems by (simp add: leD)
  then show ?case using Suc by simp
qed simp

lemma robinhood_block:
  assumes p: "in_progress N T0 c0 (with_block b T d) a ins P" and P: "P mod N = 24 * b + unat (ra_start_index a)"
    and i: "unat (ra_start_index a) < 24" and d: "length d = 168" and b: "24 * b + 24 \<le> N"
  obtains d' a' where "robinhood a d = (d', a')" "length d' = 168"
    "in_progress N T0 c0 (with_block b T d') (a'\<lparr>ra_start_index := 0\<rparr>) False (P + (24 - unat (ra_start_index a))) \<or>
     completed N T0 c0 (with_block b T d') (a'\<lparr>ra_start_index := 0\<rparr>)"
proof -
  let ?i = "unat (ra_start_index a)"
  have p0: "in_progress N T0 c0 (with_block b T d) a False P" using p by (simp add: in_progress_def)
  have "[0..<24] = [0..<?i] @ [?i..<24]" using i upt_add_eq_append [of 0 ?i "24 - ?i"] by simp
  then have "fold robinhood_slot [0..<24] (d, a, False) = fold robinhood_slot [?i..<24] (d, a, False)"
    using fold_before [OF d, of a ?i False] p i by (simp add: in_progress_def args_ok_def)
  moreover obtain d' a' ins' where "fold robinhood_slot [?i..<24] (d, a, False) = (d', a', ins')" "length d' = 168"
      "in_progress N T0 c0 (with_block b T d') a' ins' (P + (24 - ?i)) \<or> completed N T0 c0 (with_block b T d') a'"
    using fold_search [OF p0 _ _ d _ b, of ?i] P i by auto
  ultimately show thesis by (intro that [of d' a']) (auto simp: robinhood_def in_progress_def completed_def args_ok_def)
qed

section \<open>The table in an ORAM\<close>

definition slots_of :: "nat \<Rightarrow> oram \<Rightarrow> nat \<Rightarrow> u64 list" where
  "slots_of nb orm s = (if s < 24 * nb then record_at (oram_content (o_state orm) (of_nat (s div 24))) (s mod 24) else [])"

lemma with_block_same: "b < nb \<Longrightarrow> with_block b (slots_of nb orm) (oram_content (o_state orm) (of_nat b)) = slots_of nb orm"
  by (rule ext) (auto simp: with_block_def slots_of_def)

text \<open>An access to block \<open>t\<close> replaces that block of the table.\<close>

lemma access_slots:
  assumes "access_done nb t f orm out orm'" "unat t < nb" "nb < 18446744073709551616"
  shows "slots_of nb orm' = with_block (unat t) (slots_of nb orm) (fst (f (oram_content (o_state orm) t)))"
    "out = Some (snd (f (oram_content (o_state orm) t)))"
proof -
  show "slots_of nb orm' = with_block (unat t) (slots_of nb orm) (fst (f (oram_content (o_state orm) t)))"
  proof (rule ext)
    fix s :: nat
    show "slots_of nb orm' s = with_block (unat t) (slots_of nb orm) (fst (f (oram_content (o_state orm) t))) s"
    proof (cases "s < 24 * nb")
      case True
      then have b: "s div 24 < nb" by (simp add: less_mult_imp_div_less mult.commute)
      then have u: "unat (of_nat (s div 24) :: u64) = s div 24" using assms(3) by (intro unat_of_nat_64) simp
      then have "(of_nat (s div 24) = t) = (s div 24 = unat t)" by (auto simp: word_unat_eq_iff)
      then show ?thesis using True assms(1) b u by (auto simp: slots_of_def with_block_def access_done_def)
    next
      case False
      then have "s div 24 \<noteq> unat t" using assms(2) by auto
      then show ?thesis using False by (simp add: slots_of_def with_block_def)
    qed
  qed
  show "out = Some (snd (f (oram_content (o_state orm) t)))" using assms(1) by (simp add: access_done_def)
qed

lemma robinhood_slot_lengths:
  assumes "length d = 168" "length (ra_in_record a) = 7" "i < 24"
  shows "\<exists>d' a' ins'. robinhood_slot i (d, a, ins) = (d', a', ins') \<and> length d' = 168 \<and> length (ra_in_record a') = 7"
proof -
  let ?r = "rec_key (record_at d i)"
  consider "ra_insert_complete a \<or> of_nat i < ra_start_index a" | "\<not> ra_insert_complete a" "ra_start_index a \<le> of_nat i" by fastforce
  then show ?thesis
  proof cases
    case 2
    consider "?r = UINT64_MAX \<or> ?r = rec_key (ra_in_record a)" | "?r \<noteq> UINT64_MAX" "?r \<noteq> rec_key (ra_in_record a)" "jump_smaller a ?r"
      | "?r \<noteq> UINT64_MAX" "?r \<noteq> rec_key (ra_in_record a)" "\<not> jump_smaller a ?r" by blast
    then show ?thesis
    proof cases
      case 1
      show ?thesis unfolding robinhood_slot_store [OF assms(1,3,2) 2 1] using assms by auto
    next
      case sw: 2
      show ?thesis unfolding robinhood_slot_swap [OF assms(1,3,2) 2 sw] using assms by auto
    next
      case sk: 3
      show ?thesis unfolding robinhood_slot_skip [OF assms(1,3,2) 2 sk] using assms by simp
    qed
  qed (use assms robinhood_slot_pass [OF assms(1,3,2)] in simp)
qed

lemma fold_lengths:
  assumes "length d = 168" "length (ra_in_record a) = 7" "set is \<subseteq> {..<24}"
  shows "\<exists>d' a' ins'. fold robinhood_slot is (d, a, ins) = (d', a', ins') \<and> length d' = 168 \<and> length (ra_in_record a') = 7"
  using assms
proof (induction "is" arbitrary: d a ins)
  case (Cons i "is")
  obtain d' a' ins' where "robinhood_slot i (d, a, ins) = (d', a', ins')" "length d' = 168" "length (ra_in_record a') = 7"
    using robinhood_slot_lengths [of d a i ins] Cons.prems by auto
  then show ?case using Cons.IH [of d' a' ins'] Cons.prems(3) by simp
qed simp

lemma length_robinhood: "length d = 168 \<Longrightarrow> length (ra_in_record a) = 7 \<Longrightarrow> length (fst (robinhood a d)) = 168"
proof -
  assume "length d = 168" "length (ra_in_record a) = 7"
  then obtain d' a' ins' where "fold robinhood_slot [0..<24] (d, a, False) = (d', a', ins')" "length d' = 168"
    using fold_lengths [of d a "[0..<24]" False] by (auto simp: atLeast0LessThan)
  then show ?thesis by (simp add: robinhood_def)
qed

text \<open>The next block of the probe.\<close>

lemma next_block:
  assumes "unat b < nb" "nb < 18446744073709551616" "P mod (24 * nb) = 24 * unat b + i" "i < 24"
  defines "b' \<equiv> U64_TERNARY (b + 1 = of_nat nb) 0 (b + 1)"
  shows "unat b' < nb" "(P + (24 - i)) mod (24 * nb) = 24 * unat b'"
proof -
  have b1: "unat (b + 1) = Suc (unat b)" using assms(1,2) by (subst unat_add_64) simp_all
  have nb: "unat (of_nat nb :: u64) = nb" by (rule unat_of_nat_64 [OF assms(2)])
  have eq: "b + 1 = of_nat nb \<longleftrightarrow> Suc (unat b) = nb" using b1 nb by (metis word_unat_eq_iff)
  have m: "(P + (24 - i)) mod (24 * nb) = (24 * unat b + 24) mod (24 * nb)"
    using assms(3,4) mod_add_left_eq [of P "24 * nb" "24 - i"] by simp
  have u: "unat b' = (if Suc (unat b) = nb then 0 else Suc (unat b))" by (simp add: b'_def ct_simps eq b1)
  then show "unat b' < nb" using assms(1) by auto
  show "(P + (24 - i)) mod (24 * nb) = 24 * unat b'"
  proof (cases "Suc (unat b) = nb")
    case True
    then have "24 * unat b + 24 = 24 * nb" by simp
    then show ?thesis using m u True by (metis mod_self mult_0_right)
  next
    case False
    then have "24 * unat b + 24 < 24 * nb" using assms(1) by simp
    then show ?thesis using m u False by simp
  qed
qed

lemma put_loop_result:
  assumes "oram_ok pr nb orm" "in_progress (24 * nb) T0 c0 (slots_of nb orm) a False P"
    and "P mod (24 * nb) = 24 * unat b + unat (ra_start_index a)" "unat (ra_start_index a) < 24" "unat b < nb" "nb < 18446744073709551616"
  shows "\<exists>err orm' a' rnd'. put_loop pr (of_nat nb) orm b a rnd = Some (err, orm', a', rnd') \<and>
    (if err = err_SUCCESS then oram_ok pr nb orm' \<and> completed (24 * nb) T0 c0 (slots_of nb orm') a' else err = err_ORAM__STASH_EXHAUSTION) \<and>
    (oram_room pr nb orm \<longrightarrow> err = err_SUCCESS \<and> oram_room pr nb orm')"
  using assms
proof (induction "home (24 * nb) (rec_key c0) + 24 * nb - P" arbitrary: orm a P b rnd rule: less_induct)
  case less
  let ?N = "24 * nb" and ?i = "unat (ra_start_index a)" and ?d = "oram_content (o_state orm) b"
  let ?b = "U64_TERNARY (b + 1 = of_nat nb) 0 (b + 1)"
  have c7: "length (ra_in_record a) = 7" and nc: "\<not> ra_insert_complete a"
    and ins: "inserting ?N (home ?N) raw T0 c0 (slots_of nb orm) (ra_in_record a) P"
    using less.prems(2) by (simp_all add: in_progress_def args_ok_def)
  have d: "length ?d = 168" by (rule length_content [OF less.prems(1)])
  have same: "with_block (unat b) (slots_of nb orm) ?d = slots_of nb orm" using with_block_same [OF less.prems(5), of orm] by simp
  obtain d' a1 where st: "robinhood a ?d = (d', a1)" "length d' = 168"
      "in_progress ?N T0 c0 (with_block (unat b) (slots_of nb orm) d') (a1\<lparr>ra_start_index := 0\<rparr>) False (P + (24 - ?i)) \<or>
       completed ?N T0 c0 (with_block (unat b) (slots_of nb orm) d') (a1\<lparr>ra_start_index := 0\<rparr>)"
    using robinhood_block [of ?N T0 c0 "unat b" "slots_of nb orm" ?d a False P] less.prems(2-5) d same by auto
  obtain err out orm1 rnd1 where acc: "oram_function_access pr orm b (robinhood a) rnd = Some (err, out, orm1, rnd1)"
      "if err = err_SUCCESS then oram_ok pr nb orm1 \<and> access_done nb b (robinhood a) orm out orm1 else err = err_ORAM__STASH_EXHAUSTION"
      "oram_room pr nb orm \<longrightarrow> err = err_SUCCESS \<and> oram_room pr nb orm1"
    using oram_function_access_result [where f = "robinhood a", OF less.prems(1,5), of rnd] length_robinhood [OF _ c7] by blast
  show ?case
  proof (cases "err = err_SUCCESS")
    case False
    then show ?thesis using acc nc by (simp add: put_loop.simps Let_def)
  next
    case True
    then have ok: "oram_ok pr nb orm1" and done': "access_done nb b (robinhood a) orm out orm1" using acc(2) by simp_all
    note sl = access_slots [OF done' less.prems(5,6), unfolded st(1) fst_conv snd_conv]
    have unf: "put_loop pr (of_nat nb) orm b a rnd = put_loop pr (of_nat nb) orm1 ?b (a1\<lparr>ra_start_index := 0\<rparr>) rnd1"
      using acc(1) sl(2) nc True by (simp add: put_loop.simps [of _ _ orm])
    from st(3) show ?thesis
    proof
      assume "completed ?N T0 c0 (with_block (unat b) (slots_of nb orm) d') (a1\<lparr>ra_start_index := 0\<rparr>)"
      then show ?thesis unfolding unf using ok acc(3) sl(1) by (simp add: put_loop.simps completed_def)
    next
      assume p: "in_progress ?N T0 c0 (with_block (unat b) (slots_of nb orm) d') (a1\<lparr>ra_start_index := 0\<rparr>) False (P + (24 - ?i))"
      note nb = next_block [OF less.prems(5,6,3,4)]
      have "P < home ?N (rec_key c0) + ?N" by (rule insertingD(8) [OF ins])
      then have m: "home ?N (rec_key c0) + ?N - (P + (24 - ?i)) < home ?N (rec_key c0) + ?N - P" using less.prems(4) by linarith
      obtain err' orm' a' rnd' where "put_loop pr (of_nat nb) orm1 ?b (a1\<lparr>ra_start_index := 0\<rparr>) rnd1 = Some (err', orm', a', rnd')"
          "if err' = err_SUCCESS then oram_ok pr nb orm' \<and> completed ?N T0 c0 (slots_of nb orm') a' else err' = err_ORAM__STASH_EXHAUSTION"
          "oram_room pr nb orm1 \<longrightarrow> err' = err_SUCCESS \<and> oram_room pr nb orm'"
        using less.hyps [OF m ok p [folded sl(1)] _ _ nb(1) less.prems(6), of rnd1] nb(2) by auto
      then show ?thesis unfolding unf using acc(3) by blast
    qed
  qed
qed

end
