(* ===== verification/OHTableMap.thy ===== *)
theory OHTableMap
  imports OHTableSlots
begin

text \<open>
  The hash table of \<^verbatim>\<open>OHTable\<close> as a map from keys to records: what \<open>ohtable_put\<close> and \<open>ohtable_get\<close> do to the map
  of a table, and when a lookup finds a record.
\<close>

section \<open>Invariant and abstraction of a table\<close>

definition ohtable_ok :: "build_params \<Rightarrow> nat \<Rightarrow> ohtable \<Rightarrow> bool" where
  "ohtable_ok pr nb oh \<longleftrightarrow> 0 < nb \<and> nb \<le> 144115188075855872 \<and> oram_ok pr nb (oh_oram oh) \<and>
     oh_num_blocks oh = of_nat nb \<and> oh_items_per_block oh = 24 \<and> oh_record_size_qwords oh = 7 \<and> oh_capacity oh = of_nat (24 * nb) \<and>
     prep_ct_div (of_nat (24 * nb)) = Some (oh_capacity_ct_m_prime oh, oh_capacity_ct_shift1 oh, oh_capacity_ct_shift2 oh) \<and>
     prep_ct_div 24 = Some (oh_items_per_block_ct_m_prime oh, oh_items_per_block_ct_shift1 oh, oh_items_per_block_ct_shift2 oh) \<and>
     unat (oh_max_offset oh) < 24 * nb \<and>
     blank_slots (24 * nb) (slots_of nb (oh_oram oh)) \<and> probe_inv (24 * nb) (home (24 * nb)) raw (slots_of nb (oh_oram oh)) \<and>
     unat (oh_num_items oh) = card (dom (table_map (24 * nb) (slots_of nb (oh_oram oh))))"

definition oh_map :: "nat \<Rightarrow> ohtable \<Rightarrow> u64 \<rightharpoonup> u64 list" where
  "oh_map nb oh = table_map (24 * nb) (slots_of nb (oh_oram oh))"

text \<open>No record is farther from home than the table has noted.\<close>

definition covered :: "nat \<Rightarrow> ohtable \<Rightarrow> bool" where
  "covered nb oh \<longleftrightarrow> offsets_le (24 * nb) (home (24 * nb)) (slots_of nb (oh_oram oh)) (unat (oh_max_offset oh))"

lemma ohtable_hash_location:
  assumes "ohtable_ok pr nb oh"
  shows "unat (loc_block_id (ohtable_hash oh k)) = home (24 * nb) k div 24"
    "unat (loc_index (ohtable_hash oh k)) = home (24 * nb) k mod 24"
    "ohtable_hash_from_location oh (ohtable_hash oh k) = of_nat (home (24 * nb) k)"
proof -
  let ?N = "24 * nb"
  have N: "2 \<le> ?N" "?N \<le> 3458764513820540928" and i24: "oh_items_per_block oh = 24"
    and p: "prep_ct_div (of_nat ?N) = Some (oh_capacity_ct_m_prime oh, oh_capacity_ct_shift1 oh, oh_capacity_ct_shift2 oh)" "oh_capacity oh = of_nat ?N"
    and q: "prep_ct_div 24 = Some (oh_items_per_block_ct_m_prime oh, oh_items_per_block_ct_shift1 oh, oh_items_per_block_ct_shift2 oh)"
    using assms by (simp_all add: ohtable_ok_def)
  have u: "unat (of_nat ?N :: u64) = ?N" using N by (intro unat_of_nat_64) linarith
  define h where "h = raw_hash k mod of_nat ?N"
  have h: "unat h = home ?N k" unfolding h_def home_def unat_mod u ..
  have eq: "ohtable_hash oh k = \<lparr>loc_block_id = h div 24, loc_index = h mod 24\<rparr>"
    unfolding ohtable_hash_def Let_def p(2) i24 h_def
    using j_ct_mod_result [OF _ _ p(1), of "raw_hash k"] j_ct_mod_result [OF _ _ q] u N by simp
  then show "unat (loc_block_id (ohtable_hash oh k)) = home ?N k div 24" "unat (loc_index (ohtable_hash oh k)) = home ?N k mod 24"
    by (simp_all add: unat_div unat_mod h)
  have "h div 24 * 24 + h mod 24 = h" by (rule div_mult_mod_eq)
  then show "ohtable_hash_from_location oh (ohtable_hash oh k) = of_nat (home ?N k)"
    unfolding ohtable_hash_from_location_def eq i24 using h by (simp flip: h)
qed

lemma not_full_room:
  assumes "ohtable_ok pr nb oh" "\<not> is_full oh" shows "has_empty (24 * nb) (slots_of nb (oh_oram oh))"
proof -
  let ?N = "24 * nb"
  have N: "0 < ?N" "unat (oh_capacity oh) = ?N"
  proof -
    have "?N < 18446744073709551616" "0 < nb" using assms(1) by (simp_all add: ohtable_ok_def)
    then show "0 < ?N" "unat (oh_capacity oh) = ?N" using assms(1) unat_of_nat_64 [of ?N] by (simp_all add: ohtable_ok_def)
  qed
  have "real (unat (oh_num_items oh)) \<le> 98 / 100 * real ?N"
    using assms(2) N by (simp add: is_full_def field_simps)
  moreover have "98 / 100 * real ?N < real ?N" using N(1) by simp
  ultimately have "unat (oh_num_items oh) < ?N" by linarith
  then show ?thesis
    using assms(1) used_slots_card [of ?N "home ?N" raw "slots_of nb (oh_oram oh)"] by (intro has_empty_card) (simp add: ohtable_ok_def)
qed

lemma card_table_map: "finite (dom (table_map N T))" "card (dom (table_map N T)) \<le> N"
proof -
  have s: "dom (table_map N T) \<subseteq> (\<lambda>s. rec_key (T s)) ` {..<N}" by (auto simp: dom_def table_map_None not_None_eq [symmetric] simp del: not_None_eq)
  then show "finite (dom (table_map N T))" by (rule finite_subset) simp
  show "card (dom (table_map N T)) \<le> N"
    using card_mono [OF _ s] card_image_le [of "{..<N}" "\<lambda>s. rec_key (T s)"] by simp
qed

lemma offsets_le_write:
  assumes "offsets_le N H T0 d" "H (rec_key c) \<le> P" "P < H (rec_key c) + N" "H (rec_key c) < N"
  shows "offsets_le N H (T0(P mod N := c)) (max d (P - H (rec_key c)))"
  using assms unroll_mod [OF assms(4,2,3)] by (fastforce simp: offsets_le_def)

section \<open>Putting a record\<close>

definition put_args :: "ohtable \<Rightarrow> u64 list \<Rightarrow> robinhood_accessor_args" where
  "put_args oh r = (let loc = ohtable_hash oh (rec_key r); h = ohtable_hash_from_location oh loc in
     \<lparr>ra_record_size_qwords = oh_record_size_qwords oh, ra_start_index = loc_index loc, ra_insert_complete = False,
      ra_in_record = r, ra_curr_jump = 0, ra_curr_record_hash = h, ra_curr_slot_hash = h, ra_trace = 0, ra_inserted_new_item = False,
      ra_max_offset = 0, ra_ohtable_capacity = oh_capacity oh, ra_capacity_ct_m_prime = oh_capacity_ct_m_prime oh,
      ra_capacity_ct_shift1 = oh_capacity_ct_shift1 oh, ra_capacity_ct_shift2 = oh_capacity_ct_shift2 oh\<rparr>)"

lemma put_args_start:
  assumes "ohtable_ok pr nb oh" "\<not> is_full oh" "length r = 7" "rec_key r \<noteq> UINT64_MAX"
  shows "in_progress (24 * nb) (slots_of nb (oh_oram oh)) r (slots_of nb (oh_oram oh)) (put_args oh r) False (home (24 * nb) (rec_key r))"
proof -
  have "probe_inv (24 * nb) (home (24 * nb)) raw (slots_of nb (oh_oram oh))" using assms(1) by (simp add: ohtable_ok_def)
  from inserting_start [OF this not_full_room [OF assms(1,2)] assms(4)] show ?thesis
    using assms ohtable_hash_location(3) [OF assms(1)]
    by (simp add: in_progress_def put_args_def Let_def args_ok_def ohtable_ok_def)
qed

lemma ohtable_put_result:
  assumes ok: "ohtable_ok pr nb oh" and r: "length r = 7" "rec_key r \<noteq> UINT64_MAX" and full: "\<not> is_full oh"
  shows "\<exists>err oh' rnd'. ohtable_put pr oh r rnd = Some (err, oh', rnd') \<and>
    (if err = err_SUCCESS
     then ohtable_ok pr nb oh' \<and> oh_map nb oh' = (oh_map nb oh)(rec_key r \<mapsto> r) \<and>
       (covered nb oh \<and> oh_temp_record oh' = r \<longrightarrow> covered nb oh')
     else err = err_ORAM__STASH_EXHAUSTION) \<and>
    (oram_room pr nb (oh_oram oh) \<longrightarrow> err = err_SUCCESS \<and> oram_room pr nb (oh_oram oh'))"
proof -
  let ?N = "24 * nb" and ?T = "slots_of nb (oh_oram oh)" and ?h = "home (24 * nb) (rec_key r)" and ?loc = "ohtable_hash oh (rec_key r)"
  have nb: "0 < nb" "nb \<le> 144115188075855872" and orm: "oram_ok pr nb (oh_oram oh)" "oh_num_blocks oh = of_nat nb"
    using ok by (simp_all add: ohtable_ok_def)
  note loc = ohtable_hash_location [OF ok, of "rec_key r"]
  have h: "?h < ?N" using nb by (intro home_lt) simp
  have pos: "?h mod ?N = 24 * unat (loc_block_id ?loc) + unat (ra_start_index (put_args oh r))"
    "unat (ra_start_index (put_args oh r)) < 24" "unat (loc_block_id ?loc) < nb"
    using h loc by (simp_all add: put_args_def Let_def less_mult_imp_div_less mult.commute)
  obtain err orm' a rnd' where l: "put_loop pr (of_nat nb) (oh_oram oh) (loc_block_id ?loc) (put_args oh r) rnd = Some (err, orm', a, rnd')"
      "if err = err_SUCCESS then oram_ok pr nb orm' \<and> completed ?N ?T r (slots_of nb orm') a else err = err_ORAM__STASH_EXHAUSTION"
      "oram_room pr nb (oh_oram oh) \<longrightarrow> err = err_SUCCESS \<and> oram_room pr nb orm'"
    using put_loop_result [OF orm(1) put_args_start [OF ok full r] pos, of rnd] nb(2) by fastforce
  have put: "ohtable_put pr oh r rnd = (let oh' = oh\<lparr>oh_oram := orm', oh_temp_record := ra_in_record a\<rparr> in
      if err \<noteq> err_SUCCESS then Some (err, oh', rnd')
      else Some (err_SUCCESS,
        oh'\<lparr>oh_num_items := oh_num_items oh + U64_TERNARY (ra_inserted_new_item a) 1 0,
           oh_total_displacement := oh_total_displacement oh + ra_trace a,
           oh_max_trace_length := U64_TERNARY (ra_trace a > oh_max_trace_length oh) (ra_trace a) (oh_max_trace_length oh),
           oh_max_offset := U64_TERNARY (ra_max_offset a > oh_max_offset oh) (ra_max_offset a) (oh_max_offset oh)\<rparr>, rnd'))"
    using l(1) full r ok orm(2) by (simp add: ohtable_put_def put_args_def Let_def ohtable_ok_def)
  show ?thesis
  proof (cases "err = err_SUCCESS")
    case False
    then show ?thesis unfolding put using l(2,3) by (simp add: Let_def)
  next
    case True
    then have c: "completed ?N ?T r (slots_of nb orm') a" and oo: "oram_ok pr nb orm'" using l(2) by simp_all
    let ?mo = "U64_TERNARY (ra_max_offset a > oh_max_offset oh) (ra_max_offset a) (oh_max_offset oh)"
    have mo: "unat ?mo = max (unat (oh_max_offset oh)) (unat (ra_max_offset a))"
      by (simp add: ct_simps max_def word_less_nat_alt)
    have items: "unat (oh_num_items oh + U64_TERNARY (ra_inserted_new_item a) 1 0) = card (dom (table_map ?N (slots_of nb orm')))"
    proof -
      have m: "table_map ?N (slots_of nb orm') = (table_map ?N ?T)(rec_key r \<mapsto> r)"
        and new: "ra_inserted_new_item a \<longleftrightarrow> rec_key r \<notin> dom (table_map ?N ?T)" using c by (auto simp: completed_def)
      have n: "unat (oh_num_items oh) = card (dom (table_map ?N ?T))" using ok by (simp add: ohtable_ok_def)
      have "unat (oh_num_items oh + U64_TERNARY (ra_inserted_new_item a) 1 0) = card (dom (table_map ?N ?T)) + of_bool (ra_inserted_new_item a)"
        using n nb(2) card_table_map(2) [of ?N ?T] by (subst unat_add_64) (auto simp: ct_simps)
      then show ?thesis using card_table_map(1) [of ?N ?T] by (simp add: m new insert_absorb)
    qed
    have cov: "offsets_le ?N (home ?N) (slots_of nb orm') (unat ?mo)" if cv: "covered nb oh" and same: "ra_in_record a = r"
    proof -
      obtain P where P: "?h \<le> P" "P < ?h + ?N" "slots_of nb orm' = ?T(P mod ?N := r)" "ra_max_offset a = of_nat (P - ?h)"
        using c same unfolding completed_def by blast
      have "unat (ra_max_offset a) = P - ?h" unfolding P(4) using P(2) nb(2) by (intro unat_of_nat_64) linarith
      then show ?thesis unfolding mo P(3) using offsets_le_write [OF cv [unfolded covered_def] P(1,2) h] by simp
    qed
    show ?thesis unfolding put using True l(3) c oo ok items cov mo
      by (simp add: Let_def ohtable_ok_def oh_map_def covered_def completed_def)
  qed
qed

section \<open>Getting a record\<close>

definition hit :: "u64 \<Rightarrow> u64 list \<Rightarrow> bool" where
  "hit k r \<longleftrightarrow> rec_key r = UINT64_MAX \<or> rec_key r = k"

definition take_hit :: "get_record_accessor_args \<Rightarrow> u64 list option \<Rightarrow> get_record_accessor_args" where
  "take_hit a found = (if ga_search_complete a then a
     else case found of None \<Rightarrow> a | Some r \<Rightarrow> a\<lparr>ga_out_record := r, ga_search_complete := True\<rparr>)"

lemma get_record_slot_eq:
  assumes "length d = 168" "i < 24" "length (ga_out_record a) = 7"
  shows "get_record_slot d i a = take_hit a (if ga_start_index a \<le> of_nat i \<and> hit (ga_key a) (record_at d i) then Some (record_at d i) else None)"
  using assms by (cases a) (auto simp: get_record_slot_def take_hit_def Let_def record_empty_or_matches_def hit_def cond_copy_record_if)

lemma take_hit_simps [simp]:
  "ga_start_index (take_hit a f) = ga_start_index a" "ga_key (take_hit a f) = ga_key a"
  "take_hit a None = a" "take_hit (take_hit a (Some r)) f = take_hit a (Some r)" "take_hit (take_hit a None) f = take_hit a f"
  by (simp_all add: take_hit_def split: option.split)

lemma find_append: "find p (xs @ ys) = (case find p xs of None \<Rightarrow> find p ys | Some x \<Rightarrow> Some x)"
  by (induction xs) simp_all

lemma fold_get_record:
  assumes "length d = 168" "length (ga_out_record a) = 7" "set is \<subseteq> {..<24}"
  shows "fold (get_record_slot d) is a =
    take_hit a (find (hit (ga_key a)) (map (record_at d) (filter (\<lambda>i. ga_start_index a \<le> of_nat i) is)))"
  using assms(2,3)
proof (induction "is" arbitrary: a)
  case (Cons i "is")
  let ?f = "if ga_start_index a \<le> of_nat i \<and> hit (ga_key a) (record_at d i) then Some (record_at d i) else None"
  have i: "i < 24" using Cons.prems by simp
  have "length (ga_out_record (take_hit a ?f)) = 7" using Cons.prems(1) i assms(1) by (simp add: take_hit_def)
  then show ?case
    using Cons.IH [of "take_hit a ?f"] Cons.prems get_record_slot_eq [OF assms(1) i Cons.prems(1)] by simp
qed simp

lemma get_record_block:
  assumes "length d = 168" "length (ga_out_record a) = 7" "unat (ga_start_index a) \<le> 24"
  shows "get_record a d = (d, take_hit a (find (hit (ga_key a)) (map (record_at d) [unat (ga_start_index a)..<24])))"
proof -
  have "filter (\<lambda>i. ga_start_index a \<le> of_nat i) [0..<24] = filter (\<lambda>i. unat (ga_start_index a) \<le> i) [0..<24]"
    by (rule filter_cong) (auto simp: word_le_nat_alt unat_of_nat_64)
  also have "\<dots> = [unat (ga_start_index a)..<24]"
  proof -
    have "[0..<24] = [0..<unat (ga_start_index a)] @ [unat (ga_start_index a)..<24]"
      using assms(3) upt_add_eq_append [of 0 "unat (ga_start_index a)" "24 - unat (ga_start_index a)"] by simp
    then show ?thesis by (simp add: filter_empty_conv filter_id_conv)
  qed
  finally show ?thesis
    using fold_get_record [OF assms(1,2), of "[0..<24]"] by (simp add: get_record_def atLeast0LessThan)
qed

text \<open>The slots of a block are consecutive positions of the probe.\<close>

lemma block_positions:
  assumes "P mod (24 * nb) = 24 * b + i" "i \<le> 24" "b < nb" "i < 24"
  shows "map (record_at (oram_content (o_state orm) (of_nat b))) [i..<24] = map (\<lambda>j. slots_of nb orm (j mod (24 * nb))) [P..<P + (24 - i)]"
proof (rule nth_equalityI)
  fix j assume "j < length (map (record_at (oram_content (o_state orm) (of_nat b))) [i..<24])"
  then have j: "i + j < 24" by simp
  have "(P + j) mod (24 * nb) = (24 * b + (i + j)) mod (24 * nb)" using mod_add_left_eq [of P "24 * nb" j] assms(1) by (simp add: add.assoc)
  also have "\<dots> = 24 * b + (i + j)" using j assms(3) by (intro mod_less) linarith
  finally have "slots_of nb orm ((P + j) mod (24 * nb)) = record_at (oram_content (o_state orm) (of_nat b)) (i + j)"
    using j assms(3) by (simp add: slots_of_def)
  moreover have "[P..<P + (24 - i)] ! j = P + j" using j by (intro nth_upt) linarith
  ultimately show "map (record_at (oram_content (o_state orm) (of_nat b))) [i..<24] ! j = map (\<lambda>j. slots_of nb orm (j mod (24 * nb))) [P..<P + (24 - i)] ! j"
    using j by simp
qed simp

lemma get_loop_result:
  assumes "oram_ok pr nb orm" "length (ga_out_record a) = 7"
    and "P mod (24 * nb) = 24 * unat b + unat (ga_start_index a)" "unat (ga_start_index a) < 24" "unat b < nb" "nb < 18446744073709551616"
    and "blank_slots (24 * nb) (slots_of nb orm)"
  shows "\<exists>err orm' a' rnd'. get_loop n pr (of_nat nb) orm b a rnd = Some (err, orm', a', rnd') \<and>
    (if err = err_SUCCESS then oram_ok pr nb orm' \<and> slots_of nb orm' = slots_of nb orm \<and>
       ga_out_record a' = ga_out_record (take_hit a (find (hit (ga_key a))
         (map (\<lambda>j. slots_of nb orm (j mod (24 * nb))) [P..<P + (24 * n - unat (ga_start_index a))])))
     else err = err_ORAM__STASH_EXHAUSTION) \<and>
    (oram_room pr nb orm \<longrightarrow> err = err_SUCCESS \<and> oram_room pr nb orm')"
  using assms
proof (induction n arbitrary: orm a P b rnd)
  case (Suc n)
  let ?N = "24 * nb" and ?i = "unat (ga_start_index a)" and ?d = "oram_content (o_state orm) b"
  let ?b = "U64_TERNARY (b + 1 = of_nat nb) 0 (b + 1)" and ?T = "slots_of nb orm"
  let ?f = "find (hit (ga_key a)) (map (\<lambda>j. ?T (j mod ?N)) [P..<P + (24 - ?i)])"
  have d: "length ?d = 168" by (rule length_content [OF Suc.prems(1)])
  have g: "get_record a ?d = (?d, take_hit a ?f)"
    using get_record_block [OF d Suc.prems(2)] Suc.prems(4) block_positions [OF Suc.prems(3) _ Suc.prems(5,4), of orm] by simp
  have len: "length e = 168 \<Longrightarrow> length (fst (get_record a e)) = 168" for e by (simp add: get_record_def)
  obtain err out orm1 rnd1 where acc: "oram_function_access pr orm b (get_record a) rnd = Some (err, out, orm1, rnd1)"
      "if err = err_SUCCESS then oram_ok pr nb orm1 \<and> access_done nb b (get_record a) orm out orm1 else err = err_ORAM__STASH_EXHAUSTION"
      "oram_room pr nb orm \<longrightarrow> err = err_SUCCESS \<and> oram_room pr nb orm1"
    using oram_function_access_result [where f = "get_record a", OF Suc.prems(1,5), of rnd] len by blast
  show ?case
  proof (cases "err = err_SUCCESS")
    case False
    then show ?thesis using acc by (simp add: Let_def)
  next
    case True
    then have ok: "oram_ok pr nb orm1" and done': "access_done nb b (get_record a) orm out orm1" using acc(2) by simp_all
    have sl: "slots_of nb orm1 = ?T" "out = Some (take_hit a ?f)"
      using access_slots [OF done' Suc.prems(5,6)] g with_block_same [OF Suc.prems(5), of orm] by simp_all
    let ?a = "(take_hit a ?f)\<lparr>ga_start_index := 0\<rparr>"
    have unf: "get_loop (Suc n) pr (of_nat nb) orm b a rnd = get_loop n pr (of_nat nb) orm1 ?b ?a rnd1"
      using acc(1) sl(2) True by simp
    note nb = next_block [OF Suc.prems(5,6,3,4)]
    have l7: "length (ga_out_record ?a) = 7"
      using Suc.prems(2,5,7) by (auto simp: take_hit_def find_Some_iff blank_slots_def split: option.split)
    obtain err' orm' a' rnd' where r: "get_loop n pr (of_nat nb) orm1 ?b ?a rnd1 = Some (err', orm', a', rnd')"
        "if err' = err_SUCCESS then oram_ok pr nb orm' \<and> slots_of nb orm' = slots_of nb orm1 \<and>
           ga_out_record a' = ga_out_record (take_hit ?a (find (hit (ga_key a)) (map (\<lambda>j. ?T (j mod ?N)) [P + (24 - ?i)..<P + (24 - ?i) + 24 * n])))
         else err' = err_ORAM__STASH_EXHAUSTION"
        "oram_room pr nb orm1 \<longrightarrow> err' = err_SUCCESS \<and> oram_room pr nb orm'"
      using Suc.IH [OF ok l7 _ _ nb(1) Suc.prems(6), of "P + (24 - ?i)" rnd1] nb(2) sl(1) Suc.prems(7) by auto
    have "[P..<P + (24 * Suc n - ?i)] = [P..<P + (24 - ?i)] @ [P + (24 - ?i)..<P + (24 - ?i) + 24 * n]"
      using upt_add_eq_append [of P "P + (24 - ?i)" "24 * n"] Suc.prems(4) by (simp add: algebra_simps)
    then have "ga_out_record (take_hit a (find (hit (ga_key a)) (map (\<lambda>j. ?T (j mod ?N)) [P..<P + (24 * Suc n - ?i)]))) =
        ga_out_record (take_hit ?a (find (hit (ga_key a)) (map (\<lambda>j. ?T (j mod ?N)) [P + (24 - ?i)..<P + (24 - ?i) + 24 * n])))"
      by (simp add: find_append take_hit_def split: option.split)
    then show ?thesis unfolding unf using r sl(1) acc(3) by auto
  qed
qed (simp add: take_hit_def)

text \<open>The slots that \<open>ohtable_get\<close> looks at.\<close>

definition scan_length :: "nat \<Rightarrow> ohtable \<Rightarrow> u64 \<Rightarrow> nat" where
  "scan_length nb oh k = 24 * (1 + (unat (oh_max_offset oh) + 23) div 24) - home (24 * nb) k mod 24"

lemma scan_length_gt: "unat (oh_max_offset oh) < scan_length nb oh k"
proof -
  define q m where "q = (unat (oh_max_offset oh) + 23) div 24" and "m = home (24 * nb) k mod 24"
  have "unat (oh_max_offset oh) \<le> 24 * q" unfolding q_def by linarith
  moreover have "m < 24" by (simp add: m_def)
  ultimately show ?thesis unfolding scan_length_def q_def [symmetric] m_def [symmetric] less_diff_conv by simp
qed

lemma blocks_to_scan:
  assumes "ohtable_ok pr nb oh"
  shows "unat (1 + (oh_max_offset oh + oh_items_per_block oh - 1) div oh_items_per_block oh) = 1 + (unat (oh_max_offset oh) + 23) div 24"
proof -
  have i: "oh_items_per_block oh = 24" and m: "unat (oh_max_offset oh) < 24 * nb" "nb \<le> 144115188075855872"
    using assms by (simp_all add: ohtable_ok_def)
  have e: "oh_max_offset oh + oh_items_per_block oh - 1 = oh_max_offset oh + 23" by (simp add: i)
  have "unat (oh_max_offset oh + 23) = unat (oh_max_offset oh) + 23" using m by (subst unat_add_64) simp_all
  then have d: "unat ((oh_max_offset oh + 23) div 24) = (unat (oh_max_offset oh) + 23) div 24" by (simp add: unat_div)
  have "(unat (oh_max_offset oh) + 23) div 24 < 18446744073709551615" using m by linarith
  then have "unat (1 + (oh_max_offset oh + 23) div 24) = unat (1 :: u64) + unat ((oh_max_offset oh + 23) div 24)"
    by (intro unat_add_64) (simp only: d, simp)
  then show ?thesis unfolding e unfolding i d by simp
qed

lemma ohtable_get_result:
  assumes ok: "ohtable_ok pr nb oh" and r: "length r = 7"
  shows "\<exists>err out oh' rnd'. ohtable_get pr oh k r rnd = Some (err, out, oh', rnd') \<and>
    (if err = err_SUCCESS
     then ohtable_ok pr nb oh' \<and> oh_map nb oh' = oh_map nb oh \<and> (covered nb oh' \<longleftrightarrow> covered nb oh) \<and>
       out = (case first_hit (24 * nb) (home (24 * nb)) (slots_of nb (oh_oram oh)) k (scan_length nb oh k) of None \<Rightarrow> r | Some x \<Rightarrow> x)
     else err = err_ORAM__STASH_EXHAUSTION) \<and>
    (oram_room pr nb (oh_oram oh) \<longrightarrow> err = err_SUCCESS \<and> oram_room pr nb (oh_oram oh'))"
proof -
  let ?N = "24 * nb" and ?T = "slots_of nb (oh_oram oh)" and ?h = "home (24 * nb) k" and ?loc = "ohtable_hash oh k"
  let ?a = "\<lparr>ga_record_size_qwords = 7, ga_start_index = loc_index ?loc, ga_search_complete = False, ga_out_record = r, ga_key = k\<rparr>"
  have nb: "0 < nb" "nb < 18446744073709551616" and orm: "oram_ok pr nb (oh_oram oh)" "oh_num_blocks oh = of_nat nb" "oh_record_size_qwords oh = 7"
    and blank: "blank_slots ?N ?T"
    using ok by (simp_all add: ohtable_ok_def)
  note loc = ohtable_hash_location [OF ok, of k]
  have h: "?h < ?N" using nb by (intro home_lt) simp
  have pos: "?h mod ?N = 24 * unat (loc_block_id ?loc) + unat (loc_index ?loc)" "unat (loc_index ?loc) < 24" "unat (loc_block_id ?loc) < nb"
    using h loc by (simp_all add: less_mult_imp_div_less mult.commute)
  obtain err orm' a' rnd' where l: "get_loop (1 + (unat (oh_max_offset oh) + 23) div 24) pr (of_nat nb) (oh_oram oh) (loc_block_id ?loc) ?a rnd = Some (err, orm', a', rnd')"
      "if err = err_SUCCESS then oram_ok pr nb orm' \<and> slots_of nb orm' = ?T \<and>
         ga_out_record a' = ga_out_record (take_hit ?a (find (hit k) (map (\<lambda>j. ?T (j mod ?N)) [?h..<?h + (24 * (1 + (unat (oh_max_offset oh) + 23) div 24) - unat (loc_index ?loc))])))
       else err = err_ORAM__STASH_EXHAUSTION"
      "oram_room pr nb (oh_oram oh) \<longrightarrow> err = err_SUCCESS \<and> oram_room pr nb orm'"
    using get_loop_result [OF orm(1), of ?a ?h "loc_block_id ?loc" "1 + (unat (oh_max_offset oh) + 23) div 24" rnd] r pos nb(2) blank by auto
  have "hit k = (\<lambda>r. rec_key r = UINT64_MAX \<or> rec_key r = k)" by (simp add: hit_def fun_eq_iff)
  then have fh: "find (hit k) (map (\<lambda>j. ?T (j mod ?N)) [?h..<?h + (24 * (1 + (unat (oh_max_offset oh) + 23) div 24) - unat (loc_index ?loc))]) =
      first_hit ?N (home ?N) ?T k (scan_length nb oh k)"
    by (simp add: first_hit_def scan_length_def loc(2))
  have get: "ohtable_get pr oh k r rnd = Some (err, ga_out_record a', oh\<lparr>oh_oram := orm'\<rparr>, rnd')"
    using l(1) r take_all [of r 7] by (simp add: ohtable_get_def Let_def orm blocks_to_scan [OF ok] del: get_loop.simps)
  show ?thesis unfolding get using l(2,3) fh ok
    by (auto simp: ohtable_ok_def oh_map_def covered_def take_hit_def split: option.split)
qed

text \<open>What a lookup gives.\<close>

lemma lookup_present:
  assumes "ohtable_ok pr nb oh" "covered nb oh" "oh_map nb oh k = Some x"
  shows "first_hit (24 * nb) (home (24 * nb)) (slots_of nb (oh_oram oh)) k (scan_length nb oh k) = Some x"
  using assms scan_length_gt [of oh nb k] unfolding ohtable_ok_def covered_def oh_map_def by (elim conjE) (rule first_hit_present)

lemma lookup_absent_eq:
  assumes "ohtable_ok pr nb oh" "oh_map nb oh k = None" "k \<noteq> UINT64_MAX"
  shows "first_hit (24 * nb) (home (24 * nb)) (slots_of nb (oh_oram oh)) k (scan_length nb oh k) =
    (if \<exists>i < scan_length nb oh k. rec_key (slots_of nb (oh_oram oh) ((home (24 * nb) k + i) mod (24 * nb))) = UINT64_MAX
     then Some (replicate 7 UINT64_MAX) else None)"
  using assms first_hit_absent [of "24 * nb" "slots_of nb (oh_oram oh)" k "home (24 * nb)" "scan_length nb oh k"]
  by (simp add: ohtable_ok_def oh_map_def)

section \<open>New and cleared tables\<close>

lemma blank_table:
  assumes "\<And>i. i \<noteq> UINT64_MAX \<Longrightarrow> oram_content (o_state orm) i = replicate 168 UINT64_MAX" "0 < nb" "nb \<le> 144115188075855872"
  shows "blank_slots (24 * nb) (slots_of nb orm)" "probe_inv (24 * nb) (home (24 * nb)) raw (slots_of nb orm)"
    "table_map (24 * nb) (slots_of nb orm) = Map.empty" "offsets_le (24 * nb) (home (24 * nb)) (slots_of nb orm) d"
proof -
  have s: "slots_of nb orm s = replicate 7 UINT64_MAX" if "s < 24 * nb" for s
  proof -
    have "s div 24 < nb" using that by (simp add: less_mult_imp_div_less mult.commute)
    then have "unat (of_nat (s div 24) :: u64) = s div 24" using assms(3) by (intro unat_of_nat_64) simp
    then have "(of_nat (s div 24) :: u64) \<noteq> UINT64_MAX" using \<open>s div 24 < nb\<close> assms(3) by (auto simp: word_unat_eq_iff unsigned_minus_1_eq_mask mask_eq_exp_minus_1)
    then show ?thesis using that assms(1) by (simp add: slots_of_def record_at_blank)
  qed
  show "blank_slots (24 * nb) (slots_of nb orm)" by (simp add: blank_slots_def s)
  show "probe_inv (24 * nb) (home (24 * nb)) raw (slots_of nb orm)" using assms(2) by (simp add: probe_inv_def s home_lt)
  show "table_map (24 * nb) (slots_of nb orm) = Map.empty" by (rule table_map_empty) (simp add: s)
  show "offsets_le (24 * nb) (home (24 * nb)) (slots_of nb orm) d" by (simp add: offsets_le_def s)
qed

lemma oh_create_result:
  assumes "oram_ok pr nb orm" "oram_capacity_blocks orm = of_nat nb" "0 < nb" "nb \<le> 144115188075855872"
    and "\<And>i. i \<noteq> UINT64_MAX \<Longrightarrow> oram_content (o_state orm) i = replicate 168 UINT64_MAX"
  shows "\<exists>oh. oh_create orm 7 = Some oh \<and> ohtable_ok pr nb oh \<and> oh_map nb oh = Map.empty \<and> covered nb oh \<and> oh_oram oh = orm"
proof -
  let ?N = "24 * nb"
  have u: "unat (of_nat ?N :: u64) = ?N" using assms(4) by (intro unat_of_nat_64) simp
  obtain m s1 s2 where p: "prep_ct_div (of_nat ?N) = Some (m, s1, s2)"
    using prep_ct_div_result [of "of_nat ?N"] assms(3,4) unfolding u by auto
  obtain m' s1' s2' where q: "prep_ct_div 24 = Some (m', s1', s2')" using prep_ct_div_result [of 24] by auto
  note b = blank_table [OF assms(5,3,4)]
  have c: "of_nat nb * (24 :: u64) = of_nat ?N" by simp
  show ?thesis unfolding oh_create_def Let_def assms(2) using p q b assms(1,3,4)
    by (simp add: c ohtable_ok_def oh_map_def covered_def del: of_nat_mult)
qed

lemma ohtable_clear_result:
  assumes "ohtable_ok pr nb oh"
  shows "ohtable_ok pr nb (ohtable_clear oh)" "oh_map nb (ohtable_clear oh) = Map.empty" "covered nb (ohtable_clear oh)"
proof -
  have "oram_ok pr nb (oh_oram oh)" "0 < nb" "nb \<le> 144115188075855872" using assms by (simp_all add: ohtable_ok_def)
  note c = oram_clear_result [OF this(1)] and b = blank_table [OF oram_clear_result(2) [OF this(1)] this(2,3)]
  show "ohtable_ok pr nb (ohtable_clear oh)" "oh_map nb (ohtable_clear oh) = Map.empty" "covered nb (ohtable_clear oh)"
    using assms b c(1) by (simp_all add: ohtable_ok_def ohtable_clear_def oh_map_def covered_def)
qed

lemma singleton_covered:
  assumes "ohtable_ok pr nb oh" "oh_map nb oh = [k \<mapsto> r]" shows "covered nb oh"
proof -
  have "probe_inv (24 * nb) (home (24 * nb)) raw (slots_of nb (oh_oram oh))" using assms(1) by (simp add: ohtable_ok_def)
  from offsets_le_card [OF this] show ?thesis using assms(2) by (fastforce simp: covered_def oh_map_def offsets_le_def)
qed

lemma oram_create_blank:
  assumes "0 < L" "L \<le> 62"
  shows "i \<noteq> UINT64_MAX \<Longrightarrow> oram_content (o_state (oram_create L n m)) i = replicate 168 UINT64_MAX"
    and "oram_capacity_blocks (oram_create L n m) = of_nat n"
  using oram_create_result(2) [OF assms, of 0] by (simp_all add: oram_capacity_blocks_def oram_create_def split: prod.split)

lemma oh_create_total:
  assumes "oram_capacity_blocks orm = of_nat nb" "0 < nb" "nb \<le> 144115188075855872"
  shows "\<exists>oh. oh_create orm 7 = Some oh"
proof -
  have u: "unat (of_nat (24 * nb) :: u64) = 24 * nb" using assms(3) by (intro unat_of_nat_64) simp
  obtain m s1 s2 where "prep_ct_div (of_nat (24 * nb)) = Some (m, s1, s2)"
    using prep_ct_div_result [of "of_nat (24 * nb)"] assms(2,3) unfolding u by auto
  moreover obtain m' s1' s2' where "prep_ct_div 24 = Some (m', s1', s2')" using prep_ct_div_result [of 24] by auto
  moreover have "of_nat nb * (24 :: u64) = of_nat (24 * nb)" by simp
  ultimately show ?thesis by (simp add: oh_create_def Let_def assms(1) del: of_nat_mult)
qed

lemma ohtable_create_result:
  assumes "if test_or_staging then PATH_LENGTH pr = 16 \<and> PATH_LENGTH_0 pr = 9 \<and> POSITION_MAP_SIZE_0 pr = 159
           else PATH_LENGTH pr = 20 \<and> PATH_LENGTH_0 pr = 13 \<and> POSITION_MAP_SIZE_0 pr = 2536"
  defines "nb \<equiv> if test_or_staging then 53248 else 851968 :: nat"
  shows "\<exists>errs oh ent' rnd'. ohtable_create test_or_staging pr 7 ent rnd = Some (errs, oh, ent', rnd') \<and>
    ((\<forall>e \<in> set errs. e = err_SUCCESS) \<longrightarrow> ohtable_ok pr nb oh \<and> oh_map nb oh = Map.empty \<and> covered nb oh)"
proof -
  obtain errs orm ent' rnd' where c: "(if test_or_staging then oram_create_depth16 pr ent rnd else oram_create_120G_16shards pr ent rnd) = Some (errs, orm, ent', rnd')"
      "(\<forall>e \<in> set errs. e = err_SUCCESS) \<longrightarrow> oram_ok pr nb orm"
    using oram_create_depth16_result [of pr ent rnd] oram_create_120G_16shards_result [of pr ent rnd] assms(1)
    unfolding nb_def by (cases test_or_staging) (simp only: if_True if_False, blast)+
  then obtain m where m: "orm = oram_create (if test_or_staging then 16 else 20) nb m"
    by (cases test_or_staging) (auto simp: oram_create_depth16_def oram_create_120G_16shards_def nb_def)
  have b: "i \<noteq> UINT64_MAX \<Longrightarrow> oram_content (o_state orm) i = replicate 168 UINT64_MAX" "oram_capacity_blocks orm = of_nat nb" for i
    unfolding m by (rule oram_create_blank; simp)+
  have nb: "0 < nb" "nb \<le> 144115188075855872" by (simp_all add: nb_def)
  have "\<exists>oh. oh_create orm 7 = Some oh \<and> ((\<forall>e \<in> set errs. e = err_SUCCESS) \<longrightarrow> ohtable_ok pr nb oh \<and> oh_map nb oh = Map.empty \<and> covered nb oh)"
  proof (cases "\<forall>e \<in> set errs. e = err_SUCCESS")
    case True
    then show ?thesis using oh_create_result [OF _ b(2) nb b(1)] c(2) by blast
  next
    case False
    then show ?thesis using oh_create_total [OF b(2) nb] by blast
  qed
  then show ?thesis using c(1) by (auto simp: ohtable_create_def)
qed


end
