(* ===== verification/OHTableDemo.thy ===== *)
theory OHTableDemo
  imports OHTableMap OramDemo
begin

text \<open>
  A hash table over the smallest ORAM, empty and with one record: the concrete instance of the theorems on
  hash tables.
\<close>

definition demo_ohtable :: ohtable where
  "demo_ohtable = the (oh_create demo_oram 7)"

text \<open>The arguments of an insertion that carries a record five slots from home.\<close>

definition demo_args :: robinhood_accessor_args where
  "demo_args = \<lparr>ra_record_size_qwords = 7, ra_start_index = 0, ra_insert_complete = False, ra_in_record = replicate 7 66,
     ra_curr_jump = 5, ra_curr_record_hash = 18, ra_curr_slot_hash = 23, ra_trace = 0, ra_inserted_new_item = True, ra_max_offset = 9,
     ra_ohtable_capacity = 48, ra_capacity_ct_m_prime = 6148914691236517206, ra_capacity_ct_shift1 = 1, ra_capacity_ct_shift2 = 5\<rparr>"

lemma demo_ohtable:
  "ohtable_ok demo_params 2 demo_ohtable" "oh_map 2 demo_ohtable = Map.empty" "covered 2 demo_ohtable" "oh_oram demo_ohtable = demo_oram"
proof -
  have "oram_capacity_blocks demo_oram = of_nat 2" by (simp add: oram_capacity_blocks_def demo_oram_def oram_create_def split: prod.split)
  then obtain oh where "oh_create demo_oram 7 = Some oh" "ohtable_ok demo_params 2 oh" "oh_map 2 oh = Map.empty" "covered 2 oh" "oh_oram oh = demo_oram"
    using oh_create_result [OF demo_oram_ok _ _ _ demo_content] by auto
  then show "ohtable_ok demo_params 2 demo_ohtable" "oh_map 2 demo_ohtable = Map.empty" "covered 2 demo_ohtable" "oh_oram demo_ohtable = demo_oram"
    by (simp_all add: demo_ohtable_def)
qed

lemma demo_not_full: "\<not> is_full demo_ohtable"
  using demo_ohtable(1,2) by (simp add: is_full_def ohtable_ok_def oh_map_def)

text \<open>A table with one record.\<close>

lemma demo_singleton:
  "\<exists>oh. ohtable_ok demo_params 2 oh \<and> oh_map 2 oh = [1 \<mapsto> replicate 7 1] \<and> covered 2 oh \<and> oram_room demo_params 2 (oh_oram oh)"
proof -
  obtain err oh' rnd' where "ohtable_put demo_params demo_ohtable (replicate 7 1) (sconst 0) = Some (err, oh', rnd')"
      "if err = err_SUCCESS then ohtable_ok demo_params 2 oh' \<and> oh_map 2 oh' = (oh_map 2 demo_ohtable)(rec_key (replicate 7 1) \<mapsto> replicate 7 1) \<and>
         (covered 2 demo_ohtable \<and> oh_temp_record oh' = replicate 7 1 \<longrightarrow> covered 2 oh') else err = err_ORAM__STASH_EXHAUSTION"
      "oram_room demo_params 2 (oh_oram demo_ohtable) \<longrightarrow> err = err_SUCCESS \<and> oram_room demo_params 2 (oh_oram oh')"
    using ohtable_put_result [OF demo_ohtable(1) _ _ demo_not_full, of "replicate 7 1" "sconst 0"] by auto
  then show ?thesis using demo_oram_room demo_ohtable(2,4) singleton_covered [of demo_params 2 oh' 1 "replicate 7 1"] by auto
qed


end
