(* ===== verification/Shard.thy ===== *)
theory Shard
  imports Queue OHTableMap "HOL-Library.Monad_Syntax"
begin

text \<open>
  One shard of the table and its worker (\<^verbatim>\<open>sharded_ohtable/shard.c\<close>, \<^verbatim>\<open>sharded_ohtable/shard.jinc\<close>): a hash table, a
  queue of requests, and the thread that serves them. Requests live in a memory of their own and the queue holds their
  addresses, as the client keeps the pointer to read the result. A waiter is a flag of its request.

  The operations that a worker performs on one request are functions; \<open>shard_step\<close> interleaves any number of threads that
  run the shard, stop it, wait for it or submit requests, one atomic operation at a time.

  Theory \<^verbatim>\<open>ShardBatch\<close> shows that a batch of insertions or queries does what the table promises. Theory \<^verbatim>\<open>ShardWorker\<close>
  shows that a shard has at most one worker, that the \<open>CHECK\<close>s on the queue, on the next request and on the state of the
  worker never fail, and that a thread that waits for a request is not forgotten. A batch that exceeds its buffer is undefined
  in C; its worker takes no further step.
\<close>

section \<open>Definitions\<close>

datatype sharded_ohtable_request_type =
    shard_request_unknown
  | shard_request_insert
  | shard_request_query
  | shard_request_stop
  | shard_request_clear
  | shard_request_wait

text \<open>\<open>rq_wait\<close> is the flag of the waiter, if there is one.\<close>

record sharded_ohtable_request =
  rq_type :: sharded_ohtable_request_type
  rq_records :: "u64 list option"
  rq_err :: error_t
  rq_wait :: "bool option"
  rq_batch_size :: nat

datatype shard_worker_state = SHARD_WORKER_IDLE | SHARD_WORKER_RUNNING | SHARD_WORKER_STOPPING

record shard =
  sh_lb :: u64
  sh_ub :: u64
  sh_record_size_qwords :: size_t
  sh_keep_alive :: bool
  sh_table :: ohtable
  sh_requests :: "nat queue"
  sh_running :: shard_worker_state

definition shard_request_error :: "sharded_ohtable_request \<Rightarrow> error_t" where
  "shard_request_error r = rq_err r"

definition shard_request_records :: "sharded_ohtable_request \<Rightarrow> u64 list option" where
  "shard_request_records r = rq_records r"

text \<open>The error of the insertion is ignored.\<close>

definition shard_add_zero_record :: "build_params \<Rightarrow> shard \<Rightarrow> randombytes \<Rightarrow> (shard \<times> randombytes) option" where
  "shard_add_zero_record pr shard rnd = do {
     (_, table, rnd) \<leftarrow> ohtable_put pr (sh_table shard) (replicate (unat (sh_record_size_qwords shard)) 0) rnd;
     Some (shard\<lparr>sh_table := table\<rparr>, rnd)
   }"

definition shard_init :: "build_params \<Rightarrow> ohtable \<Rightarrow> u64 \<Rightarrow> u64 \<Rightarrow> size_t \<Rightarrow> randombytes \<Rightarrow> (shard \<times> randombytes) option" where
  "shard_init pr table lb ub record_size_qwords rnd =
     shard_add_zero_record pr \<lparr>sh_lb = lb, sh_ub = ub, sh_record_size_qwords = record_size_qwords, sh_keep_alive = False,
       sh_table = table, sh_requests = queue_create, sh_running = SHARD_WORKER_IDLE\<rparr> rnd"

text \<open>The errors of the writes that fill the position map are returned as well; the code ignores them.\<close>

definition shard_create ::
    "bool \<Rightarrow> build_params \<Rightarrow> u64 \<Rightarrow> u64 \<Rightarrow> size_t \<Rightarrow> entropy \<Rightarrow> randombytes \<Rightarrow> (error_t list \<times> shard \<times> entropy \<times> randombytes) option" where
  "shard_create test_or_staging pr lb ub record_size_qwords getentropy rnd = do {
     (errs, table, getentropy, rnd) \<leftarrow> ohtable_create test_or_staging pr record_size_qwords getentropy rnd;
     (shard, rnd) \<leftarrow> shard_init pr table lb ub record_size_qwords rnd;
     (shard, rnd) \<leftarrow> shard_add_zero_record pr shard rnd;
     Some (errs, shard, getentropy, rnd)
   }"

definition shard_waiter_create :: bool where
  "shard_waiter_create = False"

definition shard_request_create ::
    "sharded_ohtable_request_type \<Rightarrow> u64 list option \<Rightarrow> bool option \<Rightarrow> nat \<Rightarrow> sharded_ohtable_request" where
  "shard_request_create type records w batch_size =
     \<lparr>rq_type = type, rq_records = records, rq_err = err_SUCCESS, rq_wait = w, rq_batch_size = batch_size\<rparr>"

definition shard_waiter_finish :: "sharded_ohtable_request \<Rightarrow> sharded_ohtable_request" where
  "shard_waiter_finish req = req\<lparr>rq_wait := Some True\<rparr>"

definition shard_report_ohtable_statisitics :: "shard \<Rightarrow> ohtable_statistics \<times> shard" where
  "shard_report_ohtable_statisitics shard =
     (let (st, table) = ohtable_statistics_create (sh_table shard) in (st, shard\<lparr>sh_table := table\<rparr>))"

definition shard_do_clear :: "build_params \<Rightarrow> shard \<Rightarrow> randombytes \<Rightarrow> (shard \<times> randombytes) option" where
  "shard_do_clear pr shard rnd = shard_add_zero_record pr (shard\<lparr>sh_table := ohtable_clear (sh_table shard)\<rparr>) rnd"

definition shard_lb :: "shard \<Rightarrow> u64" where
  "shard_lb shard = sh_lb shard"

definition shard_ub :: "shard \<Rightarrow> u64" where
  "shard_ub shard = sh_ub shard"

definition shard_contains :: "shard \<Rightarrow> u64 \<Rightarrow> bool" where
  "shard_contains shard key \<longleftrightarrow> sh_lb shard \<le> key \<and> key < sh_ub shard"

text \<open>The Jasmin code works with the words 0 and 1.\<close>

definition j_contains :: "shard \<Rightarrow> u64 \<Rightarrow> u8" where
  "j_contains shard key = (if sh_lb shard \<le> key then 1 else 0) AND (if key < sh_ub shard then 1 else 0)"

subsection \<open>One request\<close>

text \<open>The records of a batch lie one behind the other. The loops take the operation of the table as a parameter.\<close>

definition batch_record :: "nat \<Rightarrow> u64 list \<Rightarrow> nat \<Rightarrow> u64 list" where
  "batch_record n records i = take n (drop (n * i) records)"

definition set_batch_record :: "nat \<Rightarrow> u64 list \<Rightarrow> nat \<Rightarrow> u64 list \<Rightarrow> u64 list" where
  "set_batch_record n records i r = take (n * i) records @ r @ drop (n * i + n) records"

fun insert_batch ::
    "('t \<Rightarrow> u64 list \<Rightarrow> 'r \<Rightarrow> (error_t \<times> 't \<times> 'r) option) \<Rightarrow> nat \<Rightarrow> u64 list \<Rightarrow> nat list \<Rightarrow> error_t \<Rightarrow> 't \<Rightarrow> 'r
      \<Rightarrow> (error_t \<times> 't \<times> 'r) option" where
  "insert_batch put n records [] err table rnd = Some (err, table, rnd)"
| "insert_batch put n records (i # rest) err table rnd =
     (if length records < n * i + n then None
      else do {
        (err, table, rnd) \<leftarrow> put table (batch_record n records i) rnd;
        (if err \<noteq> err_SUCCESS then Some (err, table, rnd) else insert_batch put n records rest err table rnd)
      })"

fun query_batch ::
    "('t \<Rightarrow> u64 \<Rightarrow> u64 list \<Rightarrow> 'r \<Rightarrow> (error_t \<times> u64 list \<times> 't \<times> 'r) option) \<Rightarrow> nat \<Rightarrow> nat list \<Rightarrow> error_t \<Rightarrow> u64 list \<Rightarrow> 't \<Rightarrow> 'r
      \<Rightarrow> (error_t \<times> u64 list \<times> 't \<times> 'r) option" where
  "query_batch get n [] err records table rnd = Some (err, records, table, rnd)"
| "query_batch get n (i # rest) err records table rnd =
     (if length records < n * i + n \<or> n = 0 then None
      else do {
        (err, r, table, rnd) \<leftarrow> get table (records ! (n * i)) (batch_record n records i) rnd;
        (if err \<noteq> err_SUCCESS then Some (err, set_batch_record n records i r, table, rnd)
         else query_batch get n rest err (set_batch_record n records i r) table rnd)
      })"

definition shard_handle_request ::
    "build_params \<Rightarrow> shard \<Rightarrow> sharded_ohtable_request \<Rightarrow> randombytes \<Rightarrow> (shard \<times> sharded_ohtable_request \<times> randombytes) option" where
  "shard_handle_request pr shard req rnd = do {
     (shard, req, rnd) \<leftarrow>
       (case rq_type req of
          shard_request_insert \<Rightarrow> do {
            records \<leftarrow> rq_records req;
            (err, table, rnd) \<leftarrow> insert_batch (ohtable_put pr) (unat (sh_record_size_qwords shard)) records [0..<rq_batch_size req]
              (rq_err req) (sh_table shard) rnd;
            Some (shard\<lparr>sh_table := table\<rparr>, req\<lparr>rq_err := err\<rparr>, rnd)
          }
        | shard_request_query \<Rightarrow> do {
            records \<leftarrow> rq_records req;
            (err, records, table, rnd) \<leftarrow> query_batch (ohtable_get pr) (unat (sh_record_size_qwords shard)) [0..<rq_batch_size req]
              (rq_err req) records (sh_table shard) rnd;
            Some (shard\<lparr>sh_table := table\<rparr>, req\<lparr>rq_err := err, rq_records := Some records\<rparr>, rnd)
          }
        | shard_request_stop \<Rightarrow> Some (shard\<lparr>sh_keep_alive := False\<rparr>, req, rnd)
        | shard_request_clear \<Rightarrow> do {
            (shard, rnd) \<leftarrow> shard_do_clear pr shard rnd;
            Some (shard, req, rnd)
          }
        | shard_request_wait \<Rightarrow> Some (shard, req, rnd)
        | shard_request_unknown \<Rightarrow> None);
     Some (shard, if rq_wait req \<noteq> None then shard_waiter_finish req else req, rnd)
   }"

subsection \<open>Threads\<close>

definition shard_next_request :: "shard \<Rightarrow> (nat queue, nat option) outcome" where
  "shard_next_request shard = queue_next_item (sh_requests shard) True"

definition shard_add_request :: "shard \<Rightarrow> nat \<Rightarrow> (nat queue, error_t) outcome" where
  "shard_add_request shard r = queue_add_item (sh_requests shard) (Some r)"

text \<open>Where a thread is in its call; the address is that of its request.\<close>

datatype shard_thread =
    Run_start
  | Run_loop
  | Run_next
  | Run_handle nat
  | Run_exit
  | Stop_add nat
  | Stop_wait nat
  | Wait_add nat
  | Wait_wait nat
  | Submit_add nat

record shard_system =
  ss_shard :: shard
  ss_memory :: "nat \<Rightarrow> sharded_ohtable_request option"
  ss_threads :: "nat \<Rightarrow> shard_thread option"
  ss_results :: "nat \<Rightarrow> error_t option"
  ss_random :: randombytes
  ss_failed :: bool

text \<open>Entering and leaving a call, and what it allocates and releases.\<close>

definition ss_goto :: "nat \<Rightarrow> shard_thread \<Rightarrow> shard_system \<Rightarrow> shard_system" where
  "ss_goto t pc s = s\<lparr>ss_threads := (ss_threads s)(t \<mapsto> pc)\<rparr>"

definition ss_return :: "nat \<Rightarrow> error_t \<Rightarrow> shard_system \<Rightarrow> shard_system" where
  "ss_return t err s = s\<lparr>ss_threads := (ss_threads s)(t := None), ss_results := (ss_results s)(t \<mapsto> err)\<rparr>"

definition ss_running :: "shard_worker_state \<Rightarrow> shard_system \<Rightarrow> shard_system" where
  "ss_running w s = s\<lparr>ss_shard := (ss_shard s)\<lparr>sh_running := w\<rparr>\<rparr>"

definition ss_allocate :: "nat \<Rightarrow> sharded_ohtable_request \<Rightarrow> shard_system \<Rightarrow> shard_system" where
  "ss_allocate r req s = s\<lparr>ss_memory := (ss_memory s)(r \<mapsto> req)\<rparr>"

definition ss_release :: "nat \<Rightarrow> shard_system \<Rightarrow> shard_system" where
  "ss_release r s = s\<lparr>ss_memory := (ss_memory s)(r := None)\<rparr>"

definition ss_queue :: "nat queue \<Rightarrow> shard_system \<Rightarrow> shard_system" where
  "ss_queue q s = s\<lparr>ss_shard := (ss_shard s)\<lparr>sh_requests := q\<rparr>\<rparr>"

inductive run_step :: "build_params \<Rightarrow> shard_system \<Rightarrow> shard_system \<Rightarrow> bool" for pr where
  claim: "ss_threads s t = None \<Longrightarrow> sh_running (ss_shard s) = SHARD_WORKER_IDLE \<Longrightarrow>
     run_step pr s (ss_goto t Run_start (ss_running SHARD_WORKER_RUNNING s))"
| refused: "ss_threads s t = None \<Longrightarrow> sh_running (ss_shard s) \<noteq> SHARD_WORKER_IDLE \<Longrightarrow>
     run_step pr s (ss_return t err_SHARD__ALREADY_RUNNING s)"
| start: "ss_threads s t = Some Run_start \<Longrightarrow>
     run_step pr s (ss_goto t Run_loop (s\<lparr>ss_shard := (ss_shard s)\<lparr>sh_keep_alive := True\<rparr>\<rparr>))"
| again: "ss_threads s t = Some Run_loop \<Longrightarrow> sh_keep_alive (ss_shard s) \<Longrightarrow> run_step pr s (ss_goto t Run_next s)"
| leave: "ss_threads s t = Some Run_loop \<Longrightarrow> \<not> sh_keep_alive (ss_shard s) \<Longrightarrow> run_step pr s (ss_goto t Run_exit s)"
| next_request: "ss_threads s t = Some Run_next \<Longrightarrow> shard_next_request (ss_shard s) = Returns q (Some r) cs \<Longrightarrow>
     run_step pr s (ss_goto t (Run_handle r) (ss_queue q s))"
| null: "ss_threads s t = Some Run_next \<Longrightarrow> shard_next_request (ss_shard s) = Returns q None cs \<Longrightarrow>
     run_step pr s (s\<lparr>ss_failed := True\<rparr>)"
| handle: "ss_threads s t = Some (Run_handle r) \<Longrightarrow> ss_memory s r = Some req \<Longrightarrow>
     shard_handle_request pr (ss_shard s) req (ss_random s) = Some (shard', req', rnd') \<Longrightarrow>
     run_step pr s (ss_goto t Run_loop (ss_allocate r req' (s\<lparr>ss_shard := shard', ss_random := rnd'\<rparr>)))"
| exit: "ss_threads s t = Some Run_exit \<Longrightarrow> sh_running (ss_shard s) = SHARD_WORKER_STOPPING \<Longrightarrow>
     run_step pr s (ss_return t err_SUCCESS (ss_running SHARD_WORKER_IDLE s))"
| check: "ss_threads s t = Some Run_exit \<Longrightarrow> sh_running (ss_shard s) \<noteq> SHARD_WORKER_STOPPING \<Longrightarrow>
     run_step pr s (s\<lparr>ss_failed := True\<rparr>)"

inductive stop_step :: "shard_system \<Rightarrow> shard_system \<Rightarrow> bool" where
  claim: "ss_threads s t = None \<Longrightarrow> sh_running (ss_shard s) = SHARD_WORKER_RUNNING \<Longrightarrow> ss_memory s r = None \<Longrightarrow>
     stop_step s (ss_goto t (Stop_add r) (ss_allocate r (shard_request_create shard_request_stop None (Some shard_waiter_create) 0)
       (ss_running SHARD_WORKER_STOPPING s)))"
| refused: "ss_threads s t = None \<Longrightarrow> sh_running (ss_shard s) \<noteq> SHARD_WORKER_RUNNING \<Longrightarrow>
     stop_step s (ss_return t err_SHARD__NOT_RUNNING s)"
| add: "ss_threads s t = Some (Stop_add r) \<Longrightarrow> shard_add_request (ss_shard s) r = Returns q err cs \<Longrightarrow>
     stop_step s (if err = err_SUCCESS then ss_goto t (Stop_wait r) (ss_queue q s) else s\<lparr>ss_failed := True\<rparr>)"
| finished: "ss_threads s t = Some (Stop_wait r) \<Longrightarrow> ss_memory s r = Some req \<Longrightarrow> rq_wait req = Some True \<Longrightarrow>
     stop_step s (ss_return t (rq_err req) (ss_release r s))"

inductive wait_step :: "shard_system \<Rightarrow> shard_system \<Rightarrow> bool" where
  call: "ss_threads s t = None \<Longrightarrow> ss_memory s r = None \<Longrightarrow>
     wait_step s (ss_goto t (Wait_add r) (ss_allocate r (shard_request_create shard_request_wait None (Some shard_waiter_create) 0) s))"
| add: "ss_threads s t = Some (Wait_add r) \<Longrightarrow> shard_add_request (ss_shard s) r = Returns q err cs \<Longrightarrow>
     wait_step s (if err = err_SUCCESS then ss_goto t (Wait_wait r) (ss_queue q s) else s\<lparr>ss_failed := True\<rparr>)"
| finished: "ss_threads s t = Some (Wait_wait r) \<Longrightarrow> ss_memory s r = Some req \<Longrightarrow> rq_wait req = Some True \<Longrightarrow>
     wait_step s (ss_return t err_SUCCESS (ss_release r s))"

text \<open>The requests of \<open>shard_insert\<close>, \<open>shard_query\<close> and \<open>shard_clear\<close>.\<close>

definition shard_insert :: "u64 list \<Rightarrow> nat \<Rightarrow> sharded_ohtable_request" where
  "shard_insert records num_records = shard_request_create shard_request_insert (Some records) None num_records"

definition shard_query :: "u64 list \<Rightarrow> nat \<Rightarrow> sharded_ohtable_request" where
  "shard_query records num_queries = shard_request_create shard_request_query (Some records) None num_queries"

definition shard_clear :: sharded_ohtable_request where
  "shard_clear = shard_request_create shard_request_clear None None 0"

inductive submit_step :: "shard_system \<Rightarrow> shard_system \<Rightarrow> bool" where
  call: "ss_threads s t = None \<Longrightarrow> ss_memory s r = None \<Longrightarrow>
     req = shard_insert records n \<or> req = shard_query records n \<or> req = shard_clear \<Longrightarrow>
     submit_step s (ss_goto t (Submit_add r) (ss_allocate r req s))"
| add: "ss_threads s t = Some (Submit_add r) \<Longrightarrow> shard_add_request (ss_shard s) r = Returns q err cs \<Longrightarrow>
     submit_step s (if err = err_SUCCESS then ss_return t err_SUCCESS (ss_queue q s) else s\<lparr>ss_failed := True\<rparr>)"

inductive shard_step :: "build_params \<Rightarrow> shard_system \<Rightarrow> shard_system \<Rightarrow> bool" for pr where
  run: "run_step pr s s' \<Longrightarrow> shard_step pr s s'"
| stop: "stop_step s s' \<Longrightarrow> shard_step pr s s'"
| wait: "wait_step s s' \<Longrightarrow> shard_step pr s s'"
| submit: "submit_step s s' \<Longrightarrow> shard_step pr s s'"

definition ss_start :: "shard \<Rightarrow> randombytes \<Rightarrow> shard_system" where
  "ss_start shard rnd = \<lparr>ss_shard = shard, ss_memory = (\<lambda>_. None), ss_threads = (\<lambda>_. None), ss_results = (\<lambda>_. None),
     ss_random = rnd, ss_failed = False\<rparr>"

inductive shard_reachable :: "build_params \<Rightarrow> shard \<Rightarrow> randombytes \<Rightarrow> shard_system \<Rightarrow> bool" for pr shard rnd where
  start: "shard_reachable pr shard rnd (ss_start shard rnd)"
| step: "shard_reachable pr shard rnd s \<Longrightarrow> shard_step pr s s' \<Longrightarrow> shard_reachable pr shard rnd s'"

subsection \<open>Destruction\<close>

text \<open>The requests that are left in the queue are marked and their waiters released.\<close>

function drain_requests ::
    "nat queue \<Rightarrow> (nat \<Rightarrow> sharded_ohtable_request option) \<Rightarrow> nat queue \<times> (nat \<Rightarrow> sharded_ohtable_request option)" where
  "drain_requests q mem =
     (case queue_next_item q False of
        Returns q' (Some r) cs \<Rightarrow>
          drain_requests q' (mem(r := map_option (\<lambda>req.
            let req = req\<lparr>rq_err := err_SHARD__DESTROYING\<rparr> in if rq_wait req \<noteq> None then shard_waiter_finish req else req) (mem r)))
      | _ \<Rightarrow> (q, mem))"
  by pat_completeness auto
termination
  by (relation "measure (\<lambda>(q, mem). q_num_items q)")
    (auto simp: queue_next_item_def next_item_loop_def Let_def split: if_splits)

definition shard_destroy ::
    "shard \<Rightarrow> (nat \<Rightarrow> sharded_ohtable_request option) \<Rightarrow> (nat \<Rightarrow> sharded_ohtable_request option)" where
  "shard_destroy shard mem = snd (drain_requests (queue_close (sh_requests shard)) mem)"

end
