(* ===== verification/ShardProtocol.thy ===== *)
theory ShardProtocol
  imports Shard
begin

text \<open>
  The synchronisation of a shard (\<^verbatim>\<open>sharded_ohtable/shard.c\<close>) without its data: the order of the queue, the state of
  the worker, where each thread is, and for each request whether it is a stop and whether its waiter was released.

  Proved: every step of the protocol keeps \<open>view_inv\<close>: a request under way has not been handled and is in one place, a
  request that a thread waits for is its own and was handled or is under way, there is at most one worker, and a stop that has
  not been handled has a worker that will find it.
\<close>

section \<open>The protocol\<close>

record shard_view =
  vw_queue :: "nat list"
  vw_state :: shard_worker_state
  vw_keep :: bool
  vw_request :: "nat \<Rightarrow> (bool \<times> bool option) option"
  vw_pc :: "nat \<Rightarrow> shard_thread option"

text \<open>Where a thread goes when the request it adds is in the queue.\<close>

fun after_add :: "shard_thread \<Rightarrow> (nat \<times> shard_thread option) option" where
  "after_add (Stop_add r) = Some (r, Some (Stop_wait r))"
| "after_add (Wait_add r) = Some (r, Some (Wait_wait r))"
| "after_add (Submit_add r) = Some (r, None)"
| "after_add _ = None"

inductive view_step :: "shard_view \<Rightarrow> shard_view \<Rightarrow> bool" where
  claim: "vw_pc v t = None \<Longrightarrow> vw_state v = SHARD_WORKER_IDLE \<Longrightarrow>
     view_step v (v\<lparr>vw_pc := (vw_pc v)(t \<mapsto> Run_start), vw_state := SHARD_WORKER_RUNNING\<rparr>)"
| start: "vw_pc v t = Some Run_start \<Longrightarrow> view_step v (v\<lparr>vw_pc := (vw_pc v)(t \<mapsto> Run_loop), vw_keep := True\<rparr>)"
| again: "vw_pc v t = Some Run_loop \<Longrightarrow> vw_keep v \<Longrightarrow> view_step v (v\<lparr>vw_pc := (vw_pc v)(t \<mapsto> Run_next)\<rparr>)"
| leave: "vw_pc v t = Some Run_loop \<Longrightarrow> \<not> vw_keep v \<Longrightarrow> view_step v (v\<lparr>vw_pc := (vw_pc v)(t \<mapsto> Run_exit)\<rparr>)"
| take: "vw_pc v t = Some Run_next \<Longrightarrow> vw_queue v = r # rs \<Longrightarrow>
     view_step v (v\<lparr>vw_pc := (vw_pc v)(t \<mapsto> Run_handle r), vw_queue := rs\<rparr>)"
| handle: "vw_pc v t = Some (Run_handle r) \<Longrightarrow> vw_request v r = Some (b, w) \<Longrightarrow>
     view_step v (v\<lparr>vw_pc := (vw_pc v)(t \<mapsto> Run_loop), vw_request := (vw_request v)(r \<mapsto> (b, map_option (\<lambda>_. True) w)),
       vw_keep := vw_keep v \<and> \<not> b\<rparr>)"
| exit: "vw_pc v t = Some Run_exit \<Longrightarrow> vw_state v = SHARD_WORKER_STOPPING \<Longrightarrow>
     view_step v (v\<lparr>vw_pc := (vw_pc v)(t := None), vw_state := SHARD_WORKER_IDLE\<rparr>)"
| stop: "vw_pc v t = None \<Longrightarrow> vw_state v = SHARD_WORKER_RUNNING \<Longrightarrow> vw_request v r = None \<Longrightarrow>
     view_step v (v\<lparr>vw_pc := (vw_pc v)(t \<mapsto> Stop_add r), vw_request := (vw_request v)(r \<mapsto> (True, Some False)),
       vw_state := SHARD_WORKER_STOPPING\<rparr>)"
| call: "vw_pc v t = None \<Longrightarrow> vw_request v r = None \<Longrightarrow> pc = Wait_add r \<and> w = Some False \<or> pc = Submit_add r \<and> w = None \<Longrightarrow>
     view_step v (v\<lparr>vw_pc := (vw_pc v)(t \<mapsto> pc), vw_request := (vw_request v)(r \<mapsto> (False, w))\<rparr>)"
| add: "vw_pc v t = Some pc \<Longrightarrow> after_add pc = Some (r, pc') \<Longrightarrow>
     view_step v (v\<lparr>vw_pc := (vw_pc v)(t := pc'), vw_queue := vw_queue v @ [r]\<rparr>)"
| finished: "vw_pc v t \<in> {Some (Stop_wait r), Some (Wait_wait r)} \<Longrightarrow> vw_request v r = Some (b, Some True) \<Longrightarrow>
     view_step v (v\<lparr>vw_pc := (vw_pc v)(t := None), vw_request := (vw_request v)(r := None)\<rparr>)"

section \<open>The invariant\<close>

text \<open>The request that a thread holds outside of the queue, and the one it waits for.\<close>

fun held :: "shard_thread option \<Rightarrow> nat option" where
  "held (Some (Run_handle r)) = Some r"
| "held (Some (Stop_add r)) = Some r"
| "held (Some (Wait_add r)) = Some r"
| "held (Some (Submit_add r)) = Some r"
| "held _ = None"

fun owned :: "shard_thread option \<Rightarrow> nat option" where
  "owned (Some (Stop_add r)) = Some r"
| "owned (Some (Wait_add r)) = Some r"
| "owned (Some (Stop_wait r)) = Some r"
| "owned (Some (Wait_wait r)) = Some r"
| "owned _ = None"

fun working :: "shard_thread option \<Rightarrow> bool" where
  "working (Some Run_start) = True"
| "working (Some Run_loop) = True"
| "working (Some Run_next) = True"
| "working (Some (Run_handle r)) = True"
| "working (Some Run_exit) = True"
| "working _ = False"

text \<open>A request under way has not been handled, and is in one place.\<close>

definition flight_part :: "shard_view \<Rightarrow> bool" where
  "flight_part v \<longleftrightarrow> distinct (vw_queue v)
     \<and> (\<forall>r. r \<in> set (vw_queue v) \<or> (\<exists>t. held (vw_pc v t) = Some r) \<longrightarrow>
          (\<exists>b w. vw_request v r = Some (b, w) \<and> w \<noteq> Some True \<and> (b \<longrightarrow> w \<noteq> None)))
     \<and> (\<forall>t r. held (vw_pc v t) = Some r \<longrightarrow> r \<notin> set (vw_queue v))
     \<and> (\<forall>t t' r. held (vw_pc v t) = Some r \<and> held (vw_pc v t') = Some r \<longrightarrow> t = t')"

text \<open>A request that a thread waits for is its own, and was handled or is under way.\<close>

definition under_way :: "shard_view \<Rightarrow> nat \<Rightarrow> bool" where
  "under_way v r \<longleftrightarrow> r \<in> set (vw_queue v) \<or> (\<exists>t. held (vw_pc v t) = Some r)"

definition awaited :: "shard_view \<Rightarrow> nat \<Rightarrow> nat \<Rightarrow> bool" where
  "awaited v t r \<longleftrightarrow> (\<exists>b. vw_request v r = Some (b, Some True)) \<and> held (vw_pc v t) = None
     \<or> (\<exists>b. vw_request v r = Some (b, Some False)) \<and> under_way v r"

definition waiting_part :: "shard_view \<Rightarrow> bool" where
  "waiting_part v \<longleftrightarrow> (\<forall>t r. owned (vw_pc v t) = Some r \<longrightarrow> awaited v t r)"

definition owner_part :: "shard_view \<Rightarrow> bool" where
  "owner_part v \<longleftrightarrow> (\<forall>t t' r. owned (vw_pc v t) = Some r \<and> owned (vw_pc v t') = Some r \<longrightarrow> t = t')"

definition submit_part :: "shard_view \<Rightarrow> bool" where
  "submit_part v \<longleftrightarrow> (\<forall>t r. vw_pc v t = Some (Submit_add r) \<longrightarrow> (\<exists>b. vw_request v r = Some (b, None)))"

definition worker_part :: "shard_view \<Rightarrow> bool" where
  "worker_part v \<longleftrightarrow> (\<forall>t t'. working (vw_pc v t) \<and> working (vw_pc v t') \<longrightarrow> t = t')
     \<and> (vw_state v = SHARD_WORKER_IDLE \<longleftrightarrow> (\<forall>t. \<not> working (vw_pc v t)))"

definition keep_part :: "shard_view \<Rightarrow> bool" where
  "keep_part v \<longleftrightarrow> (\<forall>t r. vw_pc v t = Some Run_next \<or> vw_pc v t = Some (Run_handle r) \<longrightarrow> vw_keep v)"

text \<open>A worker that leaves its loop at the next test or has left it, and a stop that has not been handled.\<close>

definition ending :: "shard_view \<Rightarrow> nat \<Rightarrow> bool" where
  "ending v t \<longleftrightarrow> vw_pc v t = Some Run_exit \<or> vw_pc v t = Some Run_loop \<and> \<not> vw_keep v"

definition open_stops :: "shard_view \<Rightarrow> nat set" where
  "open_stops v = {r. vw_request v r = Some (True, Some False)}"

definition stop_part :: "shard_view \<Rightarrow> bool" where
  "stop_part v \<longleftrightarrow>
     (if vw_state v = SHARD_WORKER_STOPPING \<and> \<not> (\<exists>t. ending v t) then \<exists>r. open_stops v = {r}
      else open_stops v = {} \<and> ((\<exists>t. ending v t) \<longrightarrow> vw_state v = SHARD_WORKER_STOPPING))"

definition view_inv :: "shard_view \<Rightarrow> bool" where
  "view_inv v \<longleftrightarrow> flight_part v \<and> waiting_part v \<and> owner_part v \<and> submit_part v \<and> worker_part v \<and> keep_part v \<and> stop_part v"

section \<open>The protocol keeps the invariant\<close>

lemma after_add_cases:
  assumes "after_add pc = Some (r, pc')"
  shows "pc = Stop_add r \<and> pc' = Some (Stop_wait r) \<or> pc = Wait_add r \<and> pc' = Some (Wait_wait r) \<or> pc = Submit_add r \<and> pc' = None"
  using assms by (cases pc) auto

lemma flight_add:
  assumes "flight_part v" "held (vw_pc v t) = Some r" "held pc = None"
  shows "flight_part (v\<lparr>vw_pc := (vw_pc v)(t := pc), vw_queue := vw_queue v @ [r]\<rparr>)"
  using assms unfolding flight_part_def by (auto split: if_splits)

lemma flight_stays:
  assumes "flight_part v" "held (vw_pc v t) = held pc" "vw_pc v' = (vw_pc v)(t := pc)" "vw_queue v' = vw_queue v" "vw_request v' = vw_request v"
  shows "flight_part v'"
proof -
  have "held (vw_pc v' u) = held (vw_pc v u)" for u using assms(2,3) by simp
  then show ?thesis using assms(1,4,5) by (simp add: flight_part_def)
qed

lemma flight_new:
  assumes "flight_part v" "held (vw_pc v t) = None" "held pc = Some r" "vw_request v r = None" "w \<noteq> Some True" "b \<longrightarrow> w \<noteq> None"
    "vw_pc v' = (vw_pc v)(t := pc)" "vw_queue v' = vw_queue v" "vw_request v' = (vw_request v)(r \<mapsto> (b, w))"
  shows "flight_part v'"
  using assms unfolding flight_part_def by (auto split: if_splits)

lemma flight_gone:
  assumes "flight_part v" "held (vw_pc v t) = Some r \<or> vw_request v r = Some (b, Some True) \<and> held (vw_pc v t) = None" "held pc = None"
    "vw_pc v' = (vw_pc v)(t := pc)" "vw_queue v' = vw_queue v" "vw_request v' = (vw_request v)(r := x)"
  shows "flight_part v'"
  using assms unfolding flight_part_def by (auto split: if_splits)

lemma flight_take:
  assumes "flight_part v" "held (vw_pc v t) = None" "held pc = Some r" "vw_queue v = r # rs"
  shows "flight_part (v\<lparr>vw_pc := (vw_pc v)(t := pc), vw_queue := rs\<rparr>)"
  using assms unfolding flight_part_def by (auto split: if_splits)

lemma view_step_flight:
  assumes "view_step v v'" "flight_part v"
  shows "flight_part v'"
  using assms(1)
proof cases
  case (take t r rs)
  then show ?thesis using flight_take [OF assms(2), of t "Some (Run_handle r)" r rs] by simp
next
  case (handle t r b w)
  then show ?thesis by (intro flight_gone [OF assms(2), of t r b "Some Run_loop"]) simp_all
next
  case (stop t r)
  then show ?thesis by (intro flight_new [OF assms(2), of t "Some (Stop_add r)" r "Some False" True]) simp_all
next
  case (call t r pc w)
  then show ?thesis by (intro flight_new [OF assms(2), of t "Some pc" r w False]) auto
next
  case (add t pc r pc')
  then show ?thesis using flight_add [OF assms(2), of t r pc'] after_add_cases [OF add(3)] by auto
next
  case (finished t r b)
  then show ?thesis by (intro flight_gone [OF assms(2), of t r b None]) auto
qed (rule flight_stays [OF assms(2)]; simp)+

lemma worker_stays:
  assumes "worker_part v" "working (vw_pc v t) = working pc" "vw_pc v' = (vw_pc v)(t := pc)"
    "vw_state v' = SHARD_WORKER_IDLE \<longleftrightarrow> vw_state v = SHARD_WORKER_IDLE"
  shows "worker_part v'"
proof -
  have "working (vw_pc v' u) = working (vw_pc v u)" for u using assms(2,3) by simp
  then show ?thesis using assms(1,4) by (simp add: worker_part_def)
qed

lemma view_step_worker:
  assumes "view_step v v'" "worker_part v"
  shows "worker_part v'"
  using assms(1)
proof cases
  case (claim t)
  then show ?thesis using assms(2) by (auto simp: worker_part_def)
next
  case (exit t)
  then have "working (vw_pc v t)" by simp
  then show ?thesis using exit assms(2) by (auto simp: worker_part_def)
next
  case (add t pc r pc')
  show ?thesis using after_add_cases [OF add(3)] add
    by (intro worker_stays [OF assms(2), of t pc']) auto
next
  case (call t r pc w)
  then show ?thesis by (intro worker_stays [OF assms(2), of t "Some pc"]) auto
next
  case (finished t r b)
  then show ?thesis by (intro worker_stays [OF assms(2), of t None]) auto
qed (rule worker_stays [OF assms(2)]; simp)+

lemma keep_stays:
  assumes "keep_part v" "vw_pc v' = (vw_pc v)(t := pc)" "vw_keep v' = vw_keep v"
    "pc = Some Run_next \<longrightarrow> vw_keep v" "\<forall>r. pc = Some (Run_handle r) \<longrightarrow> vw_keep v"
  shows "keep_part v'"
  using assms by (auto simp: keep_part_def)

lemma view_step_keep:
  assumes "view_step v v'" "keep_part v" "worker_part v"
  shows "keep_part v'"
  using assms(1)
proof cases
  case (start t)
  then show ?thesis by (simp add: keep_part_def)
next
  case (take t r rs)
  then show ?thesis using assms(2) by (intro keep_stays [OF assms(2), of _ t "Some (Run_handle r)"]) (auto simp: keep_part_def)
next
  case (handle t r b w)
  have "\<not> working (vw_pc v u)" if "u \<noteq> t" for u using handle(2) that assms(3) by (auto simp: worker_part_def)
  then have "vw_pc v u \<noteq> Some Run_next \<and> vw_pc v u \<noteq> Some (Run_handle x)" if "u \<noteq> t" for u x
    using that working.simps(3,4) by metis
  then have "vw_pc v' u \<noteq> Some Run_next \<and> vw_pc v' u \<noteq> Some (Run_handle x)" for u x using handle by simp
  then show ?thesis by (simp add: keep_part_def)
next
  case (add t pc r pc')
  show ?thesis using after_add_cases [OF add(3)] add
    by (intro keep_stays [OF assms(2), of _ t pc']) auto
next
  case (call t r pc w)
  then show ?thesis by (intro keep_stays [OF assms(2), of _ t "Some pc"]) auto
qed (use assms(2) in \<open>auto simp: keep_part_def\<close>)

lemma owner_step:
  assumes "owner_part v" "vw_pc v' = (vw_pc v)(t := pc)"
    "owned pc = None \<or> owned pc = owned (vw_pc v t) \<or> (\<forall>u. owned (vw_pc v u) \<noteq> owned pc)"
  shows "owner_part v'"
  unfolding owner_part_def
proof (intro allI impI)
  fix x y r
  assume "owned (vw_pc v' x) = Some r \<and> owned (vw_pc v' y) = Some r"
  then show "x = y" using assms(1) [unfolded owner_part_def, rule_format, of x r y] assms(1) [unfolded owner_part_def, rule_format, of x r t]
      assms(1) [unfolded owner_part_def, rule_format, of t r y] assms(2,3)
    by (cases "x = t"; cases "y = t") auto
qed

lemma view_step_owner:
  assumes "view_step v v'" "owner_part v" "waiting_part v"
  shows "owner_part v'"
proof -
  have old: "owned (vw_pc v u) \<noteq> Some r" if "vw_request v r = None" for u r
    using assms(3) [unfolded waiting_part_def, rule_format, of u r] that by (auto simp: awaited_def)
  show ?thesis using assms(1)
  proof cases
    case (add t pc r pc')
    show ?thesis using after_add_cases [OF add(3)] add by (intro owner_step [OF assms(2), of v' t pc']) auto
  next
    case (call t r pc w)
    then show ?thesis using old [OF call(3)] by (intro owner_step [OF assms(2), of v' t "Some pc"]) auto
  next
    case (stop t r)
    then show ?thesis using old [OF stop(4)] by (intro owner_step [OF assms(2), of v' t "Some (Stop_add r)"]) auto
  next
    case (finished t r b)
    then show ?thesis by (intro owner_step [OF assms(2), of v' t None]) auto
  next
    case (exit t)
    then show ?thesis by (intro owner_step [OF assms(2), of v' t None]) auto
  next
    case (claim t)
    then show ?thesis by (intro owner_step [OF assms(2), of v' t "Some Run_start"]) simp_all
  next
    case (start t)
    then show ?thesis by (intro owner_step [OF assms(2), of v' t "Some Run_loop"]) simp_all
  next
    case (again t)
    then show ?thesis by (intro owner_step [OF assms(2), of v' t "Some Run_next"]) simp_all
  next
    case (leave t)
    then show ?thesis by (intro owner_step [OF assms(2), of v' t "Some Run_exit"]) simp_all
  next
    case (take t r rs)
    then show ?thesis by (intro owner_step [OF assms(2), of v' t "Some (Run_handle r)"]) simp_all
  next
    case (handle t r b w)
    then show ?thesis by (intro owner_step [OF assms(2), of v' t "Some Run_loop"]) simp_all
  qed
qed

lemma under_way_moves:
  assumes "vw_pc v' = (vw_pc v)(t := pc)"
    "held (vw_pc v t) = None \<or> held (vw_pc v t) = held pc \<or> (\<forall>r. held (vw_pc v t) = Some r \<longrightarrow> r \<in> set (vw_queue v'))"
    "\<And>r. r \<in> set (vw_queue v) \<Longrightarrow> r \<in> set (vw_queue v') \<or> held pc = Some r"
    "under_way v r"
  shows "under_way v' r"
proof (cases "r \<in> set (vw_queue v)")
  case True
  then show ?thesis using assms(1) assms(3) [OF True] by (auto simp: under_way_def)
next
  case False
  then obtain u where u: "held (vw_pc v u) = Some r" using assms(4) by (auto simp: under_way_def)
  then show ?thesis using assms(1,2) unfolding under_way_def by (cases "u = t") auto
qed

lemma waiting_step:
  assumes "waiting_part v" "vw_pc v' = (vw_pc v)(t := pc)"
    "owned pc = None \<or> owned pc = owned (vw_pc v t) \<and> (held pc = None \<or> held (vw_pc v t) \<noteq> None)"
    "\<And>r. under_way v r \<Longrightarrow> under_way v' r" "vw_request v' = vw_request v"
  shows "waiting_part v'"
  unfolding waiting_part_def
proof (intro allI impI)
  fix u r
  assume o: "owned (vw_pc v' u) = Some r"
  then have "owned (vw_pc v u) = Some r" using assms(2,3) by (auto split: if_splits)
  then have "awaited v u r" using assms(1) by (simp add: waiting_part_def)
  then show "awaited v' u r" using assms(2-5) o unfolding awaited_def by (auto split: if_splits)
qed

lemma waiting_new:
  assumes "waiting_part v" "vw_pc v t = None" "vw_pc v' = (vw_pc v)(t := pc)" "held pc = Some r"
    "owned pc = None \<or> owned pc = Some r \<and> w = Some False" "vw_queue v' = vw_queue v" "vw_request v r = None"
    "vw_request v' = (vw_request v)(r \<mapsto> (b, w))"
  shows "waiting_part v'"
  unfolding waiting_part_def
proof (intro allI impI)
  fix u x
  assume o: "owned (vw_pc v' u) = Some x"
  show "awaited v' u x"
  proof (cases "u = t")
    case True
    then have "x = r" "w = Some False" "under_way v' x" using o assms(3-5) by (auto simp: under_way_def)
    then show ?thesis using assms(8) by (simp add: awaited_def)
  next
    case False
    then have "awaited v u x" using assms(1,3) o by (simp add: waiting_part_def)
    moreover have "under_way v' x" if "under_way v x"
      using under_way_moves [OF assms(3) _ _ that] assms(2,6) by simp
    ultimately show ?thesis using False assms(3,7,8) unfolding awaited_def by auto
  qed
qed

lemma waiting_handle:
  assumes "waiting_part v" "flight_part v" "vw_pc v t = Some (Run_handle r)" "vw_request v r = Some (b, w)"
    "vw_pc v' = (vw_pc v)(t := pc)" "owned pc = None" "vw_queue v' = vw_queue v"
    "vw_request v' = (vw_request v)(r \<mapsto> (b, map_option (\<lambda>_. True) w))"
  shows "waiting_part v'"
  unfolding waiting_part_def
proof (intro allI impI)
  fix u x
  assume o: "owned (vw_pc v' u) = Some x"
  then have u: "u \<noteq> t" "awaited v u x" using assms(1,5,6) by (auto simp: waiting_part_def split: if_splits)
  show "awaited v' u x"
  proof (cases "x = r")
    case True
    have "held (vw_pc v u) = None"
    proof (rule ccontr)
      assume "held (vw_pc v u) \<noteq> None"
      then have "held (vw_pc v u) = Some r" using o u(1) assms(5) True by (cases "vw_pc v u" rule: owned.cases) auto
      then show False using assms(2,3) u(1) held.simps(1) unfolding flight_part_def by metis
    qed
    then show ?thesis using u True assms(4,5,8) by (auto simp: awaited_def)
  next
    case False
    have "held (vw_pc v' y) = Some x" if "held (vw_pc v y) = Some x" for y using that False assms(3,5) by auto
    then have "under_way v' x" if "under_way v x" using that assms(7) by (auto simp: under_way_def)
    then show ?thesis using u False assms(5,8) unfolding awaited_def by auto
  qed
qed

lemma waiting_release:
  assumes "waiting_part v" "owner_part v" "owned (vw_pc v t) = Some r" "held (vw_pc v t) = None" "vw_pc v' = (vw_pc v)(t := None)"
    "vw_queue v' = vw_queue v" "vw_request v' = (vw_request v)(r := None)"
  shows "waiting_part v'"
  unfolding waiting_part_def
proof (intro allI impI)
  fix u x
  assume o: "owned (vw_pc v' u) = Some x"
  then have u: "u \<noteq> t" "awaited v u x" using assms(1,5) by (auto simp: waiting_part_def split: if_splits)
  moreover have "x \<noteq> r" using o u(1) assms(2,3,5) unfolding owner_part_def by auto
  moreover have "under_way v' x" if "under_way v x"
    using under_way_moves [OF assms(5) _ _ that] assms(4,6) by simp
  ultimately show "awaited v' u x" using assms(5,7) unfolding awaited_def by auto
qed

lemma view_step_waiting:
  assumes "view_step v v'" "waiting_part v" "owner_part v" "flight_part v"
  shows "waiting_part v'"
  using assms(1)
proof cases
  case (handle t r b w)
  then show ?thesis by (intro waiting_handle [OF assms(2,4), of t r b w v' "Some Run_loop"]) simp_all
next
  case (finished t r b)
  then show ?thesis by (intro waiting_release [OF assms(2,3), of t r v']) auto
next
  case (stop t r)
  then show ?thesis by (intro waiting_new [OF assms(2), of t v' "Some (Stop_add r)" r "Some False" True]) simp_all
next
  case (call t r pc w)
  then show ?thesis by (intro waiting_new [OF assms(2), of t v' "Some pc" r w False]) auto
next
  case (add t pc r pc')
  have "under_way v' x" if "under_way v x" for x
    using under_way_moves [of v' v t pc', OF _ _ _ that] add after_add_cases [OF add(3)] by auto
  then show ?thesis using add after_add_cases [OF add(3)] by (intro waiting_step [OF assms(2), of v' t pc']) auto
next
  case (claim t)
  then show ?thesis using under_way_moves [of v' v t "Some Run_start"] by (intro waiting_step [OF assms(2), of v' t "Some Run_start"]) auto
next
  case (start t)
  then show ?thesis using under_way_moves [of v' v t "Some Run_loop"] by (intro waiting_step [OF assms(2), of v' t "Some Run_loop"]) auto
next
  case (again t)
  then show ?thesis using under_way_moves [of v' v t "Some Run_next"] by (intro waiting_step [OF assms(2), of v' t "Some Run_next"]) auto
next
  case (leave t)
  then show ?thesis using under_way_moves [of v' v t "Some Run_exit"] by (intro waiting_step [OF assms(2), of v' t "Some Run_exit"]) auto
next
  case (take t r rs)
  then show ?thesis using under_way_moves [of v' v t "Some (Run_handle r)"] by (intro waiting_step [OF assms(2), of v' t "Some (Run_handle r)"]) auto
next
  case (exit t)
  then show ?thesis using under_way_moves [of v' v t "None"] by (intro waiting_step [OF assms(2), of v' t "None"]) auto
qed

lemma stop_stays:
  assumes "stop_part v" "\<And>t. ending v' t \<longleftrightarrow> ending v t" "open_stops v' = open_stops v"
    "vw_state v' = SHARD_WORKER_STOPPING \<longleftrightarrow> vw_state v = SHARD_WORKER_STOPPING"
  shows "stop_part v'"
  using assms(1) unfolding stop_part_def assms(2-4) .

lemma stop_partD:
  "stop_part v \<Longrightarrow> ending v t \<Longrightarrow> open_stops v = {}"
  "stop_part v \<Longrightarrow> ending v t \<Longrightarrow> vw_state v = SHARD_WORKER_STOPPING"
  "stop_part v \<Longrightarrow> vw_state v \<noteq> SHARD_WORKER_STOPPING \<Longrightarrow> open_stops v = {}"
  "stop_part v \<Longrightarrow> vw_state v \<noteq> SHARD_WORKER_STOPPING \<Longrightarrow> \<not> ending v t"
  unfolding stop_part_def by metis+

lemma one_ending: "worker_part v \<Longrightarrow> working (vw_pc v t) \<Longrightarrow> u \<noteq> t \<Longrightarrow> \<not> ending v u"
  unfolding worker_part_def ending_def by (metis working.simps(2,5))

lemma stop_handle:
  assumes "stop_part v" "worker_part v" "keep_part v" "flight_part v" "vw_pc v t = Some (Run_handle r)" "vw_request v r = Some (b, w)"
    "vw_pc v' = (vw_pc v)(t \<mapsto> Run_loop)" "vw_request v' = (vw_request v)(r \<mapsto> (b, map_option (\<lambda>_. True) w))"
    "vw_keep v' = (vw_keep v \<and> \<not> b)" "vw_state v' = vw_state v" "worker_part v'"
  shows "stop_part v'"
proof -
  have keep: "vw_keep v" using assms(3,5) by (auto simp: keep_part_def)
  have w: "w \<noteq> Some True" "b \<longrightarrow> w \<noteq> None" using assms(4-6) unfolding flight_part_def by (metis held.simps(1) option.inject prod.inject)+
  have other: "\<not> ending v u" "\<not> ending v' u" if "u \<noteq> t" for u
    using one_ending [OF assms(2), of t u] one_ending [OF assms(11), of t u] that assms(5,7) by auto
  have t: "\<not> ending v t" "ending v' t \<longleftrightarrow> b" using keep assms(5,7,9) by (auto simp: ending_def)
  have E: "\<not> (\<exists>u. ending v u)" "(\<exists>u. ending v' u) \<longleftrightarrow> b" using other t by metis+
  have S: "open_stops v' = open_stops v - {r}" "r \<in> open_stops v \<longleftrightarrow> b"
    using w assms(6,8) by (auto simp: open_stops_def)
  show ?thesis
  proof (cases b)
    case True
    then have "open_stops v = {r}" "vw_state v = SHARD_WORKER_STOPPING"
      using assms(1) E(1) S(2) unfolding stop_part_def by (metis empty_iff singletonD)+
    then show ?thesis using True E(2) S(1) assms(10) by (simp add: stop_part_def)
  next
    case False
    then show ?thesis using stop_stays [OF assms(1)] E S assms(10) by auto
  qed
qed

lemma view_step_stop:
  assumes "view_step v v'" "stop_part v" "worker_part v" "keep_part v" "flight_part v"
  shows "stop_part v'"
  using assms(1)
proof cases
  case (handle t r b w)
  then show ?thesis by (intro stop_handle [OF assms(2-5), of t r b w] view_step_worker [OF assms(1,3)]) simp_all
next
  case (start t)
  have "ending v' u \<longleftrightarrow> ending v u" for u
    using one_ending [OF assms(3), of t u] start by (cases "u = t") (auto simp: ending_def)
  then show ?thesis using start by (intro stop_stays [OF assms(2)]) (auto simp: open_stops_def)
next
  case (exit t)
  then have "ending v t" by (simp add: ending_def)
  then have "open_stops v = {}" using stop_partD(1) [OF assms(2)] by simp
  moreover have "\<not> ending v' u" for u
    using one_ending [OF assms(3), of t u] exit by (cases "u = t") (auto simp: ending_def)
  ultimately show ?thesis using exit by (simp add: stop_part_def open_stops_def)
next
  case (stop t r)
  then have "open_stops v = {}" "\<not> ending v u" for u using stop_partD(3,4) [OF assms(2)] by simp_all
  moreover have "ending v' u \<longleftrightarrow> ending v u" for u using stop by (auto simp: ending_def)
  moreover have "open_stops v' = insert r (open_stops v)" using stop by (auto simp: open_stops_def)
  ultimately show ?thesis using stop by (simp add: stop_part_def)
next
  case (add t pc r pc')
  have "ending v' u \<longleftrightarrow> ending v u" for u using add after_add_cases [OF add(3)] by (auto simp: ending_def)
  then show ?thesis using add by (intro stop_stays [OF assms(2)]) (auto simp: open_stops_def)
next
  case (claim t)
  then show ?thesis by (intro stop_stays [OF assms(2)]) (auto simp: ending_def open_stops_def)
next
  case (again t)
  then show ?thesis by (intro stop_stays [OF assms(2)]) (auto simp: ending_def open_stops_def)
next
  case (leave t)
  then show ?thesis by (intro stop_stays [OF assms(2)]) (auto simp: ending_def open_stops_def)
next
  case (take t r rs)
  then show ?thesis by (intro stop_stays [OF assms(2)]) (auto simp: ending_def open_stops_def)
next
  case (call t r pc w)
  then show ?thesis by (intro stop_stays [OF assms(2)]) (auto simp: ending_def open_stops_def)
next
  case (finished t r b)
  then show ?thesis by (intro stop_stays [OF assms(2)]) (auto simp: ending_def open_stops_def)
qed

lemma submit_stays:
  assumes "submit_part v" "vw_pc v' = (vw_pc v)(t := pc)" "\<forall>r. pc \<noteq> Some (Submit_add r)" "vw_request v' = vw_request v"
  shows "submit_part v'"
  using assms by (auto simp: submit_part_def)

lemma submit_changes:
  assumes "submit_part v" "vw_pc v' = (vw_pc v)(t := pc)" "\<And>u. u \<noteq> t \<Longrightarrow> vw_pc v u \<noteq> Some (Submit_add r)"
    "vw_request v' = (vw_request v)(r := x)" "\<And>y. pc = Some (Submit_add y) \<Longrightarrow> y = r \<and> (\<exists>b. x = Some (b, None))"
  shows "submit_part v'"
  unfolding submit_part_def
proof (intro allI impI)
  fix u y
  assume u: "vw_pc v' u = Some (Submit_add y)"
  show "\<exists>b. vw_request v' y = Some (b, None)"
  proof (cases "u = t")
    case True
    then show ?thesis using u assms(2,4,5) by simp
  next
    case False
    then have "vw_pc v u = Some (Submit_add y)" "y \<noteq> r" using u assms(2,3) by auto
    then show ?thesis using assms(1,4) by (simp add: submit_part_def)
  qed
qed

lemma view_step_submit:
  assumes "view_step v v'" "submit_part v" "flight_part v"
  shows "submit_part v'"
proof -
  have none: "vw_pc v u \<noteq> Some (Submit_add r)" if "vw_request v r = None \<or> vw_request v r = Some (b, Some c)" for u r b c
    using assms(2) that unfolding submit_part_def by force
  show ?thesis using assms(1)
  proof cases
    case (handle t r b w)
    have "vw_pc v u \<noteq> Some (Submit_add r)" if "u \<noteq> t" for u
      using assms(3) handle(2) that held.simps(1,4) unfolding flight_part_def by metis
    then show ?thesis using handle by (intro submit_changes [OF assms(2), of v' t "Some Run_loop" r]) auto
  next
    case (stop t r)
    then show ?thesis using none [of r] by (intro submit_changes [OF assms(2), of v' t "Some (Stop_add r)" r]) auto
  next
    case (call t r pc w)
    then show ?thesis using none [of r] by (intro submit_changes [OF assms(2), of v' t "Some pc" r]) auto
  next
    case (finished t r b)
    then show ?thesis using none [of r b True] by (intro submit_changes [OF assms(2), of v' t None r]) auto
  next
    case (add t pc r pc')
    then show ?thesis using after_add_cases [OF add(3)] by (intro submit_stays [OF assms(2), of v' t pc']) auto
  qed (use assms(2) in \<open>auto simp: submit_part_def\<close>)
qed

lemma view_step_inv: "view_step v v' \<Longrightarrow> view_inv v \<Longrightarrow> view_inv v'"
  unfolding view_inv_def
  using view_step_flight view_step_waiting view_step_owner view_step_submit view_step_worker view_step_keep view_step_stop by blast

end
