(* ===== verification/ShardWorker.thy ===== *)
theory ShardWorker
  imports ShardProtocol
begin

text \<open>
  The worker of a shard (\<^verbatim>\<open>sharded_ohtable/shard.c\<close>): the interleavings of threads that run, stop, wait for and submit
  to one shard follow the protocol of \<open>ShardProtocol\<close>, whose invariant gives the safety of the shard.
\<close>

section \<open>Definitions\<close>

abbreviation ss_list :: "shard_system \<Rightarrow> nat option list" where
  "ss_list s \<equiv> queue_list (sh_requests (ss_shard s))"

definition request_view :: "sharded_ohtable_request \<Rightarrow> bool \<times> bool option" where
  "request_view req = (rq_type req = shard_request_stop, rq_wait req)"

definition view :: "shard_system \<Rightarrow> shard_view" where
  "view s = \<lparr>vw_queue = map the (ss_list s), vw_state = sh_running (ss_shard s), vw_keep = sh_keep_alive (ss_shard s),
     vw_request = (\<lambda>r. map_option request_view (ss_memory s r)), vw_pc = ss_threads s\<rparr>"

text \<open>The queue is open, its representation is sound, it has no null pointers, and no \<open>CHECK\<close> has failed.\<close>

definition queue_part :: "shard_system \<Rightarrow> bool" where
  "queue_part s \<longleftrightarrow> queue_inv (sh_requests (ss_shard s)) \<and> \<not> q_closed (sh_requests (ss_shard s)) \<and>
     None \<notin> set (ss_list s) \<and> \<not> ss_failed s"

text \<open>A step of the shard is followed by the protocol, or does not change what the protocol sees.\<close>

definition follows :: "shard_system \<Rightarrow> shard_system \<Rightarrow> bool" where
  "follows s s' \<longleftrightarrow> queue_part s' \<and> (view s' = view s \<or> view_step (view s) (view s'))"

text \<open>A shard as it is created.\<close>

definition shard_ready :: "shard \<Rightarrow> bool" where
  "shard_ready shard \<longleftrightarrow> queue_inv (sh_requests shard) \<and> queue_list (sh_requests shard) = [] \<and> \<not> q_closed (sh_requests shard)
     \<and> sh_running shard = SHARD_WORKER_IDLE"

text \<open>A request that was in the queue when the shard was destroyed.\<close>

definition destroyed :: "sharded_ohtable_request \<Rightarrow> sharded_ohtable_request" where
  "destroyed req = req\<lparr>rq_err := err_SHARD__DESTROYING, rq_wait := map_option (\<lambda>_. True) (rq_wait req)\<rparr>"

section \<open>The shard follows the protocol\<close>

lemmas ss_ops = ss_goto_def ss_return_def ss_running_def ss_allocate_def ss_release_def ss_queue_def

lemma handle_shard:
  assumes "shard_handle_request pr shard req rnd = Some (shard', req', rnd')"
  shows "sh_requests shard' = sh_requests shard" "sh_running shard' = sh_running shard"
    "sh_keep_alive shard' = (sh_keep_alive shard \<and> rq_type req \<noteq> shard_request_stop)"
    "rq_type req' = rq_type req" "rq_wait req' = (if rq_wait req = None then None else Some True)"
proof -
  have "sh_requests shard' = sh_requests shard \<and> sh_running shard' = sh_running shard
    \<and> sh_keep_alive shard' = (sh_keep_alive shard \<and> rq_type req \<noteq> shard_request_stop) \<and> rq_type req' = rq_type req
    \<and> rq_wait req' = (if rq_wait req = None then None else Some True)"
    using assms unfolding shard_handle_request_def
    by (cases "rq_type req")
      (auto simp: shard_do_clear_def shard_add_zero_record_def shard_waiter_finish_def bind_eq_Some_conv)
  then show "sh_requests shard' = sh_requests shard" "sh_running shard' = sh_running shard"
    "sh_keep_alive shard' = (sh_keep_alive shard \<and> rq_type req \<noteq> shard_request_stop)"
    "rq_type req' = rq_type req" "rq_wait req' = (if rq_wait req = None then None else Some True)"
    by simp_all
qed

lemma next_request:
  assumes "queue_part s" "shard_next_request (ss_shard s) = Returns q x cs"
  shows "queue_inv q" "q_closed q = q_closed (sh_requests (ss_shard s))" "ss_list s = x # queue_list q"
  using assms next_returnsD [of "sh_requests (ss_shard s)" q x cs]
  by (simp_all add: queue_part_def shard_next_request_def queue_next_item_def)

lemma add_request:
  assumes "queue_part s" "shard_add_request (ss_shard s) r = Returns q err cs"
  shows "err = err_SUCCESS" "queue_inv q" "\<not> q_closed q" "queue_list q = ss_list s @ [Some r]"
proof -
  have inv: "queue_inv (sh_requests (ss_shard s))" "\<not> q_closed (sh_requests (ss_shard s))"
    using assms(1) by (simp_all add: queue_part_def)
  have add: "add_item_loop (sh_requests (ss_shard s)) (Some r) = Returns q err cs"
    using assms(2) add_enters [OF inv(1)] by (simp add: shard_add_request_def)
  then show err: "err = err_SUCCESS"
    using inv(2) by (auto simp: add_item_loop_def split: if_splits)
  show "queue_inv q" "\<not> q_closed q" "queue_list q = ss_list s @ [Some r]"
    using add_returnsD(1-3) [OF inv(1) add] inv(2) err by simp_all
qed

lemmas request_makers = shard_request_create_def shard_waiter_create_def shard_insert_def shard_query_def shard_clear_def

lemma view_sel [simp]:
  "vw_queue (view s) = map the (ss_list s)" "vw_state (view s) = sh_running (ss_shard s)" "vw_keep (view s) = sh_keep_alive (ss_shard s)"
  "vw_request (view s) r = map_option request_view (ss_memory s r)" "vw_pc (view s) = ss_threads s"
  by (simp_all add: view_def)

lemma followsI:
  assumes "view_step (view s) v" "queue_part s'" "map the (ss_list s') = vw_queue v" "sh_running (ss_shard s') = vw_state v"
    "sh_keep_alive (ss_shard s') = vw_keep v" "\<And>r. map_option request_view (ss_memory s' r) = vw_request v r" "ss_threads s' = vw_pc v"
  shows "follows s s'"
proof -
  have "view s' = v" using assms(3-7) by (cases v) (auto simp: view_def)
  then show ?thesis using assms(1,2) by (simp add: follows_def)
qed

lemma follows_refused:
  assumes "queue_part s" "ss_threads s t = None"
  shows "follows s (ss_return t err s)"
  using assms fun_upd_idem [of "ss_threads s" t None] by (simp add: follows_def queue_part_def ss_ops view_def)

lemma run_step_follows:
  assumes "run_step pr s s'" "queue_part s" "stop_part (view s)"
  shows "follows s s'"
  using assms(1)
proof cases
  case (claim t)
  show ?thesis by (rule followsI [OF view_step.claim [of "view s" t]]) (use claim assms(2) in \<open>simp_all add: queue_part_def ss_ops\<close>)
next
  case (refused t)
  then show ?thesis using follows_refused [OF assms(2)] by simp
next
  case (start t)
  show ?thesis by (rule followsI [OF view_step.start [of "view s" t]]) (use start assms(2) in \<open>simp_all add: queue_part_def ss_ops\<close>)
next
  case (again t)
  show ?thesis by (rule followsI [OF view_step.again [of "view s" t]]) (use again assms(2) in \<open>simp_all add: queue_part_def ss_ops\<close>)
next
  case (leave t)
  show ?thesis by (rule followsI [OF view_step.leave [of "view s" t]]) (use leave assms(2) in \<open>simp_all add: queue_part_def ss_ops\<close>)
next
  case (next_request t q r cs)
  show ?thesis
    by (rule followsI [OF view_step.take [of "view s" t r "map the (queue_list q)"]])
      (use next_request assms(2) ShardWorker.next_request [OF assms(2) next_request(3)] in \<open>simp_all add: queue_part_def ss_ops\<close>)
next
  case (null t q cs)
  then show ?thesis using assms(2) ShardWorker.next_request [OF assms(2) null(3)] by (simp add: queue_part_def)
next
  case (handle t r req shard' req' rnd')
  note h = handle_shard [OF handle(4)]
  obtain b w where v: "request_view req = (b, w)" by fastforce
  then have "request_view req' = (b, map_option (\<lambda>_. True) w)" using h(4,5) by (auto simp: request_view_def)
  then show ?thesis
    by (intro followsI [OF view_step.handle [of "view s" t r b w]])
      (use handle h v assms(2) in \<open>auto simp: queue_part_def ss_ops request_view_def\<close>)
next
  case (exit t)
  show ?thesis by (rule followsI [OF view_step.exit [of "view s" t]]) (use exit assms(2) in \<open>simp_all add: queue_part_def ss_ops\<close>)
next
  case (check t)
  then show ?thesis using stop_partD(2) [OF assms(3), of t] by (simp add: ending_def)
qed

lemma add_follows:
  assumes "queue_part s" "ss_threads s t = Some pc" "after_add pc = Some (r, pc')" "shard_add_request (ss_shard s) r = Returns q err cs"
    "sh_requests (ss_shard s') = q" "sh_running (ss_shard s') = sh_running (ss_shard s)"
    "sh_keep_alive (ss_shard s') = sh_keep_alive (ss_shard s)" "ss_memory s' = ss_memory s" "ss_threads s' = (ss_threads s)(t := pc')"
    "ss_failed s' = ss_failed s"
  shows "follows s s'"
  by (rule followsI [OF view_step.add [of "view s" t pc r pc']])
    (use assms add_request [OF assms(1,4)] in \<open>simp_all add: queue_part_def view_def\<close>)

lemma finished_follows:
  assumes "queue_part s" "ss_threads s t \<in> {Some (Stop_wait r), Some (Wait_wait r)}" "ss_memory s r = Some req" "rq_wait req = Some True"
  shows "follows s (ss_return t err (ss_release r s))"
  by (rule followsI [OF view_step.finished [of "view s" t r "rq_type req = shard_request_stop"]])
    (use assms in \<open>auto simp: queue_part_def ss_ops request_view_def\<close>)

lemma stop_step_follows:
  assumes "stop_step s s'" "queue_part s"
  shows "follows s s'"
  using assms(1)
proof cases
  case (claim t r)
  show ?thesis by (rule followsI [OF view_step.stop [of "view s" t r]])
    (use claim assms(2) in \<open>auto simp: queue_part_def ss_ops request_view_def request_makers\<close>)
next
  case (refused t)
  then show ?thesis using follows_refused [OF assms(2)] by simp
next
  case (add t r q err cs)
  then show ?thesis using add_request(1) [OF assms(2) add(3)]
    by (intro add_follows [OF assms(2) add(2) _ add(3), of "Some (Stop_wait r)"]) (simp_all add: ss_ops)
next
  case (finished t r req)
  then show ?thesis using finished_follows [OF assms(2), of t r req] by simp
qed

lemma wait_step_follows:
  assumes "wait_step s s'" "queue_part s"
  shows "follows s s'"
  using assms(1)
proof cases
  case (call t r)
  show ?thesis by (rule followsI [OF view_step.call [of "view s" t r "Wait_add r" "Some False"]])
    (use call assms(2) in \<open>auto simp: queue_part_def ss_ops request_view_def request_makers\<close>)
next
  case (add t r q err cs)
  then show ?thesis using add_request(1) [OF assms(2) add(3)]
    by (intro add_follows [OF assms(2) add(2) _ add(3), of "Some (Wait_wait r)"]) (simp_all add: ss_ops)
next
  case (finished t r req)
  then show ?thesis using finished_follows [OF assms(2), of t r req] by simp
qed

lemma submit_step_follows:
  assumes "submit_step s s'" "queue_part s"
  shows "follows s s'"
  using assms(1)
proof cases
  case (call t r req records n)
  then have "request_view req = (False, None)" by (auto simp: request_view_def request_makers)
  then show ?thesis by (intro followsI [OF view_step.call [of "view s" t r "Submit_add r" None]])
    (use call assms(2) in \<open>auto simp: queue_part_def ss_ops\<close>)
next
  case (add t r q err cs)
  then show ?thesis using add_request(1) [OF assms(2) add(3)]
    by (intro add_follows [OF assms(2) add(2) _ add(3), of None]) (simp_all add: ss_ops)
qed

lemma shard_step_follows:
  assumes "shard_step pr s s'" "queue_part s" "view_inv (view s)"
  shows "follows s s'"
  using assms(1)
  by cases (use assms(2,3) run_step_follows stop_step_follows wait_step_follows submit_step_follows in \<open>auto simp: view_inv_def\<close>)

lemma shard_reachable_inv:
  assumes "shard_reachable pr shard rnd s" "shard_ready shard"
  shows "queue_part s \<and> view_inv (view s)"
  using assms(1)
proof induction
  case start
  then show ?case using assms(2)
    by (simp add: shard_ready_def queue_part_def ss_start_def view_inv_def flight_part_def waiting_part_def owner_part_def submit_part_def
        worker_part_def keep_part_def stop_part_def ending_def open_stops_def)
next
  case (step s s')
  then show ?case using shard_step_follows [OF step(2)] view_step_inv by (auto simp: follows_def)
qed

text \<open>What the invariant says about the threads of the shard.\<close>

lemma shard_reachable_worker:
  assumes "shard_reachable pr shard rnd s" "shard_ready shard"
  shows "\<not> ss_failed s" "working (ss_threads s t) \<Longrightarrow> working (ss_threads s t') \<Longrightarrow> t = t'"
    "sh_running (ss_shard s) = SHARD_WORKER_IDLE \<longleftrightarrow> (\<forall>t. \<not> working (ss_threads s t))"
  using shard_reachable_inv [OF assms] by (auto simp: queue_part_def view_inv_def worker_part_def)

lemma shard_reachable_waits:
  assumes "shard_reachable pr shard rnd s" "shard_ready shard" "ss_threads s t \<in> {Some (Stop_wait r), Some (Wait_wait r)}"
  shows "\<exists>req. ss_memory s r = Some req \<and> (rq_wait req = Some True \<or>
    rq_wait req = Some False \<and> (Some r \<in> set (ss_list s) \<or> (\<exists>w. ss_threads s w = Some (Run_handle r))))"
proof -
  have "queue_part s" and inv: "waiting_part (view s)" "owner_part (view s)" "submit_part (view s)"
    using shard_reachable_inv [OF assms(1,2)] by (simp_all add: view_inv_def)
  have own: "owned (ss_threads s t) = Some r" using assms(3) by auto
  then have "awaited (view s) t r" using inv(1) by (simp add: waiting_part_def)
  moreover have "Some r \<in> set (ss_list s)" if "r \<in> the ` set (ss_list s)"
    using that \<open>queue_part s\<close> by (metis imageE option.collapse queue_part_def)
  moreover have "ss_threads s w = Some (Run_handle r)"
    if "held (ss_threads s w) = Some r" "ss_memory s r = Some req" "rq_wait req = Some False" for w req
  proof -
    have "owned (ss_threads s w) = Some r \<Longrightarrow> w = t" using inv(2) own by (auto simp: owner_part_def)
    moreover have "held (ss_threads s t) = None" using assms(3) by auto
    moreover have "ss_threads s w \<noteq> Some (Submit_add r)" using inv(3) that(2,3) by (force simp: submit_part_def request_view_def)
    ultimately show ?thesis using that(1) by (cases "ss_threads s w" rule: held.cases) auto
  qed
  ultimately show ?thesis by (auto simp: awaited_def under_way_def request_view_def)
qed

lemma shard_reachable_stop:
  assumes "shard_reachable pr shard rnd s" "shard_ready shard" "ss_memory s r = Some req" "rq_type req = shard_request_stop" "rq_wait req = Some False"
  shows "\<exists>t. working (ss_threads s t) \<and> sh_running (ss_shard s) = SHARD_WORKER_STOPPING"
proof -
  have "stop_part (view s)" "worker_part (view s)" using shard_reachable_inv [OF assms(1,2)] by (simp_all add: view_inv_def)
  moreover have "r \<in> open_stops (view s)" using assms(3-5) by (simp add: open_stops_def request_view_def)
  ultimately have "sh_running (ss_shard s) = SHARD_WORKER_STOPPING" using stop_partD(3) [of "view s"] by auto
  then show ?thesis using \<open>worker_part (view s)\<close> by (auto simp: worker_part_def)
qed

section \<open>Destruction\<close>

declare drain_requests.simps [simp del]

lemma drain_next:
  assumes "queue_inv q"
  shows "queue_list q = [] \<Longrightarrow> queue_next_item q False = Returns q None []"
    "queue_list q = x # xs \<Longrightarrow> \<exists>q' cs. queue_next_item q False = Returns q' x cs \<and> queue_inv q' \<and> queue_list q' = xs"
proof -
  have n: "q_num_items q = length (queue_list q)" by (simp add: queue_list_def)
  then show "queue_list q = [] \<Longrightarrow> queue_next_item q False = Returns q None []" by (simp add: queue_next_item_def)
  assume l: "queue_list q = x # xs"
  then have "next_item_loop q \<noteq> Waits consumer_con" "queue_next_item q False = next_item_loop q"
    using n by (auto simp: next_item_loop_def queue_next_item_def Let_def)
  moreover obtain q' y cs where y: "next_item_loop q = Returns q' y cs" using n l by (auto simp: next_item_loop_def Let_def)
  ultimately show "\<exists>q' cs. queue_next_item q False = Returns q' x cs \<and> queue_inv q' \<and> queue_list q' = xs"
    using next_returnsD(1,3) [OF assms y] l by simp
qed

lemma drain_result:
  assumes "queue_inv q" "queue_list q = map Some rs" "distinct rs"
  shows "queue_list (fst (drain_requests q mem)) = [] \<and>
    (\<forall>r. snd (drain_requests q mem) r = (if r \<in> set rs then map_option destroyed (mem r) else mem r))"
  using assms
proof (induction rs arbitrary: q mem)
  case Nil
  then show ?case using drain_next(1) [OF Nil(1)] by (simp add: drain_requests.simps [of q])
next
  case (Cons x xs)
  define mem' where "mem' = mem(x := map_option destroyed (mem x))"
  obtain q' cs where q: "queue_next_item q False = Returns q' (Some x) cs" "queue_inv q'" "queue_list q' = map Some xs"
    using drain_next(2) [OF Cons.prems(1), of "Some x" "map Some xs"] Cons.prems(2) by auto
  have mark: "(let req = req\<lparr>rq_err := err_SHARD__DESTROYING\<rparr> in if rq_wait req \<noteq> None then shard_waiter_finish req else req) = destroyed req" for req
    by (cases req; cases "rq_wait req") (auto simp: destroyed_def shard_waiter_finish_def Let_def)
  have step: "drain_requests q mem = drain_requests q' mem'"
    unfolding mem'_def by (subst drain_requests.simps) (simp only: q(1) outcome.case option.case mark)
  have IH: "queue_list (fst (drain_requests q' mem')) = []"
    "snd (drain_requests q' mem') r = (if r \<in> set xs then map_option destroyed (mem' r) else mem' r)" for r
    using Cons.IH [OF q(2,3)] Cons.prems(3) by simp_all
  show ?case unfolding step IH using Cons.prems(3) by (auto simp: mem'_def)
qed

lemma shard_destroy_result:
  assumes "queue_inv (sh_requests shard)" "queue_list (sh_requests shard) = map Some rs" "distinct rs"
  shows "shard_destroy shard mem r = (if r \<in> set rs then map_option destroyed (mem r) else mem r)"
  using drain_result [of "queue_close (sh_requests shard)" rs mem] assms by (simp add: shard_destroy_def queue_close_def queue_inv_def queue_list_def)

section \<open>Creation\<close>

lemma zero_record_frame:
  "shard_add_zero_record pr shard rnd = Some (shard', rnd') \<Longrightarrow> shard_ready shard' = shard_ready shard"
  by (auto simp: shard_add_zero_record_def shard_ready_def bind_eq_Some_conv)

lemma shard_create_ready:
  assumes "shard_create test_or_staging pr lb ub n getentropy rnd = Some (errs, shard, getentropy', rnd')"
  shows "shard_ready shard"
proof -
  obtain table rnd1 shard1 rnd2 where s: "shard_init pr table lb ub n rnd1 = Some (shard1, rnd2)" "shard_add_zero_record pr shard1 rnd2 = Some (shard, rnd')"
    using assms by (auto simp: shard_create_def bind_eq_Some_conv)
  show ?thesis using zero_record_frame [OF s(1) [unfolded shard_init_def]] zero_record_frame [OF s(2)] queue_create_inv
    by (simp add: shard_ready_def) (simp add: queue_create_def)
qed

lemma j_contains_eq: "j_contains shard key = (if shard_contains shard key then 1 else 0)"
  by (simp add: j_contains_def shard_contains_def)

end
