(* ===== verification/ShardBatch.thy ===== *)
theory ShardBatch
  imports Shard
begin

text \<open>
  The batches of a shard (\<^verbatim>\<open>shard_handle_request\<close> of \<^verbatim>\<open>sharded_ohtable/shard.c\<close>): what a batch of insertions or queries
  does, for every table that keeps the contract of locale \<open>record_store\<close>, and hence for the oblivious hash table.
\<close>

section \<open>Definitions\<close>

text \<open>The answer to a query: the record if there is one; otherwise the empty record, or the buffer of the query as it was.\<close>

definition answers :: "(u64 \<rightharpoonup> u64 list) \<Rightarrow> u64 list \<Rightarrow> u64 list \<Rightarrow> bool" where
  "answers m r out \<longleftrightarrow> (case m (rec_key r) of Some x \<Rightarrow> out = x | None \<Rightarrow> out = replicate 7 UINT64_MAX \<or> out = r)"

definition bind_record :: "(u64 \<rightharpoonup> u64 list) \<Rightarrow> u64 list \<Rightarrow> (u64 \<rightharpoonup> u64 list)" where
  "bind_record m r = m(rec_key r \<mapsto> r)"

definition shard_ok :: "build_params \<Rightarrow> nat \<Rightarrow> shard \<Rightarrow> bool" where
  "shard_ok pr nb shard \<longleftrightarrow> ohtable_ok pr nb (sh_table shard) \<and> sh_record_size_qwords shard = 7"

text \<open>A request with the records for its batch, none of which has the key of an empty slot.\<close>

definition batch_ok :: "sharded_ohtable_request \<Rightarrow> u64 list \<Rightarrow> bool" where
  "batch_ok req records \<longleftrightarrow> rq_records req = Some records \<and> rq_err req = err_SUCCESS \<and> length records = 7 * rq_batch_size req \<and>
     (\<forall>i < rq_batch_size req. records ! (7 * i) \<noteq> UINT64_MAX)"

lemma batch_record_set:
  assumes "length r = 7" "7 * i + 7 \<le> length records"
  shows "batch_record 7 (set_batch_record 7 records i r) j = (if j = i then r else batch_record 7 records j)"
    "length (set_batch_record 7 records i r) = length records"
proof -
  show "batch_record 7 (set_batch_record 7 records i r) j = (if j = i then r else batch_record 7 records j)"
  proof (cases j i rule: linorder_cases)
    case less
    then have "7 * j + 7 \<le> 7 * i" by simp
    then show ?thesis using less assms by (simp add: batch_record_def set_batch_record_def take_drop)
  next
    case equal
    then show ?thesis using assms by (simp add: batch_record_def set_batch_record_def)
  next
    case greater
    then obtain d where "7 * j = 7 * i + 7 + d" by (metis add.assoc less_eqE linorder_not_less mult_Suc_right not_less_eq_eq nat_le_linear mult_le_mono2 add.commute Suc_leI)
    then show ?thesis using greater assms by (simp add: batch_record_def set_batch_record_def add.commute)
  qed
  show "length (set_batch_record 7 records i r) = length records" using assms by (simp add: set_batch_record_def)
qed

locale record_store =
  fixes put :: "'t \<Rightarrow> u64 list \<Rightarrow> 'r \<Rightarrow> (error_t \<times> 't \<times> 'r) option"
    and get :: "'t \<Rightarrow> u64 \<Rightarrow> u64 list \<Rightarrow> 'r \<Rightarrow> (error_t \<times> u64 list \<times> 't \<times> 'r) option"
    and ok :: "'t \<Rightarrow> bool"
    and contents :: "'t \<Rightarrow> (u64 \<rightharpoonup> u64 list)"
    and exact :: "'t \<Rightarrow> bool"
    and room :: "'t \<Rightarrow> bool"
  assumes put_result: "ok t \<Longrightarrow> length r = 7 \<Longrightarrow> rec_key r \<noteq> UINT64_MAX \<Longrightarrow>
      \<exists>err t' rnd'. put t r rnd = Some (err, t', rnd') \<and>
        (err = err_SUCCESS \<longrightarrow> ok t' \<and> contents t' = bind_record (contents t) r) \<and>
        (room t \<longrightarrow> room t' \<and> (err = err_SUCCESS \<or> err = err_OHTABLE__TABLE_FULL))"
    and get_result: "ok t \<Longrightarrow> length r = 7 \<Longrightarrow> rec_key r \<noteq> UINT64_MAX \<Longrightarrow>
      \<exists>err out t' rnd'. get t (rec_key r) r rnd = Some (err, out, t', rnd') \<and>
        (err = err_SUCCESS \<longrightarrow> ok t' \<and> contents t' = contents t \<and> exact t' = exact t \<and> length out = 7 \<and>
          (exact t \<longrightarrow> answers (contents t) r out)) \<and>
        (room t \<longrightarrow> room t' \<and> err = err_SUCCESS)"
begin

lemma insert_batch_result:
  assumes "ok t" "\<forall>i \<in> set is. 7 * i + 7 \<le> length records \<and> rec_key (batch_record 7 records i) \<noteq> UINT64_MAX"
  shows "\<exists>err' t' rnd'. insert_batch put 7 records is err t rnd = Some (err', t', rnd') \<and>
    (err' = err_SUCCESS \<longrightarrow> ok t' \<and> contents t' = foldl bind_record (contents t) (map (batch_record 7 records) is)) \<and>
    (room t \<and> err = err_SUCCESS \<longrightarrow> room t' \<and> (err' = err_SUCCESS \<or> err' = err_OHTABLE__TABLE_FULL))"
  using assms
proof (induction "is" arbitrary: err t rnd)
  case (Cons i "is")
  let ?r = "batch_record 7 records i"
  have r: "length ?r = 7" "rec_key ?r \<noteq> UINT64_MAX" using Cons.prems(2) by (auto simp: batch_record_def)
  obtain err' t' rnd' where p: "put t ?r rnd = Some (err', t', rnd')" "err' = err_SUCCESS \<longrightarrow> ok t' \<and> contents t' = bind_record (contents t) ?r"
      "room t \<longrightarrow> room t' \<and> (err' = err_SUCCESS \<or> err' = err_OHTABLE__TABLE_FULL)"
    using put_result [OF Cons.prems(1) r] by blast
  show ?case
  proof (cases "err' = err_SUCCESS")
    case True
    then show ?thesis using Cons.IH [of t' err' rnd'] Cons.prems(2) p by (auto simp: not_less)
  next
    case False
    then show ?thesis using Cons.prems(2) p by (auto simp: not_less)
  qed
qed simp

lemma query_batch_result:
  assumes "ok t" "distinct is" "\<forall>i \<in> set is. 7 * i + 7 \<le> length records \<and> rec_key (batch_record 7 records i) \<noteq> UINT64_MAX"
  shows "\<exists>err' out t' rnd'. query_batch get 7 is err records t rnd = Some (err', out, t', rnd') \<and>
    (err' = err_SUCCESS \<longrightarrow> ok t' \<and> contents t' = contents t \<and> exact t' = exact t \<and> length out = length records \<and>
      (exact t \<longrightarrow> (\<forall>i \<in> set is. answers (contents t) (batch_record 7 records i) (batch_record 7 out i))) \<and>
      (\<forall>i. i \<notin> set is \<longrightarrow> batch_record 7 out i = batch_record 7 records i)) \<and>
    (room t \<and> err = err_SUCCESS \<longrightarrow> room t' \<and> err' = err_SUCCESS)"
  using assms
proof (induction "is" arbitrary: err t rnd records)
  case (Cons i "is")
  let ?r = "batch_record 7 records i"
  have len: "7 * i + 7 \<le> length records" using Cons.prems(3) by simp
  have r: "length ?r = 7" "rec_key ?r \<noteq> UINT64_MAX" "records ! (7 * i) = rec_key ?r"
    using Cons.prems(3) by (auto simp: batch_record_def)
  obtain err' out t' rnd' where p: "get t (rec_key ?r) ?r rnd = Some (err', out, t', rnd')"
      "err' = err_SUCCESS \<longrightarrow> ok t' \<and> contents t' = contents t \<and> exact t' = exact t \<and> length out = 7 \<and> (exact t \<longrightarrow> answers (contents t) ?r out)"
      "room t \<longrightarrow> room t' \<and> err' = err_SUCCESS"
    using get_result [OF Cons.prems(1) r(1,2)] by blast
  have step: "query_batch get 7 (i # is) err records t rnd = (if err' \<noteq> err_SUCCESS then Some (err', set_batch_record 7 records i out, t', rnd')
       else query_batch get 7 is err' (set_batch_record 7 records i out) t' rnd')"
    using p(1) r(3) len by simp
  show ?case
  proof (cases "err' = err_SUCCESS")
    case True
    let ?rs = "set_batch_record 7 records i out"
    have b: "batch_record 7 ?rs j = (if j = i then out else batch_record 7 records j)" "length ?rs = length records" for j
      using batch_record_set(1) [of out i records j] batch_record_set(2) [of out i records] len True p(2) by simp_all
    have same: "batch_record 7 ?rs j = batch_record 7 records j" if "j \<in> set is" for j using b(1) that Cons.prems(2) by auto
    have rs: "\<forall>j \<in> set is. 7 * j + 7 \<le> length ?rs \<and> rec_key (batch_record 7 ?rs j) \<noteq> UINT64_MAX"
      using Cons.prems(3) same b(2) by simp
    have t': "ok t'" "contents t' = contents t" "exact t' = exact t" using p(2) True by simp_all
    have "distinct is" using Cons.prems(2) by simp
    from Cons.IH [OF t'(1) this rs, of err' rnd'] obtain err2 out2 t2 rnd2 where q: "query_batch get 7 is err' ?rs t' rnd' = Some (err2, out2, t2, rnd2)"
        "err2 = err_SUCCESS \<longrightarrow> ok t2 \<and> contents t2 = contents t' \<and> exact t2 = exact t' \<and> length out2 = length ?rs \<and>
          (exact t' \<longrightarrow> (\<forall>i \<in> set is. answers (contents t') (batch_record 7 ?rs i) (batch_record 7 out2 i))) \<and>
          (\<forall>i. i \<notin> set is \<longrightarrow> batch_record 7 out2 i = batch_record 7 ?rs i)"
        "room t' \<and> err' = err_SUCCESS \<longrightarrow> room t2 \<and> err2 = err_SUCCESS"
      by (elim exE conjE) (rule that)
    have "answers (contents t) (batch_record 7 records j) (batch_record 7 out2 j)" if "err2 = err_SUCCESS" "exact t" "j \<in> set (i # is)" for j
    proof (cases "j = i")
      case True
      then show ?thesis using that q(2) b(1) [of i] p(2) \<open>err' = err_SUCCESS\<close> Cons.prems(2) by simp
    next
      case False
      then show ?thesis using that q(2) t' same by simp
    qed
    then show ?thesis unfolding step using True q t' p(3) b by auto
  next
    case False
    then show ?thesis unfolding step using p(3) by simp
  qed
qed simp

end

section \<open>The hash table keeps the contract\<close>

lemma first_hit_length:
  assumes "ohtable_ok pr nb oh" "first_hit (24 * nb) (home (24 * nb)) (slots_of nb (oh_oram oh)) k n = Some x"
  shows "length x = 7"
proof -
  have "0 < nb" "blank_slots (24 * nb) (slots_of nb (oh_oram oh))" using assms(1) by (simp_all add: ohtable_ok_def)
  then show ?thesis using assms(2) by (auto simp: first_hit_def find_Some_iff blank_slots_def)
qed

interpretation oht: record_store "ohtable_put pr" "ohtable_get pr" "ohtable_ok pr nb" "oh_map nb" "covered nb" "\<lambda>oh. oram_room pr nb (oh_oram oh)"
  for pr nb
proof
  fix t r rnd
  assume t: "ohtable_ok pr nb t" and r: "length r = 7" "rec_key r \<noteq> UINT64_MAX"
  show "\<exists>err t' rnd'. ohtable_put pr t r rnd = Some (err, t', rnd') \<and>
        (err = err_SUCCESS \<longrightarrow> ohtable_ok pr nb t' \<and> oh_map nb t' = bind_record (oh_map nb t) r) \<and>
        (oram_room pr nb (oh_oram t) \<longrightarrow> oram_room pr nb (oh_oram t') \<and> (err = err_SUCCESS \<or> err = err_OHTABLE__TABLE_FULL))"
  proof (cases "is_full t")
    case False
    then show ?thesis using ohtable_put_result [OF t r False, of rnd] by (auto simp: bind_record_def split: if_splits)
  qed (simp add: ohtable_put_def)
  show "\<exists>err out t' rnd'. ohtable_get pr t (rec_key r) r rnd = Some (err, out, t', rnd') \<and>
        (err = err_SUCCESS \<longrightarrow> ohtable_ok pr nb t' \<and> oh_map nb t' = oh_map nb t \<and> covered nb t' = covered nb t \<and> length out = 7 \<and>
          (covered nb t \<longrightarrow> answers (oh_map nb t) r out)) \<and>
        (oram_room pr nb (oh_oram t) \<longrightarrow> oram_room pr nb (oh_oram t') \<and> err = err_SUCCESS)"
  proof -
    obtain err out t' rnd' where g: "ohtable_get pr t (rec_key r) r rnd = Some (err, out, t', rnd')"
        "if err = err_SUCCESS then ohtable_ok pr nb t' \<and> oh_map nb t' = oh_map nb t \<and> (covered nb t' \<longleftrightarrow> covered nb t) \<and>
           out = (case first_hit (24 * nb) (home (24 * nb)) (slots_of nb (oh_oram t)) (rec_key r) (scan_length nb t (rec_key r)) of None \<Rightarrow> r | Some x \<Rightarrow> x)
         else err = err_ORAM__STASH_EXHAUSTION"
        "oram_room pr nb (oh_oram t) \<longrightarrow> err = err_SUCCESS \<and> oram_room pr nb (oh_oram t')"
      using ohtable_get_result [OF t r(1), of "rec_key r" rnd] by blast
    have "length out = 7" if "err = err_SUCCESS" using g(2) that first_hit_length [OF t] r(1) by (auto split: option.splits)
    moreover have "answers (oh_map nb t) r out" if "err = err_SUCCESS" "covered nb t"
      using g(2) that lookup_present [OF t that(2), of "rec_key r"] lookup_absent_eq [OF t _ r(2)]
      by (cases "oh_map nb t (rec_key r)") (auto simp: answers_def split: if_splits)
    ultimately show ?thesis using g by (auto split: if_splits)
  qed
qed

section \<open>Requests\<close>

lemma batch_ok_records:
  assumes "batch_ok req records"
  shows "\<forall>i \<in> set [0..<rq_batch_size req]. 7 * i + 7 \<le> length records \<and> rec_key (batch_record 7 records i) \<noteq> UINT64_MAX"
  using assms by (auto simp: batch_ok_def batch_record_def)

lemma handle_insert:
  assumes "shard_ok pr nb shard" "batch_ok req records" "rq_type req = shard_request_insert"
  shows "\<exists>shard' req' rnd'. shard_handle_request pr shard req rnd = Some (shard', req', rnd') \<and>
    (rq_err req' = err_SUCCESS \<longrightarrow> shard_ok pr nb shard' \<and>
      oh_map nb (sh_table shard') = foldl bind_record (oh_map nb (sh_table shard)) (map (batch_record 7 records) [0..<rq_batch_size req])) \<and>
    (oram_room pr nb (oh_oram (sh_table shard)) \<longrightarrow> oram_room pr nb (oh_oram (sh_table shard')) \<and>
      (rq_err req' = err_SUCCESS \<or> rq_err req' = err_OHTABLE__TABLE_FULL))"
proof -
  have t: "ohtable_ok pr nb (sh_table shard)" "unat (sh_record_size_qwords shard) = 7" using assms(1) by (simp_all add: shard_ok_def)
  have r: "rq_records req = Some records" "rq_err req = err_SUCCESS" using assms(2) by (simp_all add: batch_ok_def)
  show ?thesis
    using oht.insert_batch_result [OF t(1) batch_ok_records [OF assms(2)], of "rq_err req" rnd] t r assms(1)
    by (auto simp: shard_handle_request_def assms(3) shard_ok_def shard_waiter_finish_def)
qed

lemma handle_query:
  assumes "shard_ok pr nb shard" "batch_ok req records" "rq_type req = shard_request_query"
  shows "\<exists>shard' req' rnd'. shard_handle_request pr shard req rnd = Some (shard', req', rnd') \<and>
    (rq_err req' = err_SUCCESS \<longrightarrow> shard_ok pr nb shard' \<and> oh_map nb (sh_table shard') = oh_map nb (sh_table shard) \<and>
      (covered nb (sh_table shard') \<longleftrightarrow> covered nb (sh_table shard)) \<and>
      (\<exists>out. rq_records req' = Some out \<and> length out = length records \<and>
        (covered nb (sh_table shard) \<longrightarrow> (\<forall>i < rq_batch_size req. answers (oh_map nb (sh_table shard)) (batch_record 7 records i) (batch_record 7 out i))))) \<and>
    (oram_room pr nb (oh_oram (sh_table shard)) \<longrightarrow> oram_room pr nb (oh_oram (sh_table shard')) \<and> rq_err req' = err_SUCCESS)"
proof -
  have t: "ohtable_ok pr nb (sh_table shard)" "unat (sh_record_size_qwords shard) = 7" using assms(1) by (simp_all add: shard_ok_def)
  have r: "rq_records req = Some records" "rq_err req = err_SUCCESS" using assms(2) by (simp_all add: batch_ok_def)
  show ?thesis
    using oht.query_batch_result [OF t(1) _ batch_ok_records [OF assms(2)], of "rq_err req" rnd] t r assms(1)
    by (auto simp: shard_handle_request_def assms(3) shard_ok_def shard_waiter_finish_def)
qed

lemma clear_room: "oram_room pr nb orm \<Longrightarrow> oram_room pr nb (oram_clear orm)"
  by (simp add: oram_room_def oram_clear_def set_state_def stash_clear_def Let_def split: prod.splits)

lemma zero_record:
  assumes "shard_ok pr nb shard" "\<not> is_full (sh_table shard)"
  shows "\<exists>shard' rnd'. shard_add_zero_record pr shard rnd = Some (shard', rnd') \<and>
    (oram_room pr nb (oh_oram (sh_table shard)) \<longrightarrow> shard_ok pr nb shard' \<and> oram_room pr nb (oh_oram (sh_table shard')) \<and>
      oh_map nb (sh_table shard') = (oh_map nb (sh_table shard))(0 \<mapsto> replicate 7 0))"
proof -
  have t: "ohtable_ok pr nb (sh_table shard)" "unat (sh_record_size_qwords shard) = 7" using assms(1) by (simp_all add: shard_ok_def)
  have "length (replicate 7 0 :: u64 list) = 7" "rec_key (replicate 7 0) \<noteq> UINT64_MAX" by simp_all
  from ohtable_put_result [OF t(1) this assms(2), of rnd] show ?thesis
    using t(2) assms(1) by (auto simp: shard_add_zero_record_def shard_ok_def split: if_splits)
qed

lemma handle_clear:
  assumes "shard_ok pr nb shard" "rq_type req = shard_request_clear"
  shows "\<exists>shard' req' rnd'. shard_handle_request pr shard req rnd = Some (shard', req', rnd') \<and> rq_err req' = rq_err req \<and>
    (oram_room pr nb (oh_oram (sh_table shard)) \<longrightarrow> shard_ok pr nb shard' \<and> oram_room pr nb (oh_oram (sh_table shard')) \<and>
      oh_map nb (sh_table shard') = [0 \<mapsto> replicate 7 0] \<and> covered nb (sh_table shard'))"
proof -
  let ?s = "shard\<lparr>sh_table := ohtable_clear (sh_table shard)\<rparr>"
  have t: "ohtable_ok pr nb (sh_table shard)" using assms(1) by (simp add: shard_ok_def)
  have s: "shard_ok pr nb ?s" "\<not> is_full (sh_table ?s)" "oh_map nb (sh_table ?s) = Map.empty"
    using ohtable_clear_result [OF t] assms(1) by (simp_all add: shard_ok_def is_full_def ohtable_clear_def)
  have room: "oram_room pr nb (oh_oram (sh_table shard)) \<longrightarrow> oram_room pr nb (oh_oram (sh_table ?s))"
    using clear_room by (simp add: ohtable_clear_def)
  obtain shard' rnd' where z: "shard_add_zero_record pr ?s rnd = Some (shard', rnd')"
      "oram_room pr nb (oh_oram (sh_table ?s)) \<longrightarrow> shard_ok pr nb shard' \<and> oram_room pr nb (oh_oram (sh_table shard')) \<and>
        oh_map nb (sh_table shard') = [0 \<mapsto> replicate 7 0]"
    using zero_record [OF s(1,2), of rnd] s(3) by auto
  then show ?thesis using room assms(2) singleton_covered [of pr nb "sh_table shard'" 0 "replicate 7 0"]
    by (auto simp: shard_handle_request_def shard_do_clear_def shard_waiter_finish_def shard_ok_def)
qed

end
