(* ===== verification/ShardDemo.thy ===== *)
theory ShardDemo
  imports ShardWorker ShardBatch OHTableDemo
begin

text \<open>A shard with the small hash table: the concrete instance of the theorems on shards.\<close>

definition demo_shard :: shard where
  "demo_shard = \<lparr>sh_lb = 0, sh_ub = UINT64_MAX, sh_record_size_qwords = 7, sh_keep_alive = False, sh_table = demo_ohtable,
     sh_requests = queue_create, sh_running = SHARD_WORKER_IDLE\<rparr>"

lemma demo_shard_ready: "shard_ready demo_shard"
  using queue_create_inv by (simp add: shard_ready_def demo_shard_def) (simp add: queue_create_def)

lemma demo_shard_ok: "shard_ok demo_params 2 demo_shard"
  using demo_ohtable(1) by (simp add: shard_ok_def demo_shard_def)

lemma demo_batch: "batch_ok (shard_insert (replicate 7 1) 1) (replicate 7 1)" "batch_ok (shard_query (replicate 7 1) 1) (replicate 7 1)"
  by (simp_all add: batch_ok_def shard_insert_def shard_query_def shard_request_create_def)

end
