(* ===== verification/PbEncode.thy ===== *)
theory PbEncode
  imports Bytes "HOL-Library.Monad_Syntax"
begin

text \<open>
  The encoder of protocol buffers (\<^verbatim>\<open>proto/pbtools.c\<close>). A message is written from the end of a buffer to its
  front; an encoder that has run out of room keeps the error in place of its size and position.

  \<open>int32_t\<close> and \<open>uint32_t\<close> are words of 32 bits, \<open>float\<close> and \<open>double\<close> the words of their representation, a C string
  its bytes up to the terminating zero. An \<open>int\<close> of the encoder's state is an integer; \<open>to_int\<close> is the
  conversion of a \<open>size_t\<close>. \<open>None\<close> stands for undefined behaviour: a copy outside of the buffer.

  Proved: every operation puts the bytes of its field in front of what was written before, if there is room
  for them, and otherwise leaves the error of a full buffer.
\<close>

section \<open>Definitions\<close>

type_synonym i32 = "32 word"
type_synonym i64 = "64 word"

definition to_int :: "size_t \<Rightarrow> int" where
  "to_int x = sint (ucast x :: 32 word)"

abbreviation (input) PBTOOLS_BAD_WIRE_TYPE :: int where "PBTOOLS_BAD_WIRE_TYPE \<equiv> 1"
abbreviation (input) PBTOOLS_OUT_OF_DATA :: int where "PBTOOLS_OUT_OF_DATA \<equiv> 2"
abbreviation (input) PBTOOLS_OUT_OF_MEMORY :: int where "PBTOOLS_OUT_OF_MEMORY \<equiv> 3"
abbreviation (input) PBTOOLS_ENCODE_BUFFER_FULL :: int where "PBTOOLS_ENCODE_BUFFER_FULL \<equiv> 4"
abbreviation (input) PBTOOLS_BAD_FIELD_NUMBER :: int where "PBTOOLS_BAD_FIELD_NUMBER \<equiv> 5"
abbreviation (input) PBTOOLS_VARINT_OVERFLOW :: int where "PBTOOLS_VARINT_OVERFLOW \<equiv> 6"
abbreviation (input) PBTOOLS_SEEK_OVERFLOW :: int where "PBTOOLS_SEEK_OVERFLOW \<equiv> 7"
abbreviation (input) PBTOOLS_LENGTH_DELIMITED_OVERFLOW :: int where "PBTOOLS_LENGTH_DELIMITED_OVERFLOW \<equiv> 8"

abbreviation (input) PBTOOLS_WIRE_TYPE_VARINT :: u32 where "PBTOOLS_WIRE_TYPE_VARINT \<equiv> 0"
abbreviation (input) PBTOOLS_WIRE_TYPE_64_BIT :: u32 where "PBTOOLS_WIRE_TYPE_64_BIT \<equiv> 1"
abbreviation (input) PBTOOLS_WIRE_TYPE_LENGTH_DELIMITED :: u32 where "PBTOOLS_WIRE_TYPE_LENGTH_DELIMITED \<equiv> 2"
abbreviation (input) PBTOOLS_WIRE_TYPE_32_BIT :: u32 where "PBTOOLS_WIRE_TYPE_32_BIT \<equiv> 5"

record pbtools_encoder =
  en_buf :: "u8 list"
  en_size :: int
  en_pos :: int

definition encoder_init :: "u8 list \<Rightarrow> size_t \<Rightarrow> pbtools_encoder" where
  "encoder_init buf n = \<lparr>en_buf = buf, en_size = to_int n, en_pos = to_int n - 1\<rparr>"

text \<open>The result is moved to the front of the buffer.\<close>

definition encoder_get_result :: "pbtools_encoder \<Rightarrow> int \<times> u8 list" where
  "encoder_get_result self =
     (if en_pos self \<ge> 0 then
        let length = en_size self - en_pos self - 1
        in (length, mem_write (en_buf self) 0 (mem_read (en_buf self) (nat (en_pos self + 1)) (nat length)))
      else (en_pos self, en_buf self))"

definition encoder_abort :: "pbtools_encoder \<Rightarrow> int \<Rightarrow> pbtools_encoder" where
  "encoder_abort self error = (if en_size self \<ge> 0 then self\<lparr>en_size := - error, en_pos := - error\<rparr> else self)"

definition encoder_write :: "pbtools_encoder \<Rightarrow> u8 list \<Rightarrow> pbtools_encoder option" where
  "encoder_write self buf = (
     let size = to_int (of_nat (length buf))
     in if en_pos self \<ge> size then
          (let pos = en_pos self - size
           in if size < 0 \<or> int (length (en_buf self)) < pos + 1 + size then None
              else Some (self\<lparr>en_pos := pos, en_buf := mem_write (en_buf self) (nat (pos + 1)) buf\<rparr>))
        else Some (encoder_abort self PBTOOLS_ENCODE_BUFFER_FULL))"

function varint_digits :: "u64 \<Rightarrow> u8 list" where
  "varint_digits value = ucast (value OR 0x80) # (if drop_bit 7 value > 0 then varint_digits (drop_bit 7 value) else [])"
  by pat_completeness auto
termination
  by (relation "measure unat") (auto simp: unat_drop_bit_64 word_less_nat_alt div_less_dividend)

definition encoder_write_varint :: "pbtools_encoder \<Rightarrow> u64 \<Rightarrow> pbtools_encoder option" where
  "encoder_write_varint self value = (
     let buf = varint_digits value; pos = length buf
     in encoder_write self (buf[pos - 1 := buf ! (pos - 1) AND 0x7f]))"

definition encoder_write_tag :: "pbtools_encoder \<Rightarrow> u32 \<Rightarrow> u32 \<Rightarrow> pbtools_encoder option" where
  "encoder_write_tag self field_number wire_type =
     encoder_write_varint self (ucast (push_bit 3 field_number) OR ucast wire_type)"

definition encoder_write_tagged_varint :: "pbtools_encoder \<Rightarrow> u32 \<Rightarrow> u32 \<Rightarrow> u64 \<Rightarrow> pbtools_encoder option" where
  "encoder_write_tagged_varint self field_number wire_type value =
     (if value > 0 then do {
        self \<leftarrow> encoder_write_varint self value;
        encoder_write_tag self field_number wire_type
      } else Some self)"

definition encoder_write_tagged_varint_always :: "pbtools_encoder \<Rightarrow> u32 \<Rightarrow> u32 \<Rightarrow> u64 \<Rightarrow> pbtools_encoder option" where
  "encoder_write_tagged_varint_always self field_number wire_type value = do {
     self \<leftarrow> encoder_write_varint self value;
     encoder_write_tag self field_number wire_type
   }"

definition encoder_write_length_delimited :: "pbtools_encoder \<Rightarrow> u32 \<Rightarrow> u64 \<Rightarrow> pbtools_encoder option" where
  "encoder_write_length_delimited self field_number value = do {
     self \<leftarrow> encoder_write_varint self value;
     encoder_write_tag self field_number PBTOOLS_WIRE_TYPE_LENGTH_DELIMITED
   }"

subsection \<open>Signed integers\<close>

definition sint32_encode :: "i32 \<Rightarrow> u32" where
  "sint32_encode value = (if value <s 0 then NOT (push_bit 1 value) else push_bit 1 value)"

definition sint32_decode :: "u64 \<Rightarrow> i32" where
  "sint32_decode value = ucast (if value AND 1 \<noteq> 0 then NOT (drop_bit 1 value) else drop_bit 1 value)"

definition sint64_encode :: "i64 \<Rightarrow> u64" where
  "sint64_encode value = (if value <s 0 then NOT (push_bit 1 value) else push_bit 1 value)"

definition sint64_decode :: "u64 \<Rightarrow> i64" where
  "sint64_decode value = (if value AND 1 \<noteq> 0 then NOT (drop_bit 1 value) else drop_bit 1 value)"

definition encoder_write_32_bit_value :: "pbtools_encoder \<Rightarrow> u32 \<Rightarrow> pbtools_encoder option" where
  "encoder_write_32_bit_value self value =
     encoder_write self [ucast (value AND 0xff), ucast (drop_bit 8 value AND 0xff), ucast (drop_bit 16 value AND 0xff),
       ucast (drop_bit 24 value AND 0xff)]"

definition encoder_write_64_bit_value :: "pbtools_encoder \<Rightarrow> u64 \<Rightarrow> pbtools_encoder option" where
  "encoder_write_64_bit_value self value =
     encoder_write self [ucast (value AND 0xff), ucast (drop_bit 8 value AND 0xff), ucast (drop_bit 16 value AND 0xff),
       ucast (drop_bit 24 value AND 0xff), ucast (drop_bit 32 value AND 0xff), ucast (drop_bit 40 value AND 0xff),
       ucast (drop_bit 48 value AND 0xff), ucast (drop_bit 56 value AND 0xff)]"

subsection \<open>Fields\<close>

definition pbtools_encoder_write_int32 :: "pbtools_encoder \<Rightarrow> u32 \<Rightarrow> i32 \<Rightarrow> pbtools_encoder option" where
  "pbtools_encoder_write_int32 self field_number value =
     encoder_write_tagged_varint self field_number PBTOOLS_WIRE_TYPE_VARINT (scast value)"

definition pbtools_encoder_write_int64 :: "pbtools_encoder \<Rightarrow> u32 \<Rightarrow> i64 \<Rightarrow> pbtools_encoder option" where
  "pbtools_encoder_write_int64 self field_number value =
     encoder_write_tagged_varint self field_number PBTOOLS_WIRE_TYPE_VARINT value"

definition pbtools_encoder_write_uint64 :: "pbtools_encoder \<Rightarrow> u32 \<Rightarrow> u64 \<Rightarrow> pbtools_encoder option" where
  "pbtools_encoder_write_uint64 self field_number value =
     encoder_write_tagged_varint self field_number PBTOOLS_WIRE_TYPE_VARINT value"

definition pbtools_encoder_write_sint64 :: "pbtools_encoder \<Rightarrow> u32 \<Rightarrow> i64 \<Rightarrow> pbtools_encoder option" where
  "pbtools_encoder_write_sint64 self field_number value = pbtools_encoder_write_uint64 self field_number (sint64_encode value)"

definition pbtools_encoder_write_sint32 :: "pbtools_encoder \<Rightarrow> u32 \<Rightarrow> i32 \<Rightarrow> pbtools_encoder option" where
  "pbtools_encoder_write_sint32 self field_number value = pbtools_encoder_write_sint64 self field_number (scast value)"

definition pbtools_encoder_write_uint32 :: "pbtools_encoder \<Rightarrow> u32 \<Rightarrow> u32 \<Rightarrow> pbtools_encoder option" where
  "pbtools_encoder_write_uint32 self field_number value = pbtools_encoder_write_uint64 self field_number (ucast value)"

definition pbtools_encoder_write_fixed32 :: "pbtools_encoder \<Rightarrow> u32 \<Rightarrow> u32 \<Rightarrow> pbtools_encoder option" where
  "pbtools_encoder_write_fixed32 self field_number value =
     (if value \<noteq> 0 then do {
        self \<leftarrow> encoder_write_32_bit_value self value;
        encoder_write_tag self field_number PBTOOLS_WIRE_TYPE_32_BIT
      } else Some self)"

definition pbtools_encoder_write_fixed64 :: "pbtools_encoder \<Rightarrow> u32 \<Rightarrow> u64 \<Rightarrow> pbtools_encoder option" where
  "pbtools_encoder_write_fixed64 self field_number value =
     (if value \<noteq> 0 then do {
        self \<leftarrow> encoder_write_64_bit_value self value;
        encoder_write_tag self field_number PBTOOLS_WIRE_TYPE_64_BIT
      } else Some self)"

definition pbtools_encoder_write_sfixed32 :: "pbtools_encoder \<Rightarrow> u32 \<Rightarrow> i32 \<Rightarrow> pbtools_encoder option" where
  "pbtools_encoder_write_sfixed32 self field_number value = pbtools_encoder_write_fixed32 self field_number value"

definition pbtools_encoder_write_sfixed64 :: "pbtools_encoder \<Rightarrow> u32 \<Rightarrow> i64 \<Rightarrow> pbtools_encoder option" where
  "pbtools_encoder_write_sfixed64 self field_number value = pbtools_encoder_write_fixed64 self field_number value"

definition pbtools_encoder_write_float :: "pbtools_encoder \<Rightarrow> u32 \<Rightarrow> u32 \<Rightarrow> pbtools_encoder option" where
  "pbtools_encoder_write_float self field_number data = pbtools_encoder_write_fixed32 self field_number data"

definition pbtools_encoder_write_double :: "pbtools_encoder \<Rightarrow> u32 \<Rightarrow> u64 \<Rightarrow> pbtools_encoder option" where
  "pbtools_encoder_write_double self field_number data = pbtools_encoder_write_fixed64 self field_number data"

definition pbtools_encoder_write_bool :: "pbtools_encoder \<Rightarrow> u32 \<Rightarrow> bool \<Rightarrow> pbtools_encoder option" where
  "pbtools_encoder_write_bool self field_number value =
     (if value then pbtools_encoder_write_int32 self field_number 1 else Some self)"

definition pbtools_encoder_write_enum :: "pbtools_encoder \<Rightarrow> u32 \<Rightarrow> i32 \<Rightarrow> pbtools_encoder option" where
  "pbtools_encoder_write_enum self field_number value = pbtools_encoder_write_int32 self field_number value"

definition pbtools_encoder_write_string :: "pbtools_encoder \<Rightarrow> u32 \<Rightarrow> u8 list \<Rightarrow> pbtools_encoder option" where
  "pbtools_encoder_write_string self field_number value =
     (if length value > 0 then do {
        self \<leftarrow> encoder_write self value;
        encoder_write_tagged_varint self field_number PBTOOLS_WIRE_TYPE_LENGTH_DELIMITED (of_nat (length value))
      } else Some self)"

definition pbtools_encoder_write_bytes :: "pbtools_encoder \<Rightarrow> u32 \<Rightarrow> u8 list \<Rightarrow> pbtools_encoder option" where
  "pbtools_encoder_write_bytes self field_number value =
     (if length value > 0 then do {
        self \<leftarrow> encoder_write self value;
        encoder_write_tagged_varint self field_number PBTOOLS_WIRE_TYPE_LENGTH_DELIMITED (of_nat (length value))
      } else Some self)"

subsection \<open>Fields that are written in any case\<close>

definition pbtools_encoder_write_int32_always :: "pbtools_encoder \<Rightarrow> u32 \<Rightarrow> i32 \<Rightarrow> pbtools_encoder option" where
  "pbtools_encoder_write_int32_always self field_number value =
     encoder_write_tagged_varint_always self field_number PBTOOLS_WIRE_TYPE_VARINT (scast value)"

definition pbtools_encoder_write_int64_always :: "pbtools_encoder \<Rightarrow> u32 \<Rightarrow> i64 \<Rightarrow> pbtools_encoder option" where
  "pbtools_encoder_write_int64_always self field_number value =
     encoder_write_tagged_varint_always self field_number PBTOOLS_WIRE_TYPE_VARINT value"

definition pbtools_encoder_write_uint64_always :: "pbtools_encoder \<Rightarrow> u32 \<Rightarrow> u64 \<Rightarrow> pbtools_encoder option" where
  "pbtools_encoder_write_uint64_always self field_number value =
     encoder_write_tagged_varint_always self field_number PBTOOLS_WIRE_TYPE_VARINT value"

definition pbtools_encoder_write_sint64_always :: "pbtools_encoder \<Rightarrow> u32 \<Rightarrow> i64 \<Rightarrow> pbtools_encoder option" where
  "pbtools_encoder_write_sint64_always self field_number value =
     pbtools_encoder_write_uint64_always self field_number (sint64_encode value)"

definition pbtools_encoder_write_sint32_always :: "pbtools_encoder \<Rightarrow> u32 \<Rightarrow> i32 \<Rightarrow> pbtools_encoder option" where
  "pbtools_encoder_write_sint32_always self field_number value = pbtools_encoder_write_sint64_always self field_number (scast value)"

definition pbtools_encoder_write_uint32_always :: "pbtools_encoder \<Rightarrow> u32 \<Rightarrow> u32 \<Rightarrow> pbtools_encoder option" where
  "pbtools_encoder_write_uint32_always self field_number value = pbtools_encoder_write_uint64_always self field_number (ucast value)"

definition pbtools_encoder_write_fixed32_always :: "pbtools_encoder \<Rightarrow> u32 \<Rightarrow> u32 \<Rightarrow> pbtools_encoder option" where
  "pbtools_encoder_write_fixed32_always self field_number value = do {
     self \<leftarrow> encoder_write_32_bit_value self value;
     encoder_write_tag self field_number PBTOOLS_WIRE_TYPE_32_BIT
   }"

definition pbtools_encoder_write_fixed64_always :: "pbtools_encoder \<Rightarrow> u32 \<Rightarrow> u64 \<Rightarrow> pbtools_encoder option" where
  "pbtools_encoder_write_fixed64_always self field_number value = do {
     self \<leftarrow> encoder_write_64_bit_value self value;
     encoder_write_tag self field_number PBTOOLS_WIRE_TYPE_64_BIT
   }"

definition pbtools_encoder_write_sfixed32_always :: "pbtools_encoder \<Rightarrow> u32 \<Rightarrow> i32 \<Rightarrow> pbtools_encoder option" where
  "pbtools_encoder_write_sfixed32_always self field_number value = pbtools_encoder_write_fixed32_always self field_number value"

definition pbtools_encoder_write_sfixed64_always :: "pbtools_encoder \<Rightarrow> u32 \<Rightarrow> i64 \<Rightarrow> pbtools_encoder option" where
  "pbtools_encoder_write_sfixed64_always self field_number value = pbtools_encoder_write_fixed64_always self field_number value"

definition pbtools_encoder_write_float_always :: "pbtools_encoder \<Rightarrow> u32 \<Rightarrow> u32 \<Rightarrow> pbtools_encoder option" where
  "pbtools_encoder_write_float_always self field_number data = pbtools_encoder_write_fixed32_always self field_number data"

definition pbtools_encoder_write_double_always :: "pbtools_encoder \<Rightarrow> u32 \<Rightarrow> u64 \<Rightarrow> pbtools_encoder option" where
  "pbtools_encoder_write_double_always self field_number data = pbtools_encoder_write_fixed64_always self field_number data"

definition pbtools_encoder_write_bool_always :: "pbtools_encoder \<Rightarrow> u32 \<Rightarrow> bool \<Rightarrow> pbtools_encoder option" where
  "pbtools_encoder_write_bool_always self field_number value =
     pbtools_encoder_write_int32_always self field_number (if value then 1 else 0)"

definition pbtools_encoder_write_enum_always :: "pbtools_encoder \<Rightarrow> u32 \<Rightarrow> i32 \<Rightarrow> pbtools_encoder option" where
  "pbtools_encoder_write_enum_always self field_number value = pbtools_encoder_write_int32_always self field_number value"

definition pbtools_encoder_write_string_always :: "pbtools_encoder \<Rightarrow> u32 \<Rightarrow> u8 list \<Rightarrow> pbtools_encoder option" where
  "pbtools_encoder_write_string_always self field_number value = do {
     self \<leftarrow> encoder_write self value;
     encoder_write_tagged_varint_always self field_number PBTOOLS_WIRE_TYPE_LENGTH_DELIMITED (of_nat (length value))
   }"

definition pbtools_encoder_write_bytes_always :: "pbtools_encoder \<Rightarrow> u32 \<Rightarrow> u8 list \<Rightarrow> pbtools_encoder option" where
  "pbtools_encoder_write_bytes_always self field_number value = do {
     self \<leftarrow> encoder_write self value;
     encoder_write_tagged_varint_always self field_number PBTOOLS_WIRE_TYPE_LENGTH_DELIMITED (of_nat (length value))
   }"

section \<open>What is written\<close>

subsection \<open>Sizes\<close>

abbreviation (input) INT_MAX :: nat where "INT_MAX \<equiv> 2147483647"

lemma to_int_small:
  assumes "uint x \<le> int INT_MAX"
  shows "to_int x = uint x"
proof -
  have "uint (ucast x :: 32 word) = uint x"
    using assms by (simp add: unsigned_ucast_eq take_bit_int_eq_self)
  moreover have "signed_take_bit 31 (uint x) = uint x"
    using assms order_trans [OF _ uint_ge_0, of "- (2 ^ 31)" x] by (intro signed_take_bit_int_eq_self) simp_all
  ultimately show ?thesis
    by (simp add: to_int_def sint_uint)
qed

lemma uint_of_nat_64: "n < 18446744073709551616 \<Longrightarrow> uint (of_nat n :: u64) = int n"
  by (simp add: uint_nat unat_of_nat_64 del: of_nat_unat)

lemma to_int_of_nat [simp]: "n \<le> INT_MAX \<Longrightarrow> to_int (of_nat n) = int n"
  by (subst to_int_small) (simp_all add: uint_of_nat_64)

subsection \<open>The state of an encoder\<close>

text \<open>
  A good encoder has a position inside of its buffer, what has been written stands behind it; a full one has the error
  as its size and its position.
\<close>

definition encoder_good :: "pbtools_encoder \<Rightarrow> bool" where
  "encoder_good e \<longleftrightarrow> 0 \<le> en_pos e \<and> en_pos e < en_size e \<and> en_size e = int (length (en_buf e)) \<and> length (en_buf e) \<le> INT_MAX"

definition encoder_full :: "pbtools_encoder \<Rightarrow> bool" where
  "encoder_full e \<longleftrightarrow> en_size e = - PBTOOLS_ENCODE_BUFFER_FULL \<and> en_pos e = - PBTOOLS_ENCODE_BUFFER_FULL"

definition written :: "pbtools_encoder \<Rightarrow> u8 list" where
  "written e = drop (nat (en_pos e + 1)) (en_buf e)"

definition wrote :: "u8 list \<Rightarrow> pbtools_encoder \<Rightarrow> pbtools_encoder \<Rightarrow> bool" where
  "wrote bs e e' \<longleftrightarrow>
     (if encoder_good e \<and> int (length bs) \<le> en_pos e
      then encoder_good e' \<and> written e' = bs @ written e \<and> en_pos e' = en_pos e - int (length bs)
        \<and> length (en_buf e') = length (en_buf e)
      else encoder_full e' \<and> length (en_buf e') = length (en_buf e))"

text \<open>An operation writes some bytes when it does so from every state.\<close>

definition writes :: "(pbtools_encoder \<Rightarrow> pbtools_encoder option) \<Rightarrow> u8 list \<Rightarrow> bool" where
  "writes f bs \<longleftrightarrow> (\<forall>e. encoder_good e \<or> encoder_full e \<longrightarrow> (\<exists>e'. f e = Some e' \<and> wrote bs e e'))"

lemma wrote_state: "wrote bs e e' \<Longrightarrow> encoder_good e' \<or> encoder_full e'"
  by (auto simp: wrote_def split: if_splits)

lemma not_good_and_full: "encoder_full e \<Longrightarrow> \<not> encoder_good e"
  by (auto simp: encoder_good_def encoder_full_def)

lemma wrote_trans:
  assumes "wrote a e e1" "wrote b e1 e2"
  shows "wrote (b @ a) e e2"
proof (cases "encoder_good e \<and> int (length a) \<le> en_pos e")
  case True
  then show ?thesis
    using assms by (auto simp: wrote_def algebra_simps)
next
  case False
  then have "encoder_full e1" and "length (en_buf e1) = length (en_buf e)"
    using assms(1) by (simp_all add: wrote_def split: if_splits)
  then have "encoder_full e2 \<and> length (en_buf e2) = length (en_buf e)"
    using assms(2) not_good_and_full [of e1] by (simp add: wrote_def)
  moreover have "\<not> (encoder_good e \<and> int (length (b @ a)) \<le> en_pos e)"
    using False by auto
  ultimately show ?thesis
    by (auto simp: wrote_def)
qed

lemma wrote_refl: "encoder_good e \<or> encoder_full e \<Longrightarrow> wrote [] e e"
  by (auto simp: wrote_def encoder_good_def)

named_theorems pb_writes \<open>what the operations of the encoder write\<close>

lemma writes_nothing [pb_writes]: "writes Some []"
  by (simp add: writes_def wrote_refl)

lemma writes_bind:
  assumes "writes f a" "writes g b"
  shows "writes (\<lambda>e. f e \<bind> g) (b @ a)"
  unfolding writes_def
proof (intro allI impI)
  fix e assume "encoder_good e \<or> encoder_full e"
  then obtain e1 where e1: "f e = Some e1" "wrote a e e1"
    using assms(1) by (auto simp: writes_def)
  then obtain e2 where "g e1 = Some e2" "wrote b e1 e2"
    using assms(2) wrote_state [OF e1(2)] by (auto simp: writes_def)
  then show "\<exists>e'. f e \<bind> g = Some e' \<and> wrote (b @ a) e e'"
    using e1 wrote_trans by auto
qed

lemma encoder_write_writes [pb_writes]:
  assumes "length bs \<le> INT_MAX"
  shows "writes (\<lambda>e. encoder_write e bs) bs"
  unfolding writes_def
proof (intro allI impI)
  fix e assume st: "encoder_good e \<or> encoder_full e"
  have n: "to_int (of_nat (length bs)) = int (length bs)"
    using assms by simp
  show "\<exists>e'. encoder_write e bs = Some e' \<and> wrote bs e e'"
  proof (cases "encoder_good e \<and> int (length bs) \<le> en_pos e")
    case True
    define p where "p = nat (en_pos e - int (length bs) + 1)"
    have p: "int p = en_pos e - int (length bs) + 1" "p + length bs = nat (en_pos e + 1)"
      "p + length bs \<le> length (en_buf e)"
      using True by (auto simp: p_def encoder_good_def)
    have "drop p (mem_write (en_buf e) p bs) = bs @ drop (nat (en_pos e + 1)) (en_buf e)"
      using p by (simp add: mem_write_def)
    then show ?thesis
      using True n p by (auto simp: encoder_write_def Let_def wrote_def encoder_good_def written_def p_def)
  next
    case False
    then have "en_pos e < int (length bs)"
      using st by (auto simp: encoder_full_def)
    moreover have "encoder_full (encoder_abort e PBTOOLS_ENCODE_BUFFER_FULL)"
      using st by (auto simp: encoder_full_def encoder_abort_def encoder_good_def)
    moreover have "length (en_buf (encoder_abort e PBTOOLS_ENCODE_BUFFER_FULL)) = length (en_buf e)"
      by (simp add: encoder_abort_def)
    ultimately show ?thesis
      using False n by (simp add: encoder_write_def wrote_def)
  qed
qed

subsection \<open>Variable length integers\<close>

definition varint_bytes :: "u64 \<Rightarrow> u8 list" where
  "varint_bytes value = (let buf = varint_digits value; pos = length buf in buf[pos - 1 := buf ! (pos - 1) AND 0x7f])"

declare varint_digits.simps [simp del]

lemma varint_digits_not_Nil [simp]: "varint_digits v \<noteq> []"
  by (subst varint_digits.simps) simp

lemma length_varint_digits: "unat v < 128 ^ n \<Longrightarrow> 0 < n \<Longrightarrow> length (varint_digits v) \<le> n"
proof (induction n arbitrary: v)
  case (Suc n)
  show ?case
  proof (cases "drop_bit 7 v > 0")
    case True
    have "unat (drop_bit 7 v) < 128 ^ n"
      using Suc.prems(1) by (simp add: unat_drop_bit_64 less_mult_imp_div_less mult.commute)
    moreover have "0 < n"
      using True Suc.prems(1) by (cases n) (simp_all add: word_less_nat_alt unat_drop_bit_64)
    ultimately show ?thesis
      using Suc.IH by (subst varint_digits.simps) simp
  qed (subst varint_digits.simps, simp)
qed simp

lemma length_varint_bytes: "length (varint_bytes v) \<le> 10"
proof -
  have "unat v < 128 ^ 10"
    by (rule less_trans [OF unat_lt_64]) simp
  then show ?thesis
    using length_varint_digits [of v 10] by (simp add: varint_bytes_def Let_def)
qed

lemma varint_bytes_rec:
  "varint_bytes v = (if drop_bit 7 v > 0 then ucast (v OR 0x80) # varint_bytes (drop_bit 7 v) else [ucast v AND 0x7f])"
proof (cases "drop_bit 7 v > 0")
  case True
  obtain b bs where "varint_digits (drop_bit 7 v) = b # bs"
    by (cases "varint_digits (drop_bit 7 v)") simp_all
  then show ?thesis
    using True by (simp add: varint_bytes_def varint_digits.simps [of v] Let_def nth_Cons')
next
  case False
  have "(ucast (v OR 0x80) :: u8) AND 0x7f = ucast v AND 0x7f"
    by (simp add: unsigned_or_eq bit.conj_disj_distrib2)
  then show ?thesis
    using False by (simp add: varint_bytes_def varint_digits.simps [of v] Let_def)
qed

lemma encoder_write_varint_writes [pb_writes]: "writes (\<lambda>e. encoder_write_varint e v) (varint_bytes v)"
  using encoder_write_writes [of "varint_bytes v"] length_varint_bytes [of v]
  by (simp add: encoder_write_varint_def varint_bytes_def Let_def)

subsection \<open>Signed integers\<close>

lemma and_1_neq_0: "(v :: 'a :: len word) AND 1 \<noteq> 0 \<longleftrightarrow> bit v 0"
  by (simp add: and_one_eq bit_0 odd_iff_mod_2_eq_one)

lemma ucast_scast_32 [simp]: "ucast (scast (v :: i32) :: i64) = v"
proof (rule bit_word_eqI)
  fix n assume n: "n < LENGTH(32)"
  then have "min 31 n = n" by simp
  then show "bit (ucast (scast v :: i64) :: i32) n = bit v n"
    using n by (simp add: bit_simps)
qed

lemma scast_eq_0_iff: "scast (v :: i32) = (0 :: i64) \<longleftrightarrow> v = 0"
  by (metis ucast_scast_32 ucast_0 scast_0)

lemma ucast_eq_0_iff_32: "ucast (v :: u32) = (0 :: u64) \<longleftrightarrow> v = 0"
proof -
  have "unat v < 2 ^ LENGTH(32)"
    by (rule unsigned_less)
  then have "unat v < 2 ^ 64"
    by (rule order.strict_trans) simp
  then show ?thesis
    by (simp flip: unat_eq_zero add: unsigned_ucast_eq take_bit_nat_eq_self)
qed

lemma sless_0_iff: "(v :: 'a :: len word) <s 0 \<longleftrightarrow> bit v (LENGTH('a) - 1)"
  by (simp add: word_sless_alt sint_uint bit_uint_iff)

lemma bit_push_1: "bit (push_bit 1 (v :: 'a :: len word)) n \<longleftrightarrow> n < LENGTH('a) \<and> n \<noteq> 0 \<and> bit v (n - 1)"
  by (auto simp add: bit_push_bit_iff simp del: One_nat_def)

lemma bit_sint64_encode: "bit (sint64_encode v) n \<longleftrightarrow> n < 64 \<and> ((n \<noteq> 0 \<and> bit v (n - 1)) \<noteq> bit v 63)"
  unfolding sint64_encode_def
  by (simp only: sless_0_iff if_distrib [of "\<lambda>x. bit x n"] bit_not_iff bit_push_1) auto

lemma bit_sint64_decode: "bit (sint64_decode v) n \<longleftrightarrow> n < 64 \<and> (bit v (n + 1) \<noteq> bit v 0)"
  unfolding sint64_decode_def
  by (simp only: and_1_neq_0 if_distrib [of "\<lambda>x. bit x n"] bit_not_iff bit_drop_bit_eq) (auto dest: bit_imp_le_length)

lemma bit_sint32_encode: "bit (sint32_encode v) n \<longleftrightarrow> n < 32 \<and> ((n \<noteq> 0 \<and> bit v (n - 1)) \<noteq> bit v 31)"
  unfolding sint32_encode_def
  by (simp only: sless_0_iff if_distrib [of "\<lambda>x. bit x n"] bit_not_iff bit_push_1) auto

lemma sint32_decode_eq: "sint32_decode v = ucast (sint64_decode v)"
  by (simp add: sint32_decode_def sint64_decode_def)

lemma sint64_decode_encode [simp]: "sint64_decode (sint64_encode v) = v"
proof (rule bit_word_eqI)
  fix n assume "n < LENGTH(64)"
  then have "n < 63 \<or> n = 63" by auto
  then show "bit (sint64_decode (sint64_encode v)) n = bit v n"
    by (elim disjE) (auto simp: bit_sint64_decode bit_sint64_encode)
qed

lemma sint32_decode_encode [simp]: "sint32_decode (ucast (sint32_encode v)) = v"
proof (rule bit_word_eqI)
  fix n assume "n < LENGTH(32)"
  then have "n < 31 \<or> n = 31" by auto
  then show "bit (sint32_decode (ucast (sint32_encode v))) n = bit v n"
    by (elim disjE) (auto simp: sint32_decode_eq bit_simps bit_sint64_decode bit_sint32_encode)
qed

lemma sint64_encode_eq_0_iff: "sint64_encode v = 0 \<longleftrightarrow> v = 0"
  using sint64_decode_encode [of v] sint64_decode_encode [of 0] by (auto simp: sint64_encode_def sint64_decode_def)

subsection \<open>The bytes of the fields\<close>

definition tag_bytes :: "u32 \<Rightarrow> u32 \<Rightarrow> u8 list" where
  "tag_bytes field_number wire_type = varint_bytes (ucast (push_bit 3 field_number) OR ucast wire_type)"

definition fixed32_bytes :: "u32 \<Rightarrow> u8 list" where
  "fixed32_bytes value = [ucast (value AND 0xff), ucast (drop_bit 8 value AND 0xff), ucast (drop_bit 16 value AND 0xff),
     ucast (drop_bit 24 value AND 0xff)]"

definition fixed64_bytes :: "u64 \<Rightarrow> u8 list" where
  "fixed64_bytes value = [ucast (value AND 0xff), ucast (drop_bit 8 value AND 0xff), ucast (drop_bit 16 value AND 0xff),
     ucast (drop_bit 24 value AND 0xff), ucast (drop_bit 32 value AND 0xff), ucast (drop_bit 40 value AND 0xff),
     ucast (drop_bit 48 value AND 0xff), ucast (drop_bit 56 value AND 0xff)]"

definition varint_field :: "u32 \<Rightarrow> u64 \<Rightarrow> u8 list" where
  "varint_field field_number value = tag_bytes field_number PBTOOLS_WIRE_TYPE_VARINT @ varint_bytes value"

definition fixed32_field :: "u32 \<Rightarrow> u32 \<Rightarrow> u8 list" where
  "fixed32_field field_number value = tag_bytes field_number PBTOOLS_WIRE_TYPE_32_BIT @ fixed32_bytes value"

definition fixed64_field :: "u32 \<Rightarrow> u64 \<Rightarrow> u8 list" where
  "fixed64_field field_number value = tag_bytes field_number PBTOOLS_WIRE_TYPE_64_BIT @ fixed64_bytes value"

definition length_field :: "u32 \<Rightarrow> u8 list \<Rightarrow> u8 list" where
  "length_field field_number value =
     tag_bytes field_number PBTOOLS_WIRE_TYPE_LENGTH_DELIMITED @ varint_bytes (of_nat (length value)) @ value"

subsection \<open>What the operations write\<close>

lemma length_tag_bytes: "length (tag_bytes field_number wire_type) \<le> 10"
  by (simp add: tag_bytes_def length_varint_bytes)

lemma encoder_write_tag_writes [pb_writes]: "writes (\<lambda>e. encoder_write_tag e fn wt) (tag_bytes fn wt)"
  unfolding encoder_write_tag_def tag_bytes_def by (rule encoder_write_varint_writes)

lemma write_fixed_writes [pb_writes]:
  "writes (\<lambda>e. encoder_write_32_bit_value e v) (fixed32_bytes v)"
  "writes (\<lambda>e. encoder_write_64_bit_value e w) (fixed64_bytes w)"
  unfolding encoder_write_32_bit_value_def encoder_write_64_bit_value_def fixed32_bytes_def fixed64_bytes_def
  by (rule encoder_write_writes, simp)+

lemma encoder_write_tagged_varint_writes [pb_writes]:
  "writes (\<lambda>e. encoder_write_tagged_varint_always e fn wt v) (tag_bytes fn wt @ varint_bytes v)"
  "writes (\<lambda>e. encoder_write_tagged_varint e fn wt v) (if v = 0 then [] else tag_bytes fn wt @ varint_bytes v)"
  "writes (\<lambda>e. encoder_write_length_delimited e fn v)
     (tag_bytes fn PBTOOLS_WIRE_TYPE_LENGTH_DELIMITED @ varint_bytes v)"
  using writes_bind [OF encoder_write_varint_writes encoder_write_tag_writes, of v fn] writes_nothing
  by (simp_all add: encoder_write_tagged_varint_always_def encoder_write_tagged_varint_def
      encoder_write_length_delimited_def word_neq_0_conv)

lemma write_varint_fields_write [pb_writes]:
  "writes (\<lambda>e. pbtools_encoder_write_int32 e fn i) (if i = 0 then [] else varint_field fn (scast i))"
  "writes (\<lambda>e. pbtools_encoder_write_int64 e fn v) (if v = 0 then [] else varint_field fn v)"
  "writes (\<lambda>e. pbtools_encoder_write_sint32 e fn i) (if i = 0 then [] else varint_field fn (sint64_encode (scast i)))"
  "writes (\<lambda>e. pbtools_encoder_write_sint64 e fn v) (if v = 0 then [] else varint_field fn (sint64_encode v))"
  "writes (\<lambda>e. pbtools_encoder_write_uint32 e fn i) (if i = 0 then [] else varint_field fn (ucast i))"
  "writes (\<lambda>e. pbtools_encoder_write_uint64 e fn v) (if v = 0 then [] else varint_field fn v)"
  "writes (\<lambda>e. pbtools_encoder_write_enum e fn i) (if i = 0 then [] else varint_field fn (scast i))"
  "writes (\<lambda>e. pbtools_encoder_write_bool e fn b) (if b then varint_field fn 1 else [])"
proof -
  note w = encoder_write_tagged_varint_writes(2) [of fn PBTOOLS_WIRE_TYPE_VARINT, folded varint_field_def]
  show "writes (\<lambda>e. pbtools_encoder_write_int32 e fn i) (if i = 0 then [] else varint_field fn (scast i))"
    "writes (\<lambda>e. pbtools_encoder_write_int64 e fn v) (if v = 0 then [] else varint_field fn v)"
    "writes (\<lambda>e. pbtools_encoder_write_sint32 e fn i) (if i = 0 then [] else varint_field fn (sint64_encode (scast i)))"
    "writes (\<lambda>e. pbtools_encoder_write_sint64 e fn v) (if v = 0 then [] else varint_field fn (sint64_encode v))"
    "writes (\<lambda>e. pbtools_encoder_write_uint32 e fn i) (if i = 0 then [] else varint_field fn (ucast i))"
    "writes (\<lambda>e. pbtools_encoder_write_uint64 e fn v) (if v = 0 then [] else varint_field fn v)"
    "writes (\<lambda>e. pbtools_encoder_write_enum e fn i) (if i = 0 then [] else varint_field fn (scast i))"
    using w [of "scast i"] w [of v] w [of "sint64_encode v"] w [of "sint64_encode (scast i)"] w [of "ucast i"]
    by (simp_all only: pbtools_encoder_write_int32_def pbtools_encoder_write_int64_def pbtools_encoder_write_sint32_def
        pbtools_encoder_write_sint64_def pbtools_encoder_write_uint32_def pbtools_encoder_write_uint64_def
        pbtools_encoder_write_enum_def scast_eq_0_iff ucast_eq_0_iff_32 sint64_encode_eq_0_iff)
  show "writes (\<lambda>e. pbtools_encoder_write_bool e fn b) (if b then varint_field fn 1 else [])"
    using w [of 1] writes_nothing by (simp add: pbtools_encoder_write_bool_def pbtools_encoder_write_int32_def)
qed

lemma write_varint_fields_always_write [pb_writes]:
  "writes (\<lambda>e. pbtools_encoder_write_int32_always e fn i) (varint_field fn (scast i))"
  "writes (\<lambda>e. pbtools_encoder_write_int64_always e fn v) (varint_field fn v)"
  "writes (\<lambda>e. pbtools_encoder_write_sint32_always e fn i) (varint_field fn (sint64_encode (scast i)))"
  "writes (\<lambda>e. pbtools_encoder_write_sint64_always e fn v) (varint_field fn (sint64_encode v))"
  "writes (\<lambda>e. pbtools_encoder_write_uint32_always e fn i) (varint_field fn (ucast i))"
  "writes (\<lambda>e. pbtools_encoder_write_uint64_always e fn v) (varint_field fn v)"
  "writes (\<lambda>e. pbtools_encoder_write_enum_always e fn i) (varint_field fn (scast i))"
  "writes (\<lambda>e. pbtools_encoder_write_bool_always e fn b) (varint_field fn (if b then 1 else 0))"
  using encoder_write_tagged_varint_writes(1) [of fn PBTOOLS_WIRE_TYPE_VARINT "if b then 1 else 0"]
  by (simp_all add: pbtools_encoder_write_int32_always_def pbtools_encoder_write_int64_always_def
      pbtools_encoder_write_sint32_always_def pbtools_encoder_write_sint64_always_def pbtools_encoder_write_uint32_always_def
      pbtools_encoder_write_uint64_always_def pbtools_encoder_write_enum_always_def pbtools_encoder_write_bool_always_def
      varint_field_def encoder_write_tagged_varint_writes(1) if_distrib [of scast])

lemma write_fixed_fields_always_write [pb_writes]:
  "writes (\<lambda>e. pbtools_encoder_write_fixed32_always e fn i) (fixed32_field fn i)"
  "writes (\<lambda>e. pbtools_encoder_write_sfixed32_always e fn i) (fixed32_field fn i)"
  "writes (\<lambda>e. pbtools_encoder_write_float_always e fn i) (fixed32_field fn i)"
  "writes (\<lambda>e. pbtools_encoder_write_fixed64_always e fn v) (fixed64_field fn v)"
  "writes (\<lambda>e. pbtools_encoder_write_sfixed64_always e fn v) (fixed64_field fn v)"
  "writes (\<lambda>e. pbtools_encoder_write_double_always e fn v) (fixed64_field fn v)"
  using writes_bind [OF write_fixed_writes(1) encoder_write_tag_writes] writes_bind [OF write_fixed_writes(2) encoder_write_tag_writes]
  by (simp_all add: pbtools_encoder_write_fixed32_always_def pbtools_encoder_write_sfixed32_always_def
      pbtools_encoder_write_float_always_def pbtools_encoder_write_fixed64_always_def pbtools_encoder_write_sfixed64_always_def
      pbtools_encoder_write_double_always_def fixed32_field_def fixed64_field_def)

lemma write_fixed_fields_write [pb_writes]:
  "writes (\<lambda>e. pbtools_encoder_write_fixed32 e fn i) (if i = 0 then [] else fixed32_field fn i)"
  "writes (\<lambda>e. pbtools_encoder_write_sfixed32 e fn i) (if i = 0 then [] else fixed32_field fn i)"
  "writes (\<lambda>e. pbtools_encoder_write_float e fn i) (if i = 0 then [] else fixed32_field fn i)"
  "writes (\<lambda>e. pbtools_encoder_write_fixed64 e fn v) (if v = 0 then [] else fixed64_field fn v)"
  "writes (\<lambda>e. pbtools_encoder_write_sfixed64 e fn v) (if v = 0 then [] else fixed64_field fn v)"
  "writes (\<lambda>e. pbtools_encoder_write_double e fn v) (if v = 0 then [] else fixed64_field fn v)"
  using write_fixed_fields_always_write(1) [of fn i] write_fixed_fields_always_write(4) [of fn v] writes_nothing
  by (simp_all add: pbtools_encoder_write_fixed32_def pbtools_encoder_write_sfixed32_def pbtools_encoder_write_float_def
      pbtools_encoder_write_fixed64_def pbtools_encoder_write_sfixed64_def pbtools_encoder_write_double_def
      pbtools_encoder_write_fixed32_always_def pbtools_encoder_write_fixed64_always_def)

lemma write_length_fields_write [pb_writes]:
  assumes "length bs \<le> INT_MAX"
  shows "writes (\<lambda>e. pbtools_encoder_write_string e fn bs) (if bs = [] then [] else length_field fn bs)"
    "writes (\<lambda>e. pbtools_encoder_write_bytes e fn bs) (if bs = [] then [] else length_field fn bs)"
    "writes (\<lambda>e. pbtools_encoder_write_string_always e fn bs) (length_field fn bs)"
    "writes (\<lambda>e. pbtools_encoder_write_bytes_always e fn bs) (length_field fn bs)"
    "writes (\<lambda>e. encoder_write e bs \<bind> (\<lambda>e. encoder_write_length_delimited e fn (of_nat (length bs)))) (length_field fn bs)"
proof -
  have "unat (of_nat (length bs) :: u64) = length bs"
    using assms by (intro unat_of_nat_64) simp
  then have "(of_nat (length bs) :: u64) = 0 \<longleftrightarrow> bs = []"
    by (metis unat_eq_zero length_0_conv)
  then show "writes (\<lambda>e. pbtools_encoder_write_string e fn bs) (if bs = [] then [] else length_field fn bs)"
    "writes (\<lambda>e. pbtools_encoder_write_bytes e fn bs) (if bs = [] then [] else length_field fn bs)"
    "writes (\<lambda>e. pbtools_encoder_write_string_always e fn bs) (length_field fn bs)"
    "writes (\<lambda>e. pbtools_encoder_write_bytes_always e fn bs) (length_field fn bs)"
    "writes (\<lambda>e. encoder_write e bs \<bind> (\<lambda>e. encoder_write_length_delimited e fn (of_nat (length bs)))) (length_field fn bs)"
    using encoder_write_writes [OF assms, THEN writes_bind, OF encoder_write_tagged_varint_writes(1)]
      encoder_write_writes [OF assms, THEN writes_bind, OF encoder_write_tagged_varint_writes(2), of fn 2 "of_nat (length bs)"]
      encoder_write_writes [OF assms, THEN writes_bind, OF encoder_write_tagged_varint_writes(3)] writes_nothing
    by (simp_all add: pbtools_encoder_write_string_def pbtools_encoder_write_bytes_def pbtools_encoder_write_string_always_def
        pbtools_encoder_write_bytes_always_def length_field_def split: if_splits)
qed

end
