(* ===== verification/PbDecode.thy ===== *)
theory PbDecode
  imports PbEncode
begin

text \<open>
  The decoder of protocol buffers and the heap of a message (\<^verbatim>\<open>proto/pbtools.c\<close>). A decoder reads a slice of a
  buffer; once something is wrong with the data it keeps the error in place of its size and position and reads
  zeros. Strings and bytes are allocated on the heap of the message, a block of memory that is only ever
  filled; its address, size and position are the model's state, the contents of an allocation are the
  returned bytes, and a null pointer is the inner \<open>None\<close>.

  \<open>None\<close> stands for undefined behaviour: a read outside of the encoded message or a write outside of the heap.

  Proved: allocations are aligned, disjoint and inside of the heap; on any bytes whatsoever the decoder stays
  inside of the message and returns; what the encoder writes for a field is what the decoder reads.
\<close>

section \<open>Definitions\<close>

subsection \<open>The heap\<close>

record pbtools_heap =
  hp_buf :: u64
  hp_size :: int
  hp_pos :: int

abbreviation (input) SIZEOF_HEAP :: nat where "SIZEOF_HEAP \<equiv> 16"

definition heap_new :: "u64 \<Rightarrow> size_t \<Rightarrow> pbtools_heap option" where
  "heap_new buf n =
     (if unat n \<ge> SIZEOF_HEAP then Some \<lparr>hp_buf = buf, hp_size = to_int n, hp_pos = int SIZEOF_HEAP\<rparr> else None)"

definition heap_alloc :: "pbtools_heap \<Rightarrow> size_t \<Rightarrow> size_t \<Rightarrow> u64 option \<times> pbtools_heap" where
  "heap_alloc self n alignment = (
     let left = hp_size self - hp_pos self
     in if to_int n \<le> left then
          (let addr = hp_buf self + of_int (hp_pos self); rest = addr AND (alignment - 1)
           in if rest = 0 then (Some addr, self\<lparr>hp_pos := hp_pos self + to_int n\<rparr>)
              else (let pad = alignment - rest; n = n + pad
                    in if to_int n \<le> left then (Some (addr + pad), self\<lparr>hp_pos := hp_pos self + to_int n\<rparr>)
                       else (None, self)))
        else (None, self))"

text \<open>An allocation may be written to as far as the memory of the heap goes.\<close>

definition heap_holds :: "pbtools_heap \<Rightarrow> u64 \<Rightarrow> size_t \<Rightarrow> bool" where
  "heap_holds h addr n \<longleftrightarrow> uint (hp_buf h) \<le> uint addr \<and> uint addr + uint n \<le> uint (hp_buf h) + hp_size h"

subsection \<open>The decoder\<close>

record pbtools_decoder =
  de_buf :: "u8 list"
  de_size :: int
  de_pos :: int

definition decoder_init :: "u8 list \<Rightarrow> size_t \<Rightarrow> pbtools_decoder" where
  "decoder_init buf n = \<lparr>de_buf = buf, de_size = to_int n, de_pos = 0\<rparr>"

definition decoder_get_result :: "pbtools_decoder \<Rightarrow> int" where
  "decoder_get_result self = de_pos self"

definition decoder_abort :: "pbtools_decoder \<Rightarrow> int \<Rightarrow> pbtools_decoder" where
  "decoder_abort self error = (if de_pos self \<ge> 0 then self\<lparr>de_size := - error, de_pos := - error\<rparr> else self)"

definition decoder_heap_alloc ::
    "pbtools_decoder \<Rightarrow> pbtools_heap \<Rightarrow> size_t \<Rightarrow> size_t \<Rightarrow> u64 option \<times> pbtools_decoder \<times> pbtools_heap" where
  "decoder_heap_alloc self heap n alignment = (
     case heap_alloc heap n alignment of
       (None, heap) \<Rightarrow> (None, decoder_abort self PBTOOLS_OUT_OF_MEMORY, heap)
     | (Some addr, heap) \<Rightarrow> (Some addr, self, heap))"

definition decoder_left :: "pbtools_decoder \<Rightarrow> int" where
  "decoder_left self = de_size self - de_pos self"

definition pbtools_decoder_available :: "pbtools_decoder \<Rightarrow> bool" where
  "pbtools_decoder_available self \<longleftrightarrow> de_pos self < de_size self"

definition decoder_get :: "pbtools_decoder \<Rightarrow> (u8 \<times> pbtools_decoder) option" where
  "decoder_get self =
     (if pbtools_decoder_available self then
        if 0 \<le> de_pos self \<and> de_pos self < int (length (de_buf self))
        then Some (de_buf self ! nat (de_pos self), self\<lparr>de_pos := de_pos self + 1\<rparr>) else None
      else Some (0, decoder_abort self PBTOOLS_OUT_OF_DATA))"

definition decoder_read :: "pbtools_decoder \<Rightarrow> size_t \<Rightarrow> (u8 list \<times> pbtools_decoder) option" where
  "decoder_read self n =
     (if de_size self - de_pos self \<ge> to_int n then
        if n = 0 \<or> 0 \<le> de_pos self \<and> de_pos self + uint n \<le> int (length (de_buf self))
        then Some (mem_read (de_buf self) (nat (de_pos self)) (unat n), self\<lparr>de_pos := de_pos self + to_int n\<rparr>) else None
      else Some (replicate (unat n) 0, decoder_abort self PBTOOLS_OUT_OF_DATA))"

function decoder_read_varint_loop :: "pbtools_decoder \<Rightarrow> u64 \<Rightarrow> nat \<Rightarrow> ((u64 \<times> u8) \<times> pbtools_decoder) option" where
  "decoder_read_varint_loop self value offset = do {
     (byte, self) \<leftarrow> decoder_get self;
     let value = value OR push_bit offset (ucast byte AND 0x7f);
     (if offset + 7 < 64 \<and> byte AND 0x80 \<noteq> 0 then decoder_read_varint_loop self value (offset + 7)
      else Some ((value, byte), self))
   }"
  by pat_completeness auto
termination
  by (relation "measure (\<lambda>(self, value, offset). 64 - offset)") auto

definition decoder_read_varint :: "pbtools_decoder \<Rightarrow> (u64 \<times> pbtools_decoder) option" where
  "decoder_read_varint self = do {
     ((value, byte), self) \<leftarrow> decoder_read_varint_loop self 0 0;
     (if byte AND 0x80 \<noteq> 0 then Some (0, decoder_abort self PBTOOLS_VARINT_OVERFLOW) else Some (value, self))
   }"

definition read_varint_check_wire_type :: "pbtools_decoder \<Rightarrow> u32 \<Rightarrow> u32 \<Rightarrow> (u64 \<times> pbtools_decoder) option" where
  "read_varint_check_wire_type self wire_type expected_wire_type =
     (if wire_type \<noteq> expected_wire_type then Some (0, decoder_abort self PBTOOLS_BAD_WIRE_TYPE)
      else decoder_read_varint self)"

definition read_varint_check_wire_type_varint :: "pbtools_decoder \<Rightarrow> u32 \<Rightarrow> (u64 \<times> pbtools_decoder) option" where
  "read_varint_check_wire_type_varint self wire_type = read_varint_check_wire_type self wire_type PBTOOLS_WIRE_TYPE_VARINT"

definition decoder_read_length_delimited :: "pbtools_decoder \<Rightarrow> u32 \<Rightarrow> (u64 \<times> pbtools_decoder) option" where
  "decoder_read_length_delimited self wire_type = do {
     (length, self) \<leftarrow> read_varint_check_wire_type self wire_type PBTOOLS_WIRE_TYPE_LENGTH_DELIMITED;
     (if length \<ge> 0x7fffffff then Some (0, decoder_abort self PBTOOLS_LENGTH_DELIMITED_OVERFLOW) else Some (length, self))
   }"

definition pbtools_decoder_read_tag :: "pbtools_decoder \<Rightarrow> ((u32 \<times> u32) \<times> pbtools_decoder) option" where
  "pbtools_decoder_read_tag self = do {
     (v, self) \<leftarrow> decoder_read_varint self;
     let value = (ucast v :: u32);
     let field_number = drop_bit 3 value;
     let wire_type = value AND 7;
     Some ((field_number, wire_type), if field_number = 0 then decoder_abort self PBTOOLS_BAD_FIELD_NUMBER else self)
   }"

subsection \<open>Fields\<close>

definition pbtools_decoder_read_int64 :: "pbtools_decoder \<Rightarrow> u32 \<Rightarrow> (i64 \<times> pbtools_decoder) option" where
  "pbtools_decoder_read_int64 self wire_type = read_varint_check_wire_type_varint self wire_type"

definition pbtools_decoder_read_int32 :: "pbtools_decoder \<Rightarrow> u32 \<Rightarrow> (i32 \<times> pbtools_decoder) option" where
  "pbtools_decoder_read_int32 self wire_type = do {
     (value, self) \<leftarrow> pbtools_decoder_read_int64 self wire_type;
     Some (ucast value, self)
   }"

definition pbtools_decoder_read_sint64 :: "pbtools_decoder \<Rightarrow> u32 \<Rightarrow> (i64 \<times> pbtools_decoder) option" where
  "pbtools_decoder_read_sint64 self wire_type = do {
     (value, self) \<leftarrow> read_varint_check_wire_type_varint self wire_type;
     Some (sint64_decode value, self)
   }"

definition pbtools_decoder_read_sint32 :: "pbtools_decoder \<Rightarrow> u32 \<Rightarrow> (i32 \<times> pbtools_decoder) option" where
  "pbtools_decoder_read_sint32 self wire_type = do {
     (value, self) \<leftarrow> pbtools_decoder_read_sint64 self wire_type;
     Some (ucast value, self)
   }"

definition pbtools_decoder_read_uint64 :: "pbtools_decoder \<Rightarrow> u32 \<Rightarrow> (u64 \<times> pbtools_decoder) option" where
  "pbtools_decoder_read_uint64 self wire_type = read_varint_check_wire_type_varint self wire_type"

definition pbtools_decoder_read_uint32 :: "pbtools_decoder \<Rightarrow> u32 \<Rightarrow> (u32 \<times> pbtools_decoder) option" where
  "pbtools_decoder_read_uint32 self wire_type = do {
     (value, self) \<leftarrow> pbtools_decoder_read_uint64 self wire_type;
     Some (ucast value, self)
   }"

definition decoder_read_32_bit_value :: "pbtools_decoder \<Rightarrow> (u32 \<times> pbtools_decoder) option" where
  "decoder_read_32_bit_value self = do {
     (buf, self) \<leftarrow> decoder_read self 4;
     Some (ucast (buf ! 0) OR push_bit 8 (ucast (buf ! 1)) OR push_bit 16 (ucast (buf ! 2)) OR push_bit 24 (ucast (buf ! 3)), self)
   }"

definition pbtools_decoder_read_fixed32 :: "pbtools_decoder \<Rightarrow> u32 \<Rightarrow> (u32 \<times> pbtools_decoder) option" where
  "pbtools_decoder_read_fixed32 self wire_type =
     (if wire_type \<noteq> PBTOOLS_WIRE_TYPE_32_BIT then Some (0, decoder_abort self PBTOOLS_BAD_WIRE_TYPE)
      else decoder_read_32_bit_value self)"

definition decoder_read_64_bit_value :: "pbtools_decoder \<Rightarrow> (u64 \<times> pbtools_decoder) option" where
  "decoder_read_64_bit_value self = do {
     (buf, self) \<leftarrow> decoder_read self 8;
     Some (ucast (buf ! 0) OR push_bit 8 (ucast (buf ! 1)) OR push_bit 16 (ucast (buf ! 2)) OR push_bit 24 (ucast (buf ! 3))
       OR push_bit 32 (ucast (buf ! 4)) OR push_bit 40 (ucast (buf ! 5)) OR push_bit 48 (ucast (buf ! 6))
       OR push_bit 56 (ucast (buf ! 7)), self)
   }"

definition pbtools_decoder_read_fixed64 :: "pbtools_decoder \<Rightarrow> u32 \<Rightarrow> (u64 \<times> pbtools_decoder) option" where
  "pbtools_decoder_read_fixed64 self wire_type =
     (if wire_type \<noteq> PBTOOLS_WIRE_TYPE_64_BIT then Some (0, decoder_abort self PBTOOLS_BAD_WIRE_TYPE)
      else decoder_read_64_bit_value self)"

definition pbtools_decoder_read_sfixed32 :: "pbtools_decoder \<Rightarrow> u32 \<Rightarrow> (i32 \<times> pbtools_decoder) option" where
  "pbtools_decoder_read_sfixed32 self wire_type = pbtools_decoder_read_fixed32 self wire_type"

definition pbtools_decoder_read_sfixed64 :: "pbtools_decoder \<Rightarrow> u32 \<Rightarrow> (i64 \<times> pbtools_decoder) option" where
  "pbtools_decoder_read_sfixed64 self wire_type = pbtools_decoder_read_fixed64 self wire_type"

definition pbtools_decoder_read_float :: "pbtools_decoder \<Rightarrow> u32 \<Rightarrow> (u32 \<times> pbtools_decoder) option" where
  "pbtools_decoder_read_float self wire_type = pbtools_decoder_read_fixed32 self wire_type"

definition pbtools_decoder_read_double :: "pbtools_decoder \<Rightarrow> u32 \<Rightarrow> (u64 \<times> pbtools_decoder) option" where
  "pbtools_decoder_read_double self wire_type = pbtools_decoder_read_fixed64 self wire_type"

definition pbtools_decoder_read_bool :: "pbtools_decoder \<Rightarrow> u32 \<Rightarrow> (bool \<times> pbtools_decoder) option" where
  "pbtools_decoder_read_bool self wire_type = do {
     (value, self) \<leftarrow> pbtools_decoder_read_int32 self wire_type;
     Some (value \<noteq> 0, self)
   }"

definition pbtools_decoder_read_enum :: "pbtools_decoder \<Rightarrow> u32 \<Rightarrow> (i32 \<times> pbtools_decoder) option" where
  "pbtools_decoder_read_enum self wire_type = pbtools_decoder_read_int32 self wire_type"

text \<open>A string on the heap is its bytes and the terminating zero.\<close>

definition pbtools_decoder_read_string ::
    "pbtools_decoder \<Rightarrow> pbtools_heap \<Rightarrow> u32 \<Rightarrow> (u8 list option \<times> pbtools_decoder \<times> pbtools_heap) option" where
  "pbtools_decoder_read_string self heap wire_type = do {
     (n, self) \<leftarrow> decoder_read_length_delimited self wire_type;
     (case decoder_heap_alloc self heap (n + 1) 1 of
        (None, self, heap) \<Rightarrow> Some (None, self, heap)
      | (Some addr, self, heap) \<Rightarrow>
          if heap_holds heap addr (n + 1) then do {
            (value, self) \<leftarrow> decoder_read self n;
            Some (Some (value @ [0]), self, heap)
          } else None)
   }"

record pbtools_bytes =
  by_buf :: "u8 list option"
  by_size :: size_t

definition pbtools_bytes_init :: "pbtools_bytes \<Rightarrow> pbtools_bytes" where
  "pbtools_bytes_init self = self\<lparr>by_size := 0\<rparr>"

definition pbtools_decoder_read_bytes ::
    "pbtools_decoder \<Rightarrow> pbtools_heap \<Rightarrow> u32 \<Rightarrow> (pbtools_bytes \<times> pbtools_decoder \<times> pbtools_heap) option" where
  "pbtools_decoder_read_bytes self heap wire_type = do {
     (n, self) \<leftarrow> decoder_read_length_delimited self wire_type;
     (case decoder_heap_alloc self heap n 1 of
        (None, self, heap) \<Rightarrow> Some (\<lparr>by_buf = None, by_size = n\<rparr>, self, heap)
      | (Some addr, self, heap) \<Rightarrow>
          if heap_holds heap addr n then do {
            (value, self) \<leftarrow> decoder_read self n;
            Some (\<lparr>by_buf = Some value, by_size = n\<rparr>, self, heap)
          } else None)
   }"

subsection \<open>Slices, and fields that are skipped\<close>

definition decoder_init_slice :: "pbtools_decoder \<Rightarrow> int \<Rightarrow> pbtools_decoder" where
  "decoder_init_slice parent n =
     (if n \<le> de_size parent - de_pos parent
      then \<lparr>de_buf = drop (nat (de_pos parent)) (de_buf parent), de_size = n, de_pos = 0\<rparr>
      else \<lparr>de_buf = drop (nat (de_pos parent)) (de_buf parent), de_size = - PBTOOLS_OUT_OF_DATA, de_pos = - PBTOOLS_OUT_OF_DATA\<rparr>)"

definition decoder_seek :: "pbtools_decoder \<Rightarrow> int \<Rightarrow> pbtools_decoder" where
  "decoder_seek self offset =
     (if de_pos self < 0 then self
      else if offset < 0 then decoder_abort self (- offset)
      else if (of_int (de_pos self) + of_int offset :: 32 word) > 0x7fffffff then decoder_abort self PBTOOLS_SEEK_OVERFLOW
      else let self = self\<lparr>de_pos := de_pos self + offset\<rparr>
           in if de_pos self > de_size self then decoder_abort self PBTOOLS_OUT_OF_DATA else self)"

definition pbtools_decoder_skip_field :: "pbtools_decoder \<Rightarrow> u32 \<Rightarrow> pbtools_decoder option" where
  "pbtools_decoder_skip_field self wire_type =
     (if wire_type = PBTOOLS_WIRE_TYPE_VARINT then do {
        (_, self) \<leftarrow> decoder_read_varint self;
        Some self
      } else if wire_type = PBTOOLS_WIRE_TYPE_64_BIT then Some (decoder_seek self 8)
      else if wire_type = PBTOOLS_WIRE_TYPE_LENGTH_DELIMITED then do {
        (value, self) \<leftarrow> decoder_read_length_delimited self wire_type;
        Some (decoder_seek self (to_int value))
      } else if wire_type = PBTOOLS_WIRE_TYPE_32_BIT then Some (decoder_seek self 4)
      else Some (decoder_abort self PBTOOLS_BAD_WIRE_TYPE))"

definition pbtools_error_code_to_string :: "int \<Rightarrow> string" where
  "pbtools_error_code_to_string code = (
     let code = (if code < 0 then code * - 1 else code)
     in if code = 0 then ''Ok''
        else if code = PBTOOLS_BAD_WIRE_TYPE then ''Bad wire type''
        else if code = PBTOOLS_OUT_OF_DATA then ''Out of data''
        else if code = PBTOOLS_OUT_OF_MEMORY then ''Out of memory''
        else if code = PBTOOLS_ENCODE_BUFFER_FULL then ''Encode buffer full''
        else if code = PBTOOLS_BAD_FIELD_NUMBER then ''Bad field number''
        else if code = PBTOOLS_VARINT_OVERFLOW then ''Varint overflow''
        else if code = PBTOOLS_SEEK_OVERFLOW then ''Seek overflow''
        else if code = PBTOOLS_LENGTH_DELIMITED_OVERFLOW then ''Length delimited overflow''
        else ''Unknown error'')"

section \<open>The heap\<close>

definition heap_ok :: "pbtools_heap \<Rightarrow> bool" where
  "heap_ok h \<longleftrightarrow> 0 \<le> hp_pos h \<and> hp_pos h \<le> hp_size h \<and> hp_size h \<le> int INT_MAX
     \<and> uint (hp_buf h) + hp_size h < 18446744073709551616"

text \<open>One allocation: the block starts at an aligned address and ends where the heap continues.\<close>

definition allocated :: "pbtools_heap \<Rightarrow> int \<Rightarrow> int \<Rightarrow> u64 \<Rightarrow> pbtools_heap \<Rightarrow> bool" where
  "allocated h n alignment addr h' \<longleftrightarrow>
     hp_buf h' = hp_buf h \<and> hp_size h' = hp_size h \<and> heap_ok h'
     \<and> uint (hp_buf h) + hp_pos h \<le> uint addr \<and> uint addr < uint (hp_buf h) + hp_pos h + alignment
     \<and> uint addr + n = uint (hp_buf h) + hp_pos h'
     \<and> alignment dvd uint addr"

lemma heap_new_ok:
  assumes "heap_new buf n = Some h" "uint n \<le> int INT_MAX" "uint buf + uint n < 18446744073709551616"
  shows "heap_ok h \<and> hp_buf h = buf \<and> hp_size h = uint n \<and> hp_pos h = int SIZEOF_HEAP"
proof -
  have "SIZEOF_HEAP \<le> unat n" "h = \<lparr>hp_buf = buf, hp_size = uint n, hp_pos = int SIZEOF_HEAP\<rparr>"
    using assms by (auto simp: heap_new_def to_int_small split: if_splits)
  moreover from this(1) have "16 \<le> uint n"
    by (simp add: uint_nat del: of_nat_unat)
  ultimately show ?thesis
    using assms by (simp add: heap_ok_def)
qed

lemma uint_and_align: "uint ((a :: u64) AND (2 ^ k - 1)) = uint a mod 2 ^ k"
proof -
  have "a AND (2 ^ k - 1) = take_bit k a"
    by (simp only: take_bit_eq_mask mask_eq_exp_minus_1)
  then show ?thesis
    by (simp only: unsigned_take_bit_eq) (simp only: take_bit_eq_mod)
qed

lemma uint_add_of_int:
  "0 \<le> p \<Longrightarrow> uint (a :: u64) + p < 18446744073709551616 \<Longrightarrow> uint (a + of_int p) = uint a + p"
  by (simp add: uint_word_ariths uint_word_of_int take_bit_eq_mod mod_simps)

lemma uint_add_64: "uint (a :: u64) + uint b < 18446744073709551616 \<Longrightarrow> uint (a + b) = uint a + uint b"
  by (simp add: uint_word_ariths)

lemma uint_diff_64: "uint (b :: u64) \<le> uint a \<Longrightarrow> uint (a - b) = uint a - uint b"
  by (simp flip: uint_sub_lem)

lemma uint_exp_64: "k < 64 \<Longrightarrow> uint (2 ^ k :: u64) = 2 ^ k"
  using uint_word_of_int_eq [of "2 ^ k", where ?'a = 64] power_strict_increasing [of k 64 "2 :: int"]
  by (simp add: take_bit_int_eq_self)

lemma heap_alloc_cases:
  assumes h: "heap_ok h" and n: "uint n + (2 ^ k - 1) \<le> int INT_MAX"
  shows "heap_alloc h n (2 ^ k) = (None, h) \<and> hp_size h - hp_pos h < uint n + (2 ^ k - 1)
    \<or> (\<exists>addr h'. heap_alloc h n (2 ^ k) = (Some addr, h') \<and> allocated h (uint n) (2 ^ k) addr h')"
proof -
  define left where "left = hp_size h - hp_pos h"
  define a where "a = hp_buf h + of_int (hp_pos h)"
  define r where "r = uint a mod 2 ^ k"
  have n': "uint n + (2 ^ k - 1) \<le> 2147483647"
    using n by simp
  then have "(2 :: int) ^ k < 18446744073709551616"
    using uint_ge_0 [of n] by linarith
  then have "(2 :: int) ^ k < 2 ^ 64"
    by simp
  then have k: "k < 64"
    by (simp only: power_strict_increasing_iff)
  have a: "uint a = uint (hp_buf h) + hp_pos h"
    using h by (simp add: a_def heap_ok_def uint_add_of_int)
  have r: "uint (a AND (2 ^ k - 1)) = r" "0 \<le> r" "r < 2 ^ k"
    unfolding r_def by (simp_all only: uint_and_align) simp_all
  have "2 ^ k dvd (uint a - r) + 2 ^ k"
    unfolding r_def by (intro dvd_add dvd_minus_mod dvd_refl)
  then have dvd: "2 ^ k dvd uint a + (2 ^ k - r)"
    by (simp add: algebra_simps)
  have pk: "1 \<le> (2 :: int) ^ k"
    by simp
  have to: "to_int n = uint n"
    using n' pk by (intro to_int_small) linarith
  have rest: "a AND (2 ^ k - 1) = 0 \<longleftrightarrow> r = 0"
    unfolding r(1) [symmetric] by (rule uint_0_iff [symmetric])
  have hs: "uint (hp_buf h) + hp_size h < 18446744073709551616"
    using h by (simp add: heap_ok_def)
  note unf = heap_alloc_def Let_def to left_def [symmetric] a_def [symmetric] rest allocated_def heap_ok_def
  consider "left < uint n" | "uint n \<le> left" "r = 0" | "uint n \<le> left" "r \<noteq> 0"
    by linarith
  then show ?thesis
  proof cases
    case 1
    moreover have "left < uint n + (2 ^ k - 1)"
      using 1 pk by linarith
    ultimately show ?thesis
      by (simp add: unf)
  next
    case 2
    have "2 ^ k dvd uint a"
      using 2(2) by (simp add: r_def dvd_eq_mod_eq_0)
    then show ?thesis
      using 2 a h uint_ge_0 [of n] by (simp add: unf) (simp add: left_def)
  next
    case 3
    define p where "p = 2 ^ k - (a AND (2 ^ k - 1))"
    have p: "uint p = 2 ^ k - r"
      using k r by (simp add: p_def uint_diff_64 uint_exp_64)
    have np: "uint (n + p) = uint n + (2 ^ k - r)" "to_int (n + p) = uint n + (2 ^ k - r)"
      using n' p r 3(2) uint_add_64 [of n p] to_int_small [of "n + p"] by simp_all
    show ?thesis
    proof (cases "uint n + (2 ^ k - r) \<le> left")
      case True
      then have "uint (a + p) = uint a + uint p"
        using hs a p uint_ge_0 [of n] by (intro uint_add_64) (unfold left_def, linarith)
      then show ?thesis
        using 3 True np a h dvd p r by (simp add: unf p_def [symmetric]) (simp add: left_def)
    next
      case False
      then show ?thesis
        using 3 np r by (simp add: unf p_def [symmetric])
    qed
  qed
qed

section \<open>Arbitrary data\<close>

text \<open>
  A decoder is either inside of its message or has failed. An operation moves it forward or makes it fail; a decoder that
  has failed is left alone.
\<close>

definition decoder_ok :: "pbtools_decoder \<Rightarrow> bool" where
  "decoder_ok d \<longleftrightarrow>
     (if 0 \<le> de_pos d then de_pos d \<le> de_size d \<and> de_size d \<le> int (length (de_buf d)) \<and> de_size d \<le> int INT_MAX
      else de_size d = de_pos d)"

definition moved :: "pbtools_decoder \<Rightarrow> pbtools_decoder \<Rightarrow> bool" where
  "moved d d' \<longleftrightarrow> decoder_ok d' \<and> de_buf d' = de_buf d
     \<and> (if de_pos d < 0 then d' = d else de_pos d' < 0 \<or> de_size d' = de_size d \<and> de_pos d \<le> de_pos d')"

definition safe :: "(pbtools_decoder \<Rightarrow> ('a \<times> pbtools_decoder) option) \<Rightarrow> bool" where
  "safe f \<longleftrightarrow> (\<forall>d. decoder_ok d \<longrightarrow> (\<exists>v d'. f d = Some (v, d') \<and> moved d d'))"

lemma moved_refl: "decoder_ok d \<Longrightarrow> moved d d"
  by (auto simp: moved_def)

lemma moved_ok: "moved d d' \<Longrightarrow> decoder_ok d'"
  by (simp add: moved_def)

lemma moved_trans: "moved a b \<Longrightarrow> moved b c \<Longrightarrow> moved a c"
  by (auto simp: moved_def split: if_splits)

lemma moved_left: "moved d d' \<Longrightarrow> decoder_ok d \<Longrightarrow> decoder_left d' \<le> decoder_left d"
  by (auto simp: moved_def decoder_left_def decoder_ok_def split: if_splits)

lemma decoder_left_nonneg: "decoder_ok d \<Longrightarrow> 0 \<le> decoder_left d"
  by (auto simp: decoder_left_def decoder_ok_def split: if_splits)

lemma available_iff_left: "pbtools_decoder_available d \<longleftrightarrow> 0 < decoder_left d"
  by (simp add: pbtools_decoder_available_def decoder_left_def)

lemma decoder_abort_moved: "decoder_ok d \<Longrightarrow> 0 < error \<Longrightarrow> moved d (decoder_abort d error)"
  by (auto simp: moved_def decoder_abort_def decoder_ok_def)

lemma decoder_abort_left: "decoder_ok d \<Longrightarrow> decoder_left (decoder_abort d error) = 0"
  by (auto simp: decoder_left_def decoder_abort_def decoder_ok_def)

named_theorems pb_safe \<open>the operations of the decoder on arbitrary data\<close>

lemma safe_return [pb_safe]: "safe (\<lambda>d. Some (v, d))"
  by (simp add: safe_def moved_refl)

lemma safe_abort [pb_safe]: "0 < error \<Longrightarrow> safe (\<lambda>d. Some (v, decoder_abort d error))"
  by (simp add: safe_def decoder_abort_moved)

lemma safe_bind [pb_safe]:
  assumes "safe f" "\<And>v. safe (g v)"
  shows "safe (\<lambda>d. f d \<bind> (\<lambda>(v, d). g v d))"
  unfolding safe_def
proof (intro allI impI)
  fix d assume "decoder_ok d"
  then obtain v d1 where 1: "f d = Some (v, d1)" "moved d d1"
    using assms(1) by (auto simp: safe_def)
  then obtain w d2 where "g v d1 = Some (w, d2)" "moved d1 d2"
    using assms(2) [of v] moved_ok [OF 1(2)] by (auto simp: safe_def)
  then show "\<exists>v d'. f d \<bind> (\<lambda>(v, d). g v d) = Some (v, d') \<and> moved d d'"
    using 1 moved_trans by auto
qed

lemma safe_moved: "safe f \<Longrightarrow> decoder_ok d \<Longrightarrow> f d = Some (v, d') \<Longrightarrow> moved d d'"
  by (fastforce simp: safe_def)

lemma safe_if [pb_safe]: "(c \<Longrightarrow> safe f) \<Longrightarrow> (\<not> c \<Longrightarrow> safe g) \<Longrightarrow> safe (\<lambda>d. if c then f d else g d)"
  by (cases c) simp_all

lemma decoder_get_safe [pb_safe]: "safe decoder_get"
  unfolding safe_def
proof (intro allI impI)
  fix d assume "decoder_ok d"
  then show "\<exists>v d'. decoder_get d = Some (v, d') \<and> moved d d'"
    by (cases "pbtools_decoder_available d")
      (auto simp: decoder_get_def pbtools_decoder_available_def decoder_ok_def moved_def decoder_abort_def split: if_splits)
qed

lemma decoder_get_progress:
  assumes "decoder_get d = Some (v, d')" "pbtools_decoder_available d"
  shows "decoder_left d' < decoder_left d"
  using assms by (auto simp: decoder_get_def decoder_left_def split: if_splits)

lemma decoder_read_safe [pb_safe]: "uint n \<le> int INT_MAX \<Longrightarrow> safe (\<lambda>d. decoder_read d n)"
  unfolding safe_def
proof (intro allI impI)
  fix d assume n: "uint n \<le> int INT_MAX" and d: "decoder_ok d"
  have to: "to_int n = uint n"
    using n by (rule to_int_small)
  show "\<exists>v d'. decoder_read d n = Some (v, d') \<and> moved d d'"
  proof (cases "uint n \<le> de_size d - de_pos d")
    case True
    have "0 < uint n" if "n \<noteq> 0"
      using that uint_0_iff [of n] uint_ge_0 [of n] by linarith
    then show ?thesis
      using True to d uint_ge_0 [of n] by (cases "n = 0") (auto simp: decoder_read_def moved_def decoder_ok_def split: if_splits)
  next
    case False
    then show ?thesis
      using to d by (simp add: decoder_read_def decoder_abort_moved)
  qed
qed

lemma decoder_read_length:
  assumes "decoder_read d n = Some (v, d')"
  shows "length v = unat n"
proof (cases "n = 0 \<or> v = replicate (unat n) 0")
  case True
  then show ?thesis
    using assms by (auto simp: decoder_read_def split: if_splits)
next
  case False
  then have "v = mem_read (de_buf d) (nat (de_pos d)) (unat n)" "0 \<le> de_pos d" "de_pos d + int (unat n) \<le> int (length (de_buf d))"
    using assms by (auto simp: decoder_read_def split: if_splits)
  then show ?thesis
    by (simp add: nat_le_iff del: of_nat_unat)
qed

declare decoder_read_varint_loop.simps [simp del]

lemma decoder_read_varint_loop_safe [pb_safe]: "safe (\<lambda>d. decoder_read_varint_loop d v offset)"
proof (induction "64 - offset" arbitrary: v offset rule: less_induct)
  case less
  show ?case
    by (subst decoder_read_varint_loop.simps) (auto simp: Let_def intro!: pb_safe less)
qed

lemma decoder_read_varint_safe [pb_safe]: "safe decoder_read_varint"
  unfolding decoder_read_varint_def split_beta by (auto simp: split_beta intro!: pb_safe [unfolded split_beta])

lemma decoder_read_varint_progress:
  assumes "decoder_ok d" "decoder_read_varint d = Some (v, d')" "pbtools_decoder_available d"
  shows "decoder_left d' < decoder_left d"
proof -
  obtain b d1 where get: "decoder_get d = Some (b, d1)" and d1: "moved d d1"
    using decoder_get_safe assms(1) by (auto simp: safe_def)
  have less: "decoder_left d1 < decoder_left d"
    using decoder_get_progress get assms(3) by blast
  obtain x c d2 where loop: "decoder_read_varint_loop d 0 0 = Some ((x, c), d2)"
    using decoder_read_varint_loop_safe assms(1) by (fastforce simp: safe_def)
  have "moved d1 d2"
  proof (cases "b AND 0x80 = 0")
    case True
    then show ?thesis
      using loop get moved_refl [OF moved_ok [OF d1]] by (subst (asm) decoder_read_varint_loop.simps) (simp add: Let_def)
  next
    case False
    then have "decoder_read_varint_loop d1 (ucast b AND 0x7f) 7 = Some ((x, c), d2)"
      using loop get by (subst (asm) decoder_read_varint_loop.simps) (simp add: Let_def)
    then show ?thesis
      by (rule safe_moved [OF decoder_read_varint_loop_safe moved_ok [OF d1]])
  qed
  then have "decoder_left d2 < decoder_left d"
    using less moved_left [OF _ moved_ok [OF d1]] by fastforce
  moreover have "d' = d2 \<or> d' = decoder_abort d2 PBTOOLS_VARINT_OVERFLOW"
    using assms(2) loop by (auto simp: decoder_read_varint_def split: if_splits)
  moreover have "decoder_ok d2"
    using moved_ok \<open>moved d1 d2\<close> .
  ultimately show ?thesis
    using decoder_left_nonneg [OF assms(1)] decoder_left_nonneg [of d2] decoder_abort_left [of d2] by auto
qed

lemma read_length_delimited_safe [pb_safe]: "safe (\<lambda>d. decoder_read_length_delimited d wt)"
  unfolding decoder_read_length_delimited_def read_varint_check_wire_type_def
  by (auto intro!: pb_safe)

lemma read_length_delimited_small:
  "decoder_read_length_delimited d wt = Some (n, d') \<Longrightarrow> uint n < int INT_MAX"
proof -
  assume "decoder_read_length_delimited d wt = Some (n, d')"
  then have "n = 0 \<or> n < 0x7fffffff"
    by (auto simp: decoder_read_length_delimited_def bind_eq_Some_conv split: if_splits)
  then show ?thesis
    by (auto simp: word_less_def)
qed

lemma read_tag_safe [pb_safe]: "safe pbtools_decoder_read_tag"
  unfolding pbtools_decoder_read_tag_def Let_def if_distrib [of "Pair _"] if_distrib [of Some]
  by (auto intro!: pb_safe)

lemma read_fields_safe [pb_safe]:
  "safe (\<lambda>d. pbtools_decoder_read_int32 d wt)" "safe (\<lambda>d. pbtools_decoder_read_int64 d wt)"
  "safe (\<lambda>d. pbtools_decoder_read_sint32 d wt)" "safe (\<lambda>d. pbtools_decoder_read_sint64 d wt)"
  "safe (\<lambda>d. pbtools_decoder_read_uint32 d wt)" "safe (\<lambda>d. pbtools_decoder_read_uint64 d wt)"
  "safe (\<lambda>d. pbtools_decoder_read_bool d wt)" "safe (\<lambda>d. pbtools_decoder_read_enum d wt)"
  unfolding pbtools_decoder_read_int32_def pbtools_decoder_read_int64_def pbtools_decoder_read_sint32_def
    pbtools_decoder_read_sint64_def pbtools_decoder_read_uint32_def pbtools_decoder_read_uint64_def
    pbtools_decoder_read_bool_def pbtools_decoder_read_enum_def read_varint_check_wire_type_varint_def
    read_varint_check_wire_type_def
  by (intro pb_safe; simp)+

lemma read_fixed_safe [pb_safe]: "safe decoder_read_32_bit_value" "safe decoder_read_64_bit_value"
  unfolding decoder_read_32_bit_value_def decoder_read_64_bit_value_def
  by (auto intro!: pb_safe)

lemma read_fixed_fields_safe [pb_safe]:
  "safe (\<lambda>d. pbtools_decoder_read_fixed32 d wt)" "safe (\<lambda>d. pbtools_decoder_read_sfixed32 d wt)"
  "safe (\<lambda>d. pbtools_decoder_read_float d wt)" "safe (\<lambda>d. pbtools_decoder_read_fixed64 d wt)"
  "safe (\<lambda>d. pbtools_decoder_read_sfixed64 d wt)" "safe (\<lambda>d. pbtools_decoder_read_double d wt)"
  unfolding pbtools_decoder_read_fixed32_def pbtools_decoder_read_sfixed32_def pbtools_decoder_read_float_def
    pbtools_decoder_read_fixed64_def pbtools_decoder_read_sfixed64_def pbtools_decoder_read_double_def
  by (auto intro!: pb_safe)

subsection \<open>Slices\<close>

lemma decoder_init_ok: "uint n \<le> int INT_MAX \<Longrightarrow> uint n \<le> int (length buf) \<Longrightarrow> decoder_ok (decoder_init buf n)"
  by (simp add: decoder_init_def decoder_ok_def to_int_small)

lemma decoder_init_slice_ok: "decoder_ok d \<Longrightarrow> 0 \<le> n \<Longrightarrow> decoder_ok (decoder_init_slice d n)"
  by (auto simp: decoder_ok_def decoder_init_slice_def split: if_splits)

text \<open>Going over a slice that has been read, a decoder stays inside of its message, or takes over the error.\<close>

lemma decoder_seek_moved:
  assumes "decoder_ok d"
  shows "moved d (decoder_seek d offset)"
proof (cases "0 \<le> offset \<and> 0 \<le> de_pos d \<and> \<not> (of_int (de_pos d) + of_int offset :: 32 word) > 0x7fffffff")
  case True
  then show ?thesis
    using assms by (auto simp: decoder_seek_def decoder_abort_def moved_def decoder_ok_def Let_def split: if_splits)
next
  case False
  then show ?thesis
    using assms moved_refl [OF assms] decoder_abort_moved [OF assms, of "- offset"] decoder_abort_moved [OF assms, of 7]
    by (auto simp: decoder_seek_def)
qed

lemma decoder_seek_slice:
  assumes "decoder_ok d" "0 \<le> de_pos d" "0 \<le> n" "n \<le> decoder_left d"
  shows "decoder_seek d n = d\<lparr>de_pos := de_pos d + n\<rparr>"
proof -
  have le: "de_pos d + n \<le> de_size d" "de_size d \<le> 2147483647"
    using assms by (simp_all add: decoder_left_def decoder_ok_def)
  have "uint (of_int (de_pos d + n) :: 32 word) = de_pos d + n"
    unfolding uint_word_of_int_eq using assms(2,3) le by (intro take_bit_int_eq_self) simp_all
  then have "(of_int (de_pos d + n) :: 32 word) \<le> 0x7fffffff"
    using le by (simp add: word_le_def del: of_int_add)
  then show ?thesis
    using assms le by (simp add: decoder_seek_def not_less Let_def)
qed

lemma skip_field_safe: "safe (\<lambda>d. pbtools_decoder_skip_field d wt \<bind> (\<lambda>d. Some ((), d)))"
proof -
  have seek: "safe (\<lambda>d. Some ((), decoder_seek d n))" for n
    by (simp add: safe_def decoder_seek_moved)
  have "safe (\<lambda>d. decoder_read_varint d \<bind> (\<lambda>(_, d). Some ((), d)))"
    "safe (\<lambda>d. decoder_read_length_delimited d wt \<bind> (\<lambda>(n, d). Some ((), decoder_seek d (to_int n))))"
    by (intro pb_safe seek)+
  from this [unfolded split_beta] show ?thesis
    using seek [of 4] seek [of 8] safe_abort [of 1 "()"]
    by (cases "wt = 0"; cases "wt = 1"; cases "wt = 2"; cases "wt = 5")
      (simp_all add: pbtools_decoder_skip_field_def split_beta)
qed

subsection \<open>Strings and bytes\<close>

lemma allocated_holds: "heap_ok h \<Longrightarrow> allocated h (uint n) alignment addr h' \<Longrightarrow> heap_holds h' addr n"
  by (auto simp: allocated_def heap_holds_def heap_ok_def)

lemma heap_alloc_bytes:
  assumes "heap_ok h" "uint n \<le> int INT_MAX"
  obtains "heap_alloc h n 1 = (None, h)" "hp_size h - hp_pos h < uint n"
  | addr h' where "heap_alloc h n 1 = (Some addr, h')" "allocated h (uint n) 1 addr h'" "heap_holds h' addr n"
  using heap_alloc_cases [OF assms(1), of n 0] assms allocated_holds [OF assms(1)] by auto

theorem read_bytes_safe:
  assumes d: "decoder_ok d" and h: "heap_ok h"
  shows "\<exists>b d' h'. pbtools_decoder_read_bytes d h wt = Some (b, d', h') \<and> moved d d' \<and> heap_ok h'
    \<and> (case by_buf b of None \<Rightarrow> de_pos d' < 0 \<and> h' = h | Some buf \<Rightarrow> length buf = unat (by_size b))"
proof -
  obtain n d1 where n: "decoder_read_length_delimited d wt = Some (n, d1)" and d1: "moved d d1"
    using read_length_delimited_safe d by (fastforce simp: safe_def)
  have small: "uint n < int INT_MAX"
    using n by (rule read_length_delimited_small)
  from h order.strict_implies_order [OF small] show ?thesis
  proof (cases rule: heap_alloc_bytes)
    case 1
    have "moved d (decoder_abort d1 3)"
      using d1 decoder_abort_moved [OF moved_ok [OF d1], of 3] moved_trans by simp
    then show ?thesis
      using 1 n h by (auto simp: pbtools_decoder_read_bytes_def decoder_heap_alloc_def decoder_abort_def)
  next
    case (2 addr h')
    obtain v d2 where v: "decoder_read d1 n = Some (v, d2)" "moved d1 d2"
      using decoder_read_safe [of n] small moved_ok [OF d1] by (fastforce simp: safe_def)
    have "length v = unat n"
      using v(1) by (rule decoder_read_length)
    then show ?thesis
      using 2 n v moved_trans [OF d1 v(2)] by (simp add: pbtools_decoder_read_bytes_def decoder_heap_alloc_def allocated_def)
  qed
qed

theorem read_string_safe:
  assumes d: "decoder_ok d" and h: "heap_ok h"
  shows "\<exists>s d' h'. pbtools_decoder_read_string d h wt = Some (s, d', h') \<and> moved d d' \<and> heap_ok h'
    \<and> (case s of None \<Rightarrow> de_pos d' < 0 \<and> h' = h | Some buf \<Rightarrow> last buf = 0)"
proof -
  obtain n d1 where n: "decoder_read_length_delimited d wt = Some (n, d1)" and d1: "moved d d1"
    using read_length_delimited_safe d by (fastforce simp: safe_def)
  have small: "uint n < int INT_MAX"
    using n by (rule read_length_delimited_small)
  then have small': "uint (n + 1) \<le> int INT_MAX"
    using uint_add_64 [of n 1] by simp
  from h small' show ?thesis
  proof (cases rule: heap_alloc_bytes)
    case 1
    have "moved d (decoder_abort d1 3)"
      using d1 decoder_abort_moved [OF moved_ok [OF d1], of 3] moved_trans by simp
    then show ?thesis
      using 1 n h by (auto simp: pbtools_decoder_read_string_def decoder_heap_alloc_def decoder_abort_def)
  next
    case (2 addr h')
    obtain v d2 where v: "decoder_read d1 n = Some (v, d2)" "moved d1 d2"
      using decoder_read_safe [of n] small moved_ok [OF d1] by (fastforce simp: safe_def)
    then show ?thesis
      using 2 n moved_trans [OF d1 v(2)] by (simp add: pbtools_decoder_read_string_def decoder_heap_alloc_def allocated_def)
  qed
qed

end
