(* ===== verification/PbWire.thy ===== *)
theory PbWire
  imports PbDecode
begin

text \<open>
  What the encoder writes is what the decoder reads (\<^verbatim>\<open>proto/pbtools.c\<close>): variable length integers, tags, and the
  fields of every type.
\<close>

section \<open>Bytes ahead of a decoder\<close>

definition ahead :: "pbtools_decoder \<Rightarrow> u8 list \<Rightarrow> bool" where
  "ahead d bs \<longleftrightarrow> decoder_ok d \<and> 0 \<le> de_pos d \<and> de_pos d + int (length bs) \<le> de_size d
     \<and> mem_read (de_buf d) (nat (de_pos d)) (length bs) = bs"

definition advance :: "pbtools_decoder \<Rightarrow> u8 list \<Rightarrow> pbtools_decoder" where
  "advance d bs = d\<lparr>de_pos := de_pos d + int (length bs)\<rparr>"

definition reads :: "(pbtools_decoder \<Rightarrow> ('a \<times> pbtools_decoder) option) \<Rightarrow> u8 list \<Rightarrow> 'a \<Rightarrow> bool" where
  "reads f bs v \<longleftrightarrow> (\<forall>d. ahead d bs \<longrightarrow> f d = Some (v, advance d bs))"

lemma ahead_append:
  "ahead d (a @ b) \<longleftrightarrow> ahead d a \<and> ahead (advance d a) b"
proof -
  have "mem_read (de_buf d) (nat (de_pos d)) (length a + length b) = a @ b \<longleftrightarrow>
      mem_read (de_buf d) (nat (de_pos d)) (length a) = a \<and> mem_read (de_buf d) (nat (de_pos d) + length a) (length b) = b"
    if "nat (de_pos d) + length a \<le> length (de_buf d)"
    using that by (simp add: mem_read_append [symmetric])
  then show ?thesis
    by (auto simp: ahead_def advance_def decoder_ok_def nat_add_distrib)
qed

lemma advance_append [simp]: "advance d (a @ b) = advance (advance d a) b"
  by (simp add: advance_def)

lemma advance_Nil [simp]: "advance d [] = d"
  by (simp add: advance_def)

lemma ahead_ok: "ahead d bs \<Longrightarrow> decoder_ok (advance d bs)"
  by (auto simp: ahead_def advance_def decoder_ok_def)

named_theorems pb_reads \<open>what the operations of the decoder read\<close>

lemma reads_return: "reads (\<lambda>d. Some (v, d)) [] v"
  by (simp add: reads_def)

lemma reads_bind:
  "reads f a x \<Longrightarrow> reads (g x) b y \<Longrightarrow> reads (\<lambda>d. f d \<bind> (\<lambda>(v, d). g v d)) (a @ b) y"
  by (simp add: reads_def ahead_append)

lemma reads_map: "reads f a x \<Longrightarrow> reads (\<lambda>d. f d \<bind> (\<lambda>(v, d). Some (g v, d))) a (g x)"
  by (simp add: reads_def)

section \<open>Variable length integers\<close>

lemma decoder_get_reads: "reads decoder_get [b] b"
  unfolding reads_def
proof (intro allI impI)
  fix d assume d: "ahead d [b]"
  then have "nat (de_pos d) < length (de_buf d)"
    by (auto simp: ahead_def decoder_ok_def split: if_splits)
  then have "de_buf d ! nat (de_pos d) = b"
    using d nth_mem_read [of "nat (de_pos d)" 1 "de_buf d" 0] by (simp add: ahead_def)
  then show "decoder_get d = Some (b, advance d [b])"
    using d by (auto simp: decoder_get_def pbtools_decoder_available_def ahead_def decoder_ok_def advance_def split: if_splits)
qed

lemma bit_127: "bit (127 :: int) n \<longleftrightarrow> n < 7"
  using bit_mask_iff [of 7 n, where 'a = int] by (simp add: mask_eq_exp_minus_1)

lemma bit_128: "bit (128 :: int) n \<longleftrightarrow> n = 7"
  using bit_exp_iff [of 7 n, where 'a = int] by auto

lemma low_bits: "(ucast (ucast (w OR 0x80) :: u8) :: u64) AND 0x7f = w AND 0x7f"
  by (rule bit_word_eqI) (auto simp: bit_simps bit_127 bit_128)

lemma continued: "(ucast ((w :: u64) OR 0x80) :: u8) AND 0x80 \<noteq> 0"
proof -
  have "bit ((ucast (w OR 0x80) :: u8) AND 0x80) 7"
    by (simp add: bit_simps bit_128)
  then show ?thesis
    by auto
qed

lemma last_digit: "\<not> 0 < drop_bit 7 (w :: u64) \<Longrightarrow> ((ucast w :: u8) AND 0x7f) AND 0x80 = 0 \<and> (ucast ((ucast w :: u8) AND 0x7f) :: u64) AND 0x7f = w"
proof -
  assume "\<not> 0 < drop_bit 7 w"
  then have "drop_bit 7 w = 0" using word_gt_0 by auto
  then have "bit (drop_bit 7 w) n = bit (0 :: u64) n" for n
    by simp
  then have nb: "\<not> bit w (7 + n)" for n
    by (simp add: bit_drop_bit_eq)
  have high: "n < 7" if "bit w n" for n
    using that nb [of "n - 7"] by (cases "7 \<le> n") simp_all
  have "((ucast w :: u8) AND 0x7f) AND 0x80 = 0"
    by (rule bit_word_eqI) (auto simp: bit_simps bit_127 bit_128)
  moreover have "(ucast ((ucast w :: u8) AND 0x7f) :: u64) AND 0x7f = w"
    by (rule bit_word_eqI) (auto simp: bit_simps bit_127 dest: high)
  ultimately show ?thesis ..
qed

lemma join_digits: "push_bit k ((w :: u64) AND 0x7f) OR push_bit (k + 7) (drop_bit 7 w) = push_bit k w"
proof (rule bit_word_eqI)
  fix n assume "n < LENGTH(64)"
  then show "bit (push_bit k (w AND 0x7f) OR push_bit (k + 7) (drop_bit 7 w)) n = bit (push_bit k w) n"
    by (cases "k + 7 \<le> n") (auto simp: bit_simps bit_127 not_le)
qed

lemma varint_loop_more:
  assumes "c AND 0x80 \<noteq> 0" "offset + 7 < 64"
    "reads (\<lambda>d. decoder_read_varint_loop d (v OR push_bit offset (ucast c AND 0x7f)) (offset + 7)) bs r"
  shows "reads (\<lambda>d. decoder_read_varint_loop d v offset) ([c] @ bs) r"
  unfolding decoder_read_varint_loop.simps [of _ v offset] Let_def
  by (rule reads_bind [OF decoder_get_reads]) (simp only: assms simp_thms if_True)

lemma varint_loop_last:
  assumes "c AND 0x80 = 0"
  shows "reads (\<lambda>d. decoder_read_varint_loop d v offset) ([c] @ []) (v OR push_bit offset (ucast c AND 0x7f), c)"
  unfolding decoder_read_varint_loop.simps [of _ v offset] Let_def
  by (rule reads_bind [OF decoder_get_reads]) (simp only: assms simp_thms if_False reads_return)

lemma varint_loop_reads:
  "unat w * 2 ^ offset < 18446744073709551616 \<Longrightarrow> offset < 64 \<Longrightarrow>
    \<exists>b. b AND 0x80 = 0 \<and> reads (\<lambda>d. decoder_read_varint_loop d v offset) (varint_bytes w) (v OR push_bit offset w, b)"
proof (induction "unat w" arbitrary: w v offset rule: less_induct)
  case less
  show ?case
  proof (cases "drop_bit 7 w > 0")
    case True
    have w: "128 \<le> unat w"
      using True by (simp add: word_less_nat_alt unat_drop_bit_64)
    have "128 * 2 ^ offset < (18446744073709551616 :: nat)"
      using mult_le_mono1 [OF w] less.prems(1) by (rule le_less_trans)
    then have "(2 :: nat) ^ 7 * 2 ^ offset < 2 ^ 64"
      by simp
    then have off: "offset + 7 < 64"
      by (simp only: power_add [symmetric] power_strict_increasing_iff)
    have "unat (drop_bit 7 w) * 2 ^ (offset + 7) = (unat w div 128 * 128) * 2 ^ offset"
      by (simp add: unat_drop_bit_64 power_add)
    also have "\<dots> \<le> unat w * 2 ^ offset"
      by (intro mult_le_mono1) simp
    finally have *: "unat (drop_bit 7 w) * 2 ^ (offset + 7) < 18446744073709551616"
      using less.prems(1) by simp
    define v' where "v' = v OR push_bit offset (w AND 0x7f)"
    have v': "v' OR push_bit (offset + 7) (drop_bit 7 w) = v OR push_bit offset w"
      by (simp only: v'_def or.assoc join_digits)
    have "unat (drop_bit 7 w) < unat w"
      using w by (simp add: unat_drop_bit_64)
    from less.hyps [OF this * off, of v', unfolded v'] obtain b where b: "b AND 0x80 = 0"
      "reads (\<lambda>d. decoder_read_varint_loop d v' (offset + 7)) (varint_bytes (drop_bit 7 w)) (v OR push_bit offset w, b)"
      by blast
    have "reads (\<lambda>d. decoder_read_varint_loop d v offset) ([ucast (w OR 0x80)] @ varint_bytes (drop_bit 7 w)) (v OR push_bit offset w, b)"
      by (rule varint_loop_more [OF continued off]) (simp only: low_bits v'_def [symmetric] b)
    then show ?thesis
      using b(1) True by (auto simp: varint_bytes_rec [of w])
  next
    case False
    have "reads (\<lambda>d. decoder_read_varint_loop d v offset) ([ucast w AND 0x7f] @ []) (v OR push_bit offset w, ucast w AND 0x7f)"
      using varint_loop_last [OF conjunct1 [OF last_digit [OF False]], of v offset]
      by (simp only: conjunct2 [OF last_digit [OF False]])
    moreover have "varint_bytes w = [ucast w AND 0x7f] @ []"
      using False by (subst varint_bytes_rec) simp
    ultimately show ?thesis
      using conjunct1 [OF last_digit [OF False]] by metis
  qed
qed

lemma decoder_read_varint_reads [pb_reads]: "reads decoder_read_varint (varint_bytes w) w"
proof -
  obtain b where "b AND 0x80 = 0" "reads (\<lambda>d. decoder_read_varint_loop d 0 0) (varint_bytes w) (w, b)"
    using varint_loop_reads [of w 0 0] by auto
  then show ?thesis
    by (simp add: reads_def decoder_read_varint_def)
qed

section \<open>Tags and fields\<close>

definition field_number_ok :: "u32 \<Rightarrow> bool" where
  "field_number_ok fn \<longleftrightarrow> 0 < fn \<and> fn < 0x20000000"

lemma bit_below:
  assumes "unat (w :: 'a :: len word) < 2 ^ k" "bit w n"
  shows "n < k"
proof -
  have "bit (unat w) n"
    using assms(2) by (simp add: bit_unsigned_iff)
  then have "odd (unat w div 2 ^ n)"
    by (simp add: bit_iff_odd)
  then have "(2 :: nat) ^ n \<le> unat w"
    by (metis div_less even_zero not_le)
  then have "(2 :: nat) ^ n < 2 ^ k"
    using assms(1) by (rule le_less_trans)
  then show ?thesis
    by (simp only: power_strict_increasing_iff)
qed

lemma bit_7: "bit (7 :: int) n \<longleftrightarrow> n < 3"
  using bit_mask_iff [of 3 n, where 'a = int] by (simp add: mask_eq_exp_minus_1)

lemma tag_split:
  assumes "field_number_ok fn" "wt < 8"
  defines "t \<equiv> (ucast (ucast (push_bit 3 fn) OR ucast wt :: u64) :: u32)"
  shows "drop_bit 3 t = fn" "t AND 7 = wt"
proof -
  have fn: "n < 29" if "bit fn n" for n
    using that assms(1) bit_below [of fn 29] by (simp add: field_number_ok_def word_less_nat_alt)
  have wt: "n < 3" if "bit wt n" for n
    using that assms(2) bit_below [of wt 3] by (simp add: word_less_nat_alt)
  show "drop_bit 3 t = fn"
    by (rule bit_word_eqI) (auto simp: t_def bit_simps dest: fn wt)
  show "t AND 7 = wt"
    by (rule bit_word_eqI) (auto simp: t_def bit_simps bit_7 dest: wt)
qed

lemma read_tag_reads [pb_reads]:
  assumes "field_number_ok fn" "wt < 8"
  shows "reads pbtools_decoder_read_tag (tag_bytes fn wt) (fn, wt)"
  using decoder_read_varint_reads [of "ucast (push_bit 3 fn) OR ucast wt"] tag_split [OF assms] assms(1)
  by (auto simp: reads_def tag_bytes_def pbtools_decoder_read_tag_def Let_def field_number_ok_def)

lemma decoder_read_reads:
  assumes "length bs \<le> INT_MAX"
  shows "reads (\<lambda>d. decoder_read d (of_nat (length bs))) bs bs"
  unfolding reads_def
proof (intro allI impI)
  fix d assume d: "ahead d bs"
  then have "de_pos d + int (length bs) \<le> int (length (de_buf d))"
    by (auto simp: ahead_def decoder_ok_def split: if_splits)
  moreover have "uint (of_nat (length bs) :: u64) = int (length bs)" "unat (of_nat (length bs) :: u64) = length bs"
    using assms by (simp_all add: uint_of_nat_64 unat_of_nat_64)
  ultimately show "decoder_read d (of_nat (length bs)) = Some (bs, advance d bs)"
    using d assms by (simp add: decoder_read_def ahead_def advance_def)
qed

lemma bit_255: "bit (255 :: int) n \<longleftrightarrow> n < 8"
  using bit_mask_iff [of 8 n, where 'a = int] by (simp add: mask_eq_exp_minus_1)

lemma bit_byte:
  "bit (push_bit k (ucast (ucast (drop_bit k (v :: 'a :: len word) AND 0xff) :: u8)) :: 'a word) n \<longleftrightarrow> k \<le> n \<and> n < k + 8 \<and> bit v n"
  by (auto simp: bit_simps bit_255 dest: bit_imp_le_length)

lemma bit_byte_0: "bit (ucast (ucast ((v :: 'a :: len word) AND 0xff) :: u8) :: 'a word) n \<longleftrightarrow> n < 8 \<and> bit v n"
  using bit_byte [of 0 v n] by simp

lemma fixed32_join:
  "ucast (ucast (v AND 0xff) :: u8) OR push_bit 8 (ucast (ucast (drop_bit 8 v AND 0xff) :: u8))
    OR push_bit 16 (ucast (ucast (drop_bit 16 v AND 0xff) :: u8)) OR push_bit 24 (ucast (ucast (drop_bit 24 v AND 0xff) :: u8))
    = (v :: u32)"
  by (rule bit_word_eqI) (unfold bit_or_iff bit_byte bit_byte_0, auto)

lemma fixed64_join:
  "ucast (ucast (v AND 0xff) :: u8) OR push_bit 8 (ucast (ucast (drop_bit 8 v AND 0xff) :: u8))
    OR push_bit 16 (ucast (ucast (drop_bit 16 v AND 0xff) :: u8)) OR push_bit 24 (ucast (ucast (drop_bit 24 v AND 0xff) :: u8))
    OR push_bit 32 (ucast (ucast (drop_bit 32 v AND 0xff) :: u8)) OR push_bit 40 (ucast (ucast (drop_bit 40 v AND 0xff) :: u8))
    OR push_bit 48 (ucast (ucast (drop_bit 48 v AND 0xff) :: u8)) OR push_bit 56 (ucast (ucast (drop_bit 56 v AND 0xff) :: u8))
    = (v :: u64)"
  by (rule bit_word_eqI) (unfold bit_or_iff bit_byte bit_byte_0, auto)

lemma read_fixed_reads [pb_reads]:
  "reads decoder_read_32_bit_value (fixed32_bytes v) v"
  "reads decoder_read_64_bit_value (fixed64_bytes w) w"
proof -
  have "reads (\<lambda>d. decoder_read d 4) (fixed32_bytes v) (fixed32_bytes v)"
    "reads (\<lambda>d. decoder_read d 8) (fixed64_bytes w) (fixed64_bytes w)"
    using decoder_read_reads [of "fixed32_bytes v"] decoder_read_reads [of "fixed64_bytes w"]
    by (simp_all add: fixed32_bytes_def fixed64_bytes_def)
  then show "reads decoder_read_32_bit_value (fixed32_bytes v) v" "reads decoder_read_64_bit_value (fixed64_bytes w) w"
    by (simp_all add: reads_def decoder_read_32_bit_value_def decoder_read_64_bit_value_def)
      (simp_all add: fixed32_bytes_def fixed32_join fixed64_bytes_def fixed64_join)
qed

lemma ucast_ucast_32 [simp]: "ucast (ucast (i :: u32) :: u64) = i"
  by (rule bit_word_eqI) (auto simp: bit_simps)

lemma read_varint_fields_reads [pb_reads]:
  "reads (\<lambda>d. pbtools_decoder_read_int32 d 0) (varint_bytes (scast i)) i"
  "reads (\<lambda>d. pbtools_decoder_read_int64 d 0) (varint_bytes v) v"
  "reads (\<lambda>d. pbtools_decoder_read_sint32 d 0) (varint_bytes (sint64_encode (scast i))) i"
  "reads (\<lambda>d. pbtools_decoder_read_sint64 d 0) (varint_bytes (sint64_encode v)) v"
  "reads (\<lambda>d. pbtools_decoder_read_uint32 d 0) (varint_bytes (ucast i)) i"
  "reads (\<lambda>d. pbtools_decoder_read_uint64 d 0) (varint_bytes v) v"
  "reads (\<lambda>d. pbtools_decoder_read_enum d 0) (varint_bytes (scast i)) i"
  "reads (\<lambda>d. pbtools_decoder_read_bool d 0) (varint_bytes (if b then 1 else 0)) b"
  using decoder_read_varint_reads
  by (simp_all add: reads_def pbtools_decoder_read_int32_def pbtools_decoder_read_int64_def pbtools_decoder_read_sint32_def
      pbtools_decoder_read_sint64_def pbtools_decoder_read_uint32_def pbtools_decoder_read_uint64_def
      pbtools_decoder_read_bool_def pbtools_decoder_read_enum_def read_varint_check_wire_type_varint_def
      read_varint_check_wire_type_def)

lemma read_fixed_fields_reads [pb_reads]:
  "reads (\<lambda>d. pbtools_decoder_read_fixed32 d 5) (fixed32_bytes i) i"
  "reads (\<lambda>d. pbtools_decoder_read_sfixed32 d 5) (fixed32_bytes i) i"
  "reads (\<lambda>d. pbtools_decoder_read_float d 5) (fixed32_bytes i) i"
  "reads (\<lambda>d. pbtools_decoder_read_fixed64 d 1) (fixed64_bytes v) v"
  "reads (\<lambda>d. pbtools_decoder_read_sfixed64 d 1) (fixed64_bytes v) v"
  "reads (\<lambda>d. pbtools_decoder_read_double d 1) (fixed64_bytes v) v"
  using read_fixed_reads
  by (simp_all add: reads_def pbtools_decoder_read_fixed32_def pbtools_decoder_read_sfixed32_def pbtools_decoder_read_float_def
      pbtools_decoder_read_fixed64_def pbtools_decoder_read_sfixed64_def pbtools_decoder_read_double_def)

lemma read_length_delimited_reads [pb_reads]:
  assumes "n < INT_MAX"
  shows "reads (\<lambda>d. decoder_read_length_delimited d 2) (varint_bytes (of_nat n)) (of_nat n)"
proof -
  have "unat (of_nat n :: u64) = n"
    using assms by (intro unat_of_nat_64) simp
  then have "\<not> (of_nat n :: u64) \<ge> 0x7fffffff"
    using assms by (simp add: word_le_nat_alt)
  then show ?thesis
    using decoder_read_varint_reads [of "of_nat n"]
    by (simp add: reads_def decoder_read_length_delimited_def read_varint_check_wire_type_def)
qed

subsection \<open>Strings and bytes\<close>

lemma read_bytes_reads:
  assumes bs: "length bs < INT_MAX" and d: "ahead d (varint_bytes (of_nat (length bs)) @ bs)"
    and h: "heap_ok h" "int (length bs) \<le> hp_size h - hp_pos h"
  shows "\<exists>h'. pbtools_decoder_read_bytes d h PBTOOLS_WIRE_TYPE_LENGTH_DELIMITED =
    Some (\<lparr>by_buf = Some bs, by_size = of_nat (length bs)\<rparr>, advance d (varint_bytes (of_nat (length bs)) @ bs), h')
    \<and> heap_ok h' \<and> hp_pos h' = hp_pos h + int (length bs)"
proof -
  define n where "n = (of_nat (length bs) :: u64)"
  define d1 where "d1 = advance d (varint_bytes n)"
  have d1: "ahead d (varint_bytes n)" "ahead d1 bs"
    using d by (simp_all add: ahead_append n_def d1_def)
  have n: "uint n = int (length bs)"
    using bs by (simp add: n_def uint_of_nat_64)
  have len: "decoder_read_length_delimited d 2 = Some (n, d1)" "decoder_read d1 n = Some (bs, advance d1 bs)"
    using read_length_delimited_reads [OF bs] decoder_read_reads [of bs] bs d1 by (simp_all add: reads_def n_def d1_def)
  have "uint n \<le> int INT_MAX"
    using n bs by simp
  from h(1) this obtain addr h' where h': "heap_alloc h n 1 = (Some addr, h')" "allocated h (uint n) 1 addr h'" "heap_holds h' addr n"
    using h(2) n by (cases rule: heap_alloc_bytes) auto
  then have "heap_ok h'" "hp_pos h' = hp_pos h + int (length bs)"
    using n by (simp_all add: allocated_def)
  then show ?thesis
    using len h'(1,3) by (simp add: pbtools_decoder_read_bytes_def decoder_heap_alloc_def d1_def n_def)
qed

lemma read_string_reads:
  assumes bs: "length bs < INT_MAX" and d: "ahead d (varint_bytes (of_nat (length bs)) @ bs)"
    and h: "heap_ok h" "int (length bs) + 1 \<le> hp_size h - hp_pos h"
  shows "\<exists>h'. pbtools_decoder_read_string d h PBTOOLS_WIRE_TYPE_LENGTH_DELIMITED =
    Some (Some (bs @ [0]), advance d (varint_bytes (of_nat (length bs)) @ bs), h')
    \<and> heap_ok h' \<and> hp_pos h' = hp_pos h + int (length bs) + 1"
proof -
  define n where "n = (of_nat (length bs) :: u64)"
  define d1 where "d1 = advance d (varint_bytes n)"
  have d1: "ahead d (varint_bytes n)" "ahead d1 bs"
    using d by (simp_all add: ahead_append n_def d1_def)
  have n: "uint (n + 1) = int (length bs) + 1"
    using bs uint_add_64 [of n 1] by (simp add: n_def uint_of_nat_64)
  have len: "decoder_read_length_delimited d 2 = Some (n, d1)" "decoder_read d1 n = Some (bs, advance d1 bs)"
    using read_length_delimited_reads [OF bs] decoder_read_reads [of bs] bs d1 by (simp_all add: reads_def n_def d1_def)
  have "uint (n + 1) \<le> int INT_MAX"
    using n bs by simp
  from h(1) this obtain addr h' where h': "heap_alloc h (n + 1) 1 = (Some addr, h')" "allocated h (uint (n + 1)) 1 addr h'"
      "heap_holds h' addr (n + 1)"
    using h(2) n by (cases rule: heap_alloc_bytes) auto
  then have "heap_ok h'" "hp_pos h' = hp_pos h + int (length bs) + 1"
    using n by (simp_all add: allocated_def)
  then show ?thesis
    using len h'(1,3) by (simp add: pbtools_decoder_read_string_def decoder_heap_alloc_def d1_def n_def)
qed

subsection \<open>Fields of every type\<close>

text \<open>
  A field that is written in any case, and one that is only written when it differs from its default; the decoder reads
  the tag and then the value.
\<close>

definition field_codec ::
    "(pbtools_encoder \<Rightarrow> u32 \<Rightarrow> 'v \<Rightarrow> pbtools_encoder option) \<Rightarrow> (pbtools_encoder \<Rightarrow> u32 \<Rightarrow> 'v \<Rightarrow> pbtools_encoder option) \<Rightarrow>
     (pbtools_decoder \<Rightarrow> u32 \<Rightarrow> ('v \<times> pbtools_decoder) option) \<Rightarrow> ('v \<Rightarrow> u8 list) \<Rightarrow> u32 \<Rightarrow> 'v \<Rightarrow> bool" where
  "field_codec write_field write_always read_field bytes wt dflt \<longleftrightarrow>
     (\<forall>fn v. writes (\<lambda>e. write_always e fn v) (tag_bytes fn wt @ bytes v)
        \<and> writes (\<lambda>e. write_field e fn v) (if v = dflt then [] else tag_bytes fn wt @ bytes v)
        \<and> (field_number_ok fn \<longrightarrow> reads pbtools_decoder_read_tag (tag_bytes fn wt) (fn, wt))
        \<and> reads (\<lambda>d. read_field d wt) (bytes v) v)"

lemma bool_field_default:
  "(if b = False then [] else tag_bytes fn 0 @ varint_bytes (if b then 1 else 0)) = (if b then varint_field fn 1 else [])"
  by (simp add: varint_field_def)

lemma field_codecs:
  "field_codec pbtools_encoder_write_int32 pbtools_encoder_write_int32_always pbtools_decoder_read_int32 (\<lambda>x. varint_bytes (scast x)) 0 0"
  "field_codec pbtools_encoder_write_int64 pbtools_encoder_write_int64_always pbtools_decoder_read_int64 (\<lambda>x. varint_bytes x) 0 0"
  "field_codec pbtools_encoder_write_sint32 pbtools_encoder_write_sint32_always pbtools_decoder_read_sint32 (\<lambda>x. varint_bytes (sint64_encode (scast x))) 0 0"
  "field_codec pbtools_encoder_write_sint64 pbtools_encoder_write_sint64_always pbtools_decoder_read_sint64 (\<lambda>x. varint_bytes (sint64_encode x)) 0 0"
  "field_codec pbtools_encoder_write_uint32 pbtools_encoder_write_uint32_always pbtools_decoder_read_uint32 (\<lambda>x. varint_bytes (ucast x)) 0 0"
  "field_codec pbtools_encoder_write_uint64 pbtools_encoder_write_uint64_always pbtools_decoder_read_uint64 (\<lambda>x. varint_bytes x) 0 0"
  "field_codec pbtools_encoder_write_enum pbtools_encoder_write_enum_always pbtools_decoder_read_enum (\<lambda>x. varint_bytes (scast x)) 0 0"
  "field_codec pbtools_encoder_write_bool pbtools_encoder_write_bool_always pbtools_decoder_read_bool (\<lambda>x. varint_bytes (if x then 1 else 0)) 0 False"
  "field_codec pbtools_encoder_write_fixed32 pbtools_encoder_write_fixed32_always pbtools_decoder_read_fixed32 (\<lambda>x. fixed32_bytes x) 5 0"
  "field_codec pbtools_encoder_write_sfixed32 pbtools_encoder_write_sfixed32_always pbtools_decoder_read_sfixed32 (\<lambda>x. fixed32_bytes x) 5 0"
  "field_codec pbtools_encoder_write_float pbtools_encoder_write_float_always pbtools_decoder_read_float (\<lambda>x. fixed32_bytes x) 5 0"
  "field_codec pbtools_encoder_write_fixed64 pbtools_encoder_write_fixed64_always pbtools_decoder_read_fixed64 (\<lambda>x. fixed64_bytes x) 1 0"
  "field_codec pbtools_encoder_write_sfixed64 pbtools_encoder_write_sfixed64_always pbtools_decoder_read_sfixed64 (\<lambda>x. fixed64_bytes x) 1 0"
  "field_codec pbtools_encoder_write_double pbtools_encoder_write_double_always pbtools_decoder_read_double (\<lambda>x. fixed64_bytes x) 1 0"
  unfolding field_codec_def bool_field_default
  by (simp_all add: read_tag_reads read_varint_fields_reads read_fixed_fields_reads
      write_varint_fields_write [unfolded varint_field_def] write_varint_fields_always_write [unfolded varint_field_def]
      write_varint_fields_write(8) [where b = True, simplified] write_varint_fields_write(8) [where b = False, simplified]
      write_fixed_fields_write [unfolded fixed32_field_def fixed64_field_def]
      write_fixed_fields_always_write [unfolded fixed32_field_def fixed64_field_def] del: if_split)

end
