(* ===== verification/PbRepeated.thy ===== *)
theory PbRepeated
  imports PbWire
begin

text \<open>
  Repeated fields and messages (\<^verbatim>\<open>proto/pbtools.c\<close>). A repeated field is read twice: a first pass counts its items and
  remembers where the first of them stands, a second one allocates an array and fills it. The array is a list whose
  elements are \<open>None\<close> until they have been written; an index outside of it is undefined behaviour. The functions
  that encode, decode and initialise a particular message are generated from its definition and are parameters.
  A decoder and the slices of it share one heap, which the operations pass on.

  Proved: a repeated field and a message are read back as they were written; the second pass over a packed field
  writes as many items as the first has counted, for every input when the items are variable length integers, and
  beyond the array when they have a fixed size and the field is no multiple of it.
\<close>

section \<open>Definitions\<close>

record 'i pbtools_repeated =
  rep_length :: int
  rep_items :: "'i list"

definition item_at :: "'i list \<Rightarrow> int \<Rightarrow> 'i option" where
  "item_at items i = (if 0 \<le> i \<and> i < int (length items) then Some (items ! nat i) else None)"

definition set_item :: "'i option list \<Rightarrow> int \<Rightarrow> 'i \<Rightarrow> 'i option list option" where
  "set_item items i v = (if 0 \<le> i \<and> i < int (length items) then Some (items[nat i := Some v]) else None)"

subsection \<open>Encoding\<close>

type_synonym 'i repeated_item_write = "pbtools_encoder \<Rightarrow> int \<Rightarrow> 'i list \<Rightarrow> pbtools_encoder option"

fun encoder_write_items :: "'i repeated_item_write \<Rightarrow> nat \<Rightarrow> 'i list \<Rightarrow> pbtools_encoder \<Rightarrow> pbtools_encoder option" where
  "encoder_write_items item_write 0 items self = Some self"
| "encoder_write_items item_write (Suc i) items self = do {
     self \<leftarrow> item_write self (int i) items;
     encoder_write_items item_write i items self
   }"

definition encoder_write_repeated ::
    "pbtools_encoder \<Rightarrow> u32 \<Rightarrow> 'i pbtools_repeated \<Rightarrow> 'i repeated_item_write \<Rightarrow> pbtools_encoder option" where
  "encoder_write_repeated self field_number repeated item_write =
     (if rep_length repeated = 0 then Some self
      else do {
        let pos = en_pos self;
        self \<leftarrow> encoder_write_items item_write (nat (rep_length repeated)) (rep_items repeated) self;
        encoder_write_tagged_varint self field_number PBTOOLS_WIRE_TYPE_LENGTH_DELIMITED (of_int (pos - en_pos self))
      })"

definition write_repeated_int32 :: "i32 repeated_item_write" where
  "write_repeated_int32 self index items = do {
     v \<leftarrow> item_at items index;
     encoder_write_varint self (scast v)
   }"

definition write_repeated_int64 :: "i64 repeated_item_write" where
  "write_repeated_int64 self index items = do {
     v \<leftarrow> item_at items index;
     encoder_write_varint self v
   }"

definition write_repeated_sint32 :: "i32 repeated_item_write" where
  "write_repeated_sint32 self index items = do {
     v \<leftarrow> item_at items index;
     encoder_write_varint self (ucast (sint32_encode v))
   }"

definition write_repeated_sint64 :: "i64 repeated_item_write" where
  "write_repeated_sint64 self index items = do {
     v \<leftarrow> item_at items index;
     encoder_write_varint self (sint64_encode v)
   }"

definition write_repeated_uint32 :: "u32 repeated_item_write" where
  "write_repeated_uint32 self index items = do {
     v \<leftarrow> item_at items index;
     encoder_write_varint self (ucast v)
   }"

definition write_repeated_uint64 :: "u64 repeated_item_write" where
  "write_repeated_uint64 self index items = do {
     v \<leftarrow> item_at items index;
     encoder_write_varint self v
   }"

definition write_repeated_32bit :: "u32 repeated_item_write" where
  "write_repeated_32bit self index items = do {
     v \<leftarrow> item_at items index;
     encoder_write_32_bit_value self v
   }"

definition write_repeated_64bit :: "u64 repeated_item_write" where
  "write_repeated_64bit self index items = do {
     v \<leftarrow> item_at items index;
     encoder_write_64_bit_value self v
   }"

definition write_repeated_float :: "u32 repeated_item_write" where
  "write_repeated_float self index items = do {
     v \<leftarrow> item_at items index;
     encoder_write_32_bit_value self v
   }"

definition write_repeated_double :: "u64 repeated_item_write" where
  "write_repeated_double self index items = do {
     v \<leftarrow> item_at items index;
     encoder_write_64_bit_value self v
   }"

definition write_repeated_bool :: "bool repeated_item_write" where
  "write_repeated_bool self index items = do {
     v \<leftarrow> item_at items index;
     encoder_write_varint self (if v then 1 else 0)
   }"

definition pbtools_encoder_write_repeated_int32 ::
    "pbtools_encoder \<Rightarrow> u32 \<Rightarrow> i32 pbtools_repeated \<Rightarrow> pbtools_encoder option" where
  "pbtools_encoder_write_repeated_int32 self field_number repeated =
     encoder_write_repeated self field_number repeated write_repeated_int32"

definition pbtools_encoder_write_repeated_int64 ::
    "pbtools_encoder \<Rightarrow> u32 \<Rightarrow> i64 pbtools_repeated \<Rightarrow> pbtools_encoder option" where
  "pbtools_encoder_write_repeated_int64 self field_number repeated =
     encoder_write_repeated self field_number repeated write_repeated_int64"

definition pbtools_encoder_write_repeated_sint32 ::
    "pbtools_encoder \<Rightarrow> u32 \<Rightarrow> i32 pbtools_repeated \<Rightarrow> pbtools_encoder option" where
  "pbtools_encoder_write_repeated_sint32 self field_number repeated =
     encoder_write_repeated self field_number repeated write_repeated_sint32"

definition pbtools_encoder_write_repeated_sint64 ::
    "pbtools_encoder \<Rightarrow> u32 \<Rightarrow> i64 pbtools_repeated \<Rightarrow> pbtools_encoder option" where
  "pbtools_encoder_write_repeated_sint64 self field_number repeated =
     encoder_write_repeated self field_number repeated write_repeated_sint64"

definition pbtools_encoder_write_repeated_uint32 ::
    "pbtools_encoder \<Rightarrow> u32 \<Rightarrow> u32 pbtools_repeated \<Rightarrow> pbtools_encoder option" where
  "pbtools_encoder_write_repeated_uint32 self field_number repeated =
     encoder_write_repeated self field_number repeated write_repeated_uint32"

definition pbtools_encoder_write_repeated_uint64 ::
    "pbtools_encoder \<Rightarrow> u32 \<Rightarrow> u64 pbtools_repeated \<Rightarrow> pbtools_encoder option" where
  "pbtools_encoder_write_repeated_uint64 self field_number repeated =
     encoder_write_repeated self field_number repeated write_repeated_uint64"

definition pbtools_encoder_write_repeated_fixed32 ::
    "pbtools_encoder \<Rightarrow> u32 \<Rightarrow> u32 pbtools_repeated \<Rightarrow> pbtools_encoder option" where
  "pbtools_encoder_write_repeated_fixed32 self field_number repeated =
     encoder_write_repeated self field_number repeated write_repeated_32bit"

definition pbtools_encoder_write_repeated_fixed64 ::
    "pbtools_encoder \<Rightarrow> u32 \<Rightarrow> u64 pbtools_repeated \<Rightarrow> pbtools_encoder option" where
  "pbtools_encoder_write_repeated_fixed64 self field_number repeated =
     encoder_write_repeated self field_number repeated write_repeated_64bit"

definition pbtools_encoder_write_repeated_sfixed32 ::
    "pbtools_encoder \<Rightarrow> u32 \<Rightarrow> i32 pbtools_repeated \<Rightarrow> pbtools_encoder option" where
  "pbtools_encoder_write_repeated_sfixed32 self field_number repeated =
     encoder_write_repeated self field_number repeated write_repeated_32bit"

definition pbtools_encoder_write_repeated_sfixed64 ::
    "pbtools_encoder \<Rightarrow> u32 \<Rightarrow> i64 pbtools_repeated \<Rightarrow> pbtools_encoder option" where
  "pbtools_encoder_write_repeated_sfixed64 self field_number repeated =
     encoder_write_repeated self field_number repeated write_repeated_64bit"

definition pbtools_encoder_write_repeated_float ::
    "pbtools_encoder \<Rightarrow> u32 \<Rightarrow> u32 pbtools_repeated \<Rightarrow> pbtools_encoder option" where
  "pbtools_encoder_write_repeated_float self field_number repeated =
     encoder_write_repeated self field_number repeated write_repeated_float"

definition pbtools_encoder_write_repeated_double ::
    "pbtools_encoder \<Rightarrow> u32 \<Rightarrow> u64 pbtools_repeated \<Rightarrow> pbtools_encoder option" where
  "pbtools_encoder_write_repeated_double self field_number repeated =
     encoder_write_repeated self field_number repeated write_repeated_double"

definition pbtools_encoder_write_repeated_bool ::
    "pbtools_encoder \<Rightarrow> u32 \<Rightarrow> bool pbtools_repeated \<Rightarrow> pbtools_encoder option" where
  "pbtools_encoder_write_repeated_bool self field_number repeated =
     encoder_write_repeated self field_number repeated write_repeated_bool"

text \<open>Strings and bytes are written one field each, from the last to the first.\<close>

fun write_repeated_fields :: "u32 \<Rightarrow> nat \<Rightarrow> u8 list list \<Rightarrow> pbtools_encoder \<Rightarrow> pbtools_encoder option" where
  "write_repeated_fields field_number 0 items self = Some self"
| "write_repeated_fields field_number (Suc i) items self = do {
     v \<leftarrow> item_at items (int i);
     self \<leftarrow> encoder_write self v;
     self \<leftarrow> encoder_write_length_delimited self field_number (of_nat (length v));
     write_repeated_fields field_number i items self
   }"

definition pbtools_encoder_write_repeated_string ::
    "pbtools_encoder \<Rightarrow> u32 \<Rightarrow> u8 list pbtools_repeated \<Rightarrow> pbtools_encoder option" where
  "pbtools_encoder_write_repeated_string self field_number repeated =
     write_repeated_fields field_number (nat (rep_length repeated)) (rep_items repeated) self"

definition pbtools_encoder_write_repeated_bytes ::
    "pbtools_encoder \<Rightarrow> u32 \<Rightarrow> u8 list pbtools_repeated \<Rightarrow> pbtools_encoder option" where
  "pbtools_encoder_write_repeated_bytes self field_number repeated =
     write_repeated_fields field_number (nat (rep_length repeated)) (rep_items repeated) self"

subsection \<open>The first pass\<close>

record pbtools_repeated_info =
  ri_decoder :: pbtools_decoder
  ri_wire_type :: u32
  ri_length :: int
  ri_tag :: u32

definition pbtools_repeated_info_init :: "pbtools_repeated_info \<Rightarrow> u32 \<Rightarrow> pbtools_repeated_info" where
  "pbtools_repeated_info_init self tag = self\<lparr>ri_length := 0, ri_tag := tag\<rparr>"

definition repeated_info_init_decode ::
    "pbtools_repeated_info \<Rightarrow> pbtools_decoder \<Rightarrow> u32 \<Rightarrow> pbtools_repeated_info" where
  "repeated_info_init_decode self decoder wire_type =
     (if ri_length self = 0
      then self\<lparr>ri_decoder := decoder_init_slice decoder (decoder_left decoder), ri_wire_type := wire_type\<rparr>
      else self)"

partial_function (option) count_varints :: "pbtools_decoder \<Rightarrow> int \<Rightarrow> (int \<times> pbtools_decoder) option" where
  "count_varints decoder len =
     (if pbtools_decoder_available decoder then do {
        (_, decoder) \<leftarrow> decoder_read_varint decoder;
        count_varints decoder (len + 1)
      } else Some (len, decoder))"

definition repeated_info_decode_varint ::
    "pbtools_repeated_info \<Rightarrow> pbtools_decoder \<Rightarrow> u32 \<Rightarrow> (pbtools_repeated_info \<times> pbtools_decoder) option" where
  "repeated_info_decode_varint self decoder_p wire_type = (
     let self = repeated_info_init_decode self decoder_p wire_type
     in if wire_type = PBTOOLS_WIRE_TYPE_VARINT then do {
          (_, decoder_p) \<leftarrow> decoder_read_varint decoder_p;
          Some (self\<lparr>ri_length := ri_length self + 1\<rparr>, decoder_p)
        } else if wire_type = PBTOOLS_WIRE_TYPE_LENGTH_DELIMITED then do {
          (size, decoder_p) \<leftarrow> decoder_read_length_delimited decoder_p wire_type;
          (length, decoder) \<leftarrow> count_varints (decoder_init_slice decoder_p (to_int size)) (ri_length self);
          Some (self\<lparr>ri_length := length\<rparr>, decoder_seek decoder_p (decoder_get_result decoder))
        } else Some (self, decoder_abort decoder_p PBTOOLS_BAD_WIRE_TYPE))"

definition repeated_info_decode_32bit ::
    "pbtools_repeated_info \<Rightarrow> pbtools_decoder \<Rightarrow> u32 \<Rightarrow> (pbtools_repeated_info \<times> pbtools_decoder) option" where
  "repeated_info_decode_32bit self decoder_p wire_type = (
     let self = repeated_info_init_decode self decoder_p wire_type
     in if wire_type = PBTOOLS_WIRE_TYPE_32_BIT
        then Some (self\<lparr>ri_length := ri_length self + 1\<rparr>, decoder_seek decoder_p 4)
        else if wire_type = PBTOOLS_WIRE_TYPE_LENGTH_DELIMITED then do {
          (size, decoder_p) \<leftarrow> decoder_read_length_delimited decoder_p wire_type;
          Some (self\<lparr>ri_length := ri_length self + to_int size div 4\<rparr>, decoder_seek decoder_p (to_int size))
        } else Some (self, decoder_abort decoder_p PBTOOLS_BAD_WIRE_TYPE))"

definition repeated_info_decode_64bit ::
    "pbtools_repeated_info \<Rightarrow> pbtools_decoder \<Rightarrow> u32 \<Rightarrow> (pbtools_repeated_info \<times> pbtools_decoder) option" where
  "repeated_info_decode_64bit self decoder_p wire_type = (
     let self = repeated_info_init_decode self decoder_p wire_type
     in if wire_type = PBTOOLS_WIRE_TYPE_64_BIT
        then Some (self\<lparr>ri_length := ri_length self + 1\<rparr>, decoder_seek decoder_p 8)
        else if wire_type = PBTOOLS_WIRE_TYPE_LENGTH_DELIMITED then do {
          (size, decoder_p) \<leftarrow> decoder_read_length_delimited decoder_p wire_type;
          Some (self\<lparr>ri_length := ri_length self + to_int size div 8\<rparr>, decoder_seek decoder_p (to_int size))
        } else Some (self, decoder_abort decoder_p PBTOOLS_BAD_WIRE_TYPE))"

definition repeated_info_decode_length_delimited ::
    "pbtools_repeated_info \<Rightarrow> pbtools_decoder \<Rightarrow> u32 \<Rightarrow> (pbtools_repeated_info \<times> pbtools_decoder) option" where
  "repeated_info_decode_length_delimited self decoder_p wire_type = do {
     let self = repeated_info_init_decode self decoder_p wire_type;
     (size, decoder_p) \<leftarrow> decoder_read_length_delimited decoder_p wire_type;
     Some (self\<lparr>ri_length := ri_length self + 1\<rparr>, decoder_seek decoder_p (to_int size))
   }"

definition pbtools_repeated_info_decode ::
    "pbtools_repeated_info \<Rightarrow> pbtools_decoder \<Rightarrow> u32 \<Rightarrow> (pbtools_repeated_info \<times> pbtools_decoder) option" where
  "pbtools_repeated_info_decode self decoder_p wire_type = repeated_info_decode_length_delimited self decoder_p wire_type"

definition pbtools_repeated_info_decode_int32 ::
    "pbtools_repeated_info \<Rightarrow> pbtools_decoder \<Rightarrow> u32 \<Rightarrow> (pbtools_repeated_info \<times> pbtools_decoder) option" where
  "pbtools_repeated_info_decode_int32 self decoder_p wire_type = repeated_info_decode_varint self decoder_p wire_type"

definition pbtools_repeated_info_decode_int64 ::
    "pbtools_repeated_info \<Rightarrow> pbtools_decoder \<Rightarrow> u32 \<Rightarrow> (pbtools_repeated_info \<times> pbtools_decoder) option" where
  "pbtools_repeated_info_decode_int64 self decoder_p wire_type = repeated_info_decode_varint self decoder_p wire_type"

definition pbtools_repeated_info_decode_uint32 ::
    "pbtools_repeated_info \<Rightarrow> pbtools_decoder \<Rightarrow> u32 \<Rightarrow> (pbtools_repeated_info \<times> pbtools_decoder) option" where
  "pbtools_repeated_info_decode_uint32 self decoder_p wire_type = repeated_info_decode_varint self decoder_p wire_type"

definition pbtools_repeated_info_decode_uint64 ::
    "pbtools_repeated_info \<Rightarrow> pbtools_decoder \<Rightarrow> u32 \<Rightarrow> (pbtools_repeated_info \<times> pbtools_decoder) option" where
  "pbtools_repeated_info_decode_uint64 self decoder_p wire_type = repeated_info_decode_varint self decoder_p wire_type"

definition pbtools_repeated_info_decode_sint32 ::
    "pbtools_repeated_info \<Rightarrow> pbtools_decoder \<Rightarrow> u32 \<Rightarrow> (pbtools_repeated_info \<times> pbtools_decoder) option" where
  "pbtools_repeated_info_decode_sint32 self decoder_p wire_type = repeated_info_decode_varint self decoder_p wire_type"

definition pbtools_repeated_info_decode_sint64 ::
    "pbtools_repeated_info \<Rightarrow> pbtools_decoder \<Rightarrow> u32 \<Rightarrow> (pbtools_repeated_info \<times> pbtools_decoder) option" where
  "pbtools_repeated_info_decode_sint64 self decoder_p wire_type = repeated_info_decode_varint self decoder_p wire_type"

definition pbtools_repeated_info_decode_fixed32 ::
    "pbtools_repeated_info \<Rightarrow> pbtools_decoder \<Rightarrow> u32 \<Rightarrow> (pbtools_repeated_info \<times> pbtools_decoder) option" where
  "pbtools_repeated_info_decode_fixed32 self decoder_p wire_type = repeated_info_decode_32bit self decoder_p wire_type"

definition pbtools_repeated_info_decode_fixed64 ::
    "pbtools_repeated_info \<Rightarrow> pbtools_decoder \<Rightarrow> u32 \<Rightarrow> (pbtools_repeated_info \<times> pbtools_decoder) option" where
  "pbtools_repeated_info_decode_fixed64 self decoder_p wire_type = repeated_info_decode_64bit self decoder_p wire_type"

definition pbtools_repeated_info_decode_sfixed32 ::
    "pbtools_repeated_info \<Rightarrow> pbtools_decoder \<Rightarrow> u32 \<Rightarrow> (pbtools_repeated_info \<times> pbtools_decoder) option" where
  "pbtools_repeated_info_decode_sfixed32 self decoder_p wire_type = repeated_info_decode_32bit self decoder_p wire_type"

definition pbtools_repeated_info_decode_sfixed64 ::
    "pbtools_repeated_info \<Rightarrow> pbtools_decoder \<Rightarrow> u32 \<Rightarrow> (pbtools_repeated_info \<times> pbtools_decoder) option" where
  "pbtools_repeated_info_decode_sfixed64 self decoder_p wire_type = repeated_info_decode_64bit self decoder_p wire_type"

definition pbtools_repeated_info_decode_float ::
    "pbtools_repeated_info \<Rightarrow> pbtools_decoder \<Rightarrow> u32 \<Rightarrow> (pbtools_repeated_info \<times> pbtools_decoder) option" where
  "pbtools_repeated_info_decode_float self decoder_p wire_type = repeated_info_decode_32bit self decoder_p wire_type"

definition pbtools_repeated_info_decode_double ::
    "pbtools_repeated_info \<Rightarrow> pbtools_decoder \<Rightarrow> u32 \<Rightarrow> (pbtools_repeated_info \<times> pbtools_decoder) option" where
  "pbtools_repeated_info_decode_double self decoder_p wire_type = repeated_info_decode_64bit self decoder_p wire_type"

definition pbtools_repeated_info_decode_bool ::
    "pbtools_repeated_info \<Rightarrow> pbtools_decoder \<Rightarrow> u32 \<Rightarrow> (pbtools_repeated_info \<times> pbtools_decoder) option" where
  "pbtools_repeated_info_decode_bool self decoder_p wire_type = repeated_info_decode_varint self decoder_p wire_type"

definition pbtools_repeated_info_decode_string ::
    "pbtools_repeated_info \<Rightarrow> pbtools_decoder \<Rightarrow> u32 \<Rightarrow> (pbtools_repeated_info \<times> pbtools_decoder) option" where
  "pbtools_repeated_info_decode_string self decoder_p wire_type = repeated_info_decode_length_delimited self decoder_p wire_type"

definition pbtools_repeated_info_decode_bytes ::
    "pbtools_repeated_info \<Rightarrow> pbtools_decoder \<Rightarrow> u32 \<Rightarrow> (pbtools_repeated_info \<times> pbtools_decoder) option" where
  "pbtools_repeated_info_decode_bytes self decoder_p wire_type = repeated_info_decode_length_delimited self decoder_p wire_type"

subsection \<open>Allocation\<close>

definition calloc_repeated ::
    "pbtools_heap \<Rightarrow> int \<Rightarrow> 'i pbtools_repeated \<Rightarrow> size_t \<Rightarrow> 'i \<Rightarrow> (int \<times> 'i pbtools_repeated \<times> pbtools_heap) option" where
  "calloc_repeated heap len repeated item_size zero = (
     let size = item_size * of_int len
     in case heap_alloc heap size 8 of
          (None, heap) \<Rightarrow> Some (- 1, repeated\<lparr>rep_items := []\<rparr>, heap)
        | (Some addr, heap) \<Rightarrow>
            if heap_holds heap addr size
            then Some (0, repeated\<lparr>rep_items := replicate (nat len) zero, rep_length := len\<rparr>, heap) else None)"

definition alloc_repeated_int32 ::
    "pbtools_heap \<Rightarrow> int \<Rightarrow> i32 pbtools_repeated \<Rightarrow> (int \<times> i32 pbtools_repeated \<times> pbtools_heap) option" where
  "alloc_repeated_int32 heap len repeated = calloc_repeated heap len repeated 4 0"

definition alloc_repeated_uint32 ::
    "pbtools_heap \<Rightarrow> int \<Rightarrow> u32 pbtools_repeated \<Rightarrow> (int \<times> u32 pbtools_repeated \<times> pbtools_heap) option" where
  "alloc_repeated_uint32 heap len repeated = calloc_repeated heap len repeated 4 0"

definition alloc_repeated_int64 ::
    "pbtools_heap \<Rightarrow> int \<Rightarrow> i64 pbtools_repeated \<Rightarrow> (int \<times> i64 pbtools_repeated \<times> pbtools_heap) option" where
  "alloc_repeated_int64 heap len repeated = calloc_repeated heap len repeated 8 0"

definition alloc_repeated_uint64 ::
    "pbtools_heap \<Rightarrow> int \<Rightarrow> u64 pbtools_repeated \<Rightarrow> (int \<times> u64 pbtools_repeated \<times> pbtools_heap) option" where
  "alloc_repeated_uint64 heap len repeated = calloc_repeated heap len repeated 8 0"

definition pbtools_alloc_repeated_int32 ::
    "pbtools_heap \<Rightarrow> int \<Rightarrow> i32 pbtools_repeated \<Rightarrow> (int \<times> i32 pbtools_repeated \<times> pbtools_heap) option" where
  "pbtools_alloc_repeated_int32 heap len repeated = alloc_repeated_int32 heap len repeated"

definition pbtools_alloc_repeated_int64 ::
    "pbtools_heap \<Rightarrow> int \<Rightarrow> i64 pbtools_repeated \<Rightarrow> (int \<times> i64 pbtools_repeated \<times> pbtools_heap) option" where
  "pbtools_alloc_repeated_int64 heap len repeated = alloc_repeated_int64 heap len repeated"

definition pbtools_alloc_repeated_uint32 ::
    "pbtools_heap \<Rightarrow> int \<Rightarrow> u32 pbtools_repeated \<Rightarrow> (int \<times> u32 pbtools_repeated \<times> pbtools_heap) option" where
  "pbtools_alloc_repeated_uint32 heap len repeated = alloc_repeated_uint32 heap len repeated"

definition pbtools_alloc_repeated_uint64 ::
    "pbtools_heap \<Rightarrow> int \<Rightarrow> u64 pbtools_repeated \<Rightarrow> (int \<times> u64 pbtools_repeated \<times> pbtools_heap) option" where
  "pbtools_alloc_repeated_uint64 heap len repeated = alloc_repeated_uint64 heap len repeated"

definition pbtools_alloc_repeated_sint32 ::
    "pbtools_heap \<Rightarrow> int \<Rightarrow> i32 pbtools_repeated \<Rightarrow> (int \<times> i32 pbtools_repeated \<times> pbtools_heap) option" where
  "pbtools_alloc_repeated_sint32 heap len repeated = alloc_repeated_int32 heap len repeated"

definition pbtools_alloc_repeated_sint64 ::
    "pbtools_heap \<Rightarrow> int \<Rightarrow> i64 pbtools_repeated \<Rightarrow> (int \<times> i64 pbtools_repeated \<times> pbtools_heap) option" where
  "pbtools_alloc_repeated_sint64 heap len repeated = alloc_repeated_int64 heap len repeated"

definition pbtools_alloc_repeated_fixed32 ::
    "pbtools_heap \<Rightarrow> int \<Rightarrow> u32 pbtools_repeated \<Rightarrow> (int \<times> u32 pbtools_repeated \<times> pbtools_heap) option" where
  "pbtools_alloc_repeated_fixed32 heap len repeated = alloc_repeated_uint32 heap len repeated"

definition pbtools_alloc_repeated_fixed64 ::
    "pbtools_heap \<Rightarrow> int \<Rightarrow> u64 pbtools_repeated \<Rightarrow> (int \<times> u64 pbtools_repeated \<times> pbtools_heap) option" where
  "pbtools_alloc_repeated_fixed64 heap len repeated = alloc_repeated_uint64 heap len repeated"

definition pbtools_alloc_repeated_sfixed32 ::
    "pbtools_heap \<Rightarrow> int \<Rightarrow> i32 pbtools_repeated \<Rightarrow> (int \<times> i32 pbtools_repeated \<times> pbtools_heap) option" where
  "pbtools_alloc_repeated_sfixed32 heap len repeated = alloc_repeated_int32 heap len repeated"

definition pbtools_alloc_repeated_sfixed64 ::
    "pbtools_heap \<Rightarrow> int \<Rightarrow> i64 pbtools_repeated \<Rightarrow> (int \<times> i64 pbtools_repeated \<times> pbtools_heap) option" where
  "pbtools_alloc_repeated_sfixed64 heap len repeated = alloc_repeated_int64 heap len repeated"

definition pbtools_alloc_repeated_float ::
    "pbtools_heap \<Rightarrow> int \<Rightarrow> u32 pbtools_repeated \<Rightarrow> (int \<times> u32 pbtools_repeated \<times> pbtools_heap) option" where
  "pbtools_alloc_repeated_float heap len repeated = calloc_repeated heap len repeated 4 0"

definition pbtools_alloc_repeated_double ::
    "pbtools_heap \<Rightarrow> int \<Rightarrow> u64 pbtools_repeated \<Rightarrow> (int \<times> u64 pbtools_repeated \<times> pbtools_heap) option" where
  "pbtools_alloc_repeated_double heap len repeated = calloc_repeated heap len repeated 8 0"

definition pbtools_alloc_repeated_bool ::
    "pbtools_heap \<Rightarrow> int \<Rightarrow> bool pbtools_repeated \<Rightarrow> (int \<times> bool pbtools_repeated \<times> pbtools_heap) option" where
  "pbtools_alloc_repeated_bool heap len repeated = calloc_repeated heap len repeated 1 False"

definition pbtools_alloc_repeated_string ::
    "pbtools_heap \<Rightarrow> int \<Rightarrow> u8 list pbtools_repeated \<Rightarrow> (int \<times> u8 list pbtools_repeated \<times> pbtools_heap) option" where
  "pbtools_alloc_repeated_string heap len repeated = (
     let size = 8 * of_int len
     in case heap_alloc heap size 8 of
          (None, heap) \<Rightarrow> Some (- 1, repeated\<lparr>rep_items := []\<rparr>, heap)
        | (Some addr, heap) \<Rightarrow>
            if heap_holds heap addr size
            then Some (0, repeated\<lparr>rep_items := replicate (nat len) [0], rep_length := len\<rparr>, heap) else None)"

definition pbtools_alloc_repeated_bytes ::
    "pbtools_heap \<Rightarrow> int \<Rightarrow> pbtools_bytes pbtools_repeated \<Rightarrow> (int \<times> pbtools_bytes pbtools_repeated \<times> pbtools_heap) option" where
  "pbtools_alloc_repeated_bytes heap len repeated = calloc_repeated heap len repeated 16 \<lparr>by_buf = None, by_size = 0\<rparr>"

subsection \<open>The second pass\<close>

type_synonym 'i repeated_item_read =
  "pbtools_decoder \<Rightarrow> 'i option list \<Rightarrow> int \<Rightarrow> ('i option list \<times> pbtools_decoder) option"

type_synonym 'i decoder_read_repeated =
  "pbtools_decoder \<Rightarrow> pbtools_heap \<Rightarrow> u32 \<Rightarrow> 'i option list \<Rightarrow> int \<Rightarrow> (int \<times> 'i option list \<times> pbtools_decoder \<times> pbtools_heap) option"

partial_function (option) read_items ::
    "'i repeated_item_read \<Rightarrow> int \<Rightarrow> pbtools_decoder \<Rightarrow> 'i option list \<Rightarrow> int \<Rightarrow> (int \<times> 'i option list \<times> pbtools_decoder) option" where
  "read_items item_read base decoder items index =
     (if pbtools_decoder_available decoder then do {
        (items, decoder) \<leftarrow> item_read decoder items (base + index);
        read_items item_read base decoder items (index + 1)
      } else Some (index, items, decoder))"

text \<open>The items are those from the index \<open>base\<close> on.\<close>

definition decoder_read_repeated ::
    "pbtools_decoder \<Rightarrow> u32 \<Rightarrow> 'i option list \<Rightarrow> int \<Rightarrow> 'i repeated_item_read \<Rightarrow> u32 \<Rightarrow> (int \<times> 'i option list \<times> pbtools_decoder) option" where
  "decoder_read_repeated self wire_type items base item_read item_wire_type =
     (if wire_type = item_wire_type then do {
        (items, self) \<leftarrow> item_read self items base;
        Some (1, items, self)
      } else if wire_type = PBTOOLS_WIRE_TYPE_LENGTH_DELIMITED then do {
        (size, self) \<leftarrow> decoder_read_length_delimited self wire_type;
        (index, items, decoder) \<leftarrow> read_items item_read base (decoder_init_slice self (to_int size)) items 0;
        Some (index, items, decoder_seek self (decoder_get_result decoder))
      } else Some (0, items, decoder_abort self PBTOOLS_BAD_WIRE_TYPE))"

definition decoder_read_repeated_varint ::
    "pbtools_decoder \<Rightarrow> u32 \<Rightarrow> 'i option list \<Rightarrow> int \<Rightarrow> 'i repeated_item_read \<Rightarrow> (int \<times> 'i option list \<times> pbtools_decoder) option" where
  "decoder_read_repeated_varint self wire_type items base item_read =
     decoder_read_repeated self wire_type items base item_read PBTOOLS_WIRE_TYPE_VARINT"

definition decoder_read_repeated_32_bit ::
    "pbtools_decoder \<Rightarrow> u32 \<Rightarrow> 'i option list \<Rightarrow> int \<Rightarrow> 'i repeated_item_read \<Rightarrow> (int \<times> 'i option list \<times> pbtools_decoder) option" where
  "decoder_read_repeated_32_bit self wire_type items base item_read =
     decoder_read_repeated self wire_type items base item_read PBTOOLS_WIRE_TYPE_32_BIT"

definition decoder_read_repeated_64_bit ::
    "pbtools_decoder \<Rightarrow> u32 \<Rightarrow> 'i option list \<Rightarrow> int \<Rightarrow> 'i repeated_item_read \<Rightarrow> (int \<times> 'i option list \<times> pbtools_decoder) option" where
  "decoder_read_repeated_64_bit self wire_type items base item_read =
     decoder_read_repeated self wire_type items base item_read PBTOOLS_WIRE_TYPE_64_BIT"

definition read_repeated_int32_item :: "i32 repeated_item_read" where
  "read_repeated_int32_item self items index = do {
     (v, self) \<leftarrow> decoder_read_varint self;
     items \<leftarrow> set_item items index (ucast v);
     Some (items, self)
   }"

definition read_repeated_int64_item :: "i64 repeated_item_read" where
  "read_repeated_int64_item self items index = do {
     (v, self) \<leftarrow> decoder_read_varint self;
     items \<leftarrow> set_item items index v;
     Some (items, self)
   }"

definition read_repeated_sint32_item :: "i32 repeated_item_read" where
  "read_repeated_sint32_item self items index = do {
     (v, self) \<leftarrow> decoder_read_varint self;
     items \<leftarrow> set_item items index (sint32_decode v);
     Some (items, self)
   }"

definition read_repeated_sint64_item :: "i64 repeated_item_read" where
  "read_repeated_sint64_item self items index = do {
     (v, self) \<leftarrow> decoder_read_varint self;
     items \<leftarrow> set_item items index (sint64_decode v);
     Some (items, self)
   }"

definition read_repeated_uint32_item :: "u32 repeated_item_read" where
  "read_repeated_uint32_item self items index = do {
     (v, self) \<leftarrow> decoder_read_varint self;
     items \<leftarrow> set_item items index (ucast v);
     Some (items, self)
   }"

definition read_repeated_uint64_item :: "u64 repeated_item_read" where
  "read_repeated_uint64_item self items index = do {
     (v, self) \<leftarrow> decoder_read_varint self;
     items \<leftarrow> set_item items index v;
     Some (items, self)
   }"

definition read_repeated_fixed32_item :: "u32 repeated_item_read" where
  "read_repeated_fixed32_item self items index = do {
     (v, self) \<leftarrow> decoder_read_32_bit_value self;
     items \<leftarrow> set_item items index v;
     Some (items, self)
   }"

definition read_repeated_fixed64_item :: "u64 repeated_item_read" where
  "read_repeated_fixed64_item self items index = do {
     (v, self) \<leftarrow> decoder_read_64_bit_value self;
     items \<leftarrow> set_item items index v;
     Some (items, self)
   }"

definition read_repeated_sfixed32_item :: "i32 repeated_item_read" where
  "read_repeated_sfixed32_item self items index = do {
     (v, self) \<leftarrow> decoder_read_32_bit_value self;
     items \<leftarrow> set_item items index v;
     Some (items, self)
   }"

definition read_repeated_sfixed64_item :: "i64 repeated_item_read" where
  "read_repeated_sfixed64_item self items index = do {
     (v, self) \<leftarrow> decoder_read_64_bit_value self;
     items \<leftarrow> set_item items index v;
     Some (items, self)
   }"

definition read_repeated_bool_item :: "bool repeated_item_read" where
  "read_repeated_bool_item self items index = do {
     (v, self) \<leftarrow> decoder_read_varint self;
     items \<leftarrow> set_item items index (v \<noteq> 0);
     Some (items, self)
   }"

definition read_repeated_float_item :: "u32 repeated_item_read" where
  "read_repeated_float_item self items index = do {
     (v, self) \<leftarrow> decoder_read_32_bit_value self;
     items \<leftarrow> set_item items index v;
     Some (items, self)
   }"

definition read_repeated_double_item :: "u64 repeated_item_read" where
  "read_repeated_double_item self items index = do {
     (v, self) \<leftarrow> decoder_read_64_bit_value self;
     items \<leftarrow> set_item items index v;
     Some (items, self)
   }"

definition read_repeated_int32 :: "i32 decoder_read_repeated" where
  "read_repeated_int32 self heap wire_type items index = do {
     (n, items, self) \<leftarrow> decoder_read_repeated_varint self wire_type items index read_repeated_int32_item;
     Some (n, items, self, heap)
   }"

definition read_repeated_int64 :: "i64 decoder_read_repeated" where
  "read_repeated_int64 self heap wire_type items index = do {
     (n, items, self) \<leftarrow> decoder_read_repeated_varint self wire_type items index read_repeated_int64_item;
     Some (n, items, self, heap)
   }"

definition read_repeated_uint32 :: "u32 decoder_read_repeated" where
  "read_repeated_uint32 self heap wire_type items index = do {
     (n, items, self) \<leftarrow> decoder_read_repeated_varint self wire_type items index read_repeated_uint32_item;
     Some (n, items, self, heap)
   }"

definition read_repeated_uint64 :: "u64 decoder_read_repeated" where
  "read_repeated_uint64 self heap wire_type items index = do {
     (n, items, self) \<leftarrow> decoder_read_repeated_varint self wire_type items index read_repeated_uint64_item;
     Some (n, items, self, heap)
   }"

definition read_repeated_sint32 :: "i32 decoder_read_repeated" where
  "read_repeated_sint32 self heap wire_type items index = do {
     (n, items, self) \<leftarrow> decoder_read_repeated_varint self wire_type items index read_repeated_sint32_item;
     Some (n, items, self, heap)
   }"

definition read_repeated_sint64 :: "i64 decoder_read_repeated" where
  "read_repeated_sint64 self heap wire_type items index = do {
     (n, items, self) \<leftarrow> decoder_read_repeated_varint self wire_type items index read_repeated_sint64_item;
     Some (n, items, self, heap)
   }"

definition read_repeated_fixed32 :: "u32 decoder_read_repeated" where
  "read_repeated_fixed32 self heap wire_type items index = do {
     (n, items, self) \<leftarrow> decoder_read_repeated_32_bit self wire_type items index read_repeated_fixed32_item;
     Some (n, items, self, heap)
   }"

definition read_repeated_fixed64 :: "u64 decoder_read_repeated" where
  "read_repeated_fixed64 self heap wire_type items index = do {
     (n, items, self) \<leftarrow> decoder_read_repeated_64_bit self wire_type items index read_repeated_fixed64_item;
     Some (n, items, self, heap)
   }"

definition read_repeated_sfixed32 :: "i32 decoder_read_repeated" where
  "read_repeated_sfixed32 self heap wire_type items index = do {
     (n, items, self) \<leftarrow> decoder_read_repeated_32_bit self wire_type items index read_repeated_sfixed32_item;
     Some (n, items, self, heap)
   }"

definition read_repeated_sfixed64 :: "i64 decoder_read_repeated" where
  "read_repeated_sfixed64 self heap wire_type items index = do {
     (n, items, self) \<leftarrow> decoder_read_repeated_64_bit self wire_type items index read_repeated_sfixed64_item;
     Some (n, items, self, heap)
   }"

definition read_repeated_float :: "u32 decoder_read_repeated" where
  "read_repeated_float self heap wire_type items index = do {
     (n, items, self) \<leftarrow> decoder_read_repeated_32_bit self wire_type items index read_repeated_float_item;
     Some (n, items, self, heap)
   }"

definition read_repeated_double :: "u64 decoder_read_repeated" where
  "read_repeated_double self heap wire_type items index = do {
     (n, items, self) \<leftarrow> decoder_read_repeated_64_bit self wire_type items index read_repeated_double_item;
     Some (n, items, self, heap)
   }"

definition read_repeated_bool :: "bool decoder_read_repeated" where
  "read_repeated_bool self heap wire_type items index = do {
     (n, items, self) \<leftarrow> decoder_read_repeated_varint self wire_type items index read_repeated_bool_item;
     Some (n, items, self, heap)
   }"

definition read_repeated_string :: "u8 list option decoder_read_repeated" where
  "read_repeated_string self heap wire_type items index = do {
     (v, self, heap) \<leftarrow> pbtools_decoder_read_string self heap wire_type;
     items \<leftarrow> set_item items index v;
     Some (1, items, self, heap)
   }"

definition read_repeated_bytes :: "pbtools_bytes decoder_read_repeated" where
  "read_repeated_bytes self heap wire_type items index = do {
     (v, self, heap) \<leftarrow> pbtools_decoder_read_bytes self heap wire_type;
     items \<leftarrow> set_item items index v;
     Some (1, items, self, heap)
   }"

definition are_more_items_to_decode :: "pbtools_repeated_info \<Rightarrow> int \<Rightarrow> bool" where
  "are_more_items_to_decode repeated_info pos \<longleftrightarrow>
     pbtools_decoder_available (ri_decoder repeated_info) \<and> pos < ri_length repeated_info"

partial_function (option) decode_repeated_loop ::
    "'i decoder_read_repeated \<Rightarrow> pbtools_repeated_info \<Rightarrow> pbtools_heap \<Rightarrow> 'i option list \<Rightarrow> int
      \<Rightarrow> (pbtools_repeated_info \<times> pbtools_heap \<times> 'i option list) option" where
  "decode_repeated_loop read_repeated repeated_info heap items index =
     (if are_more_items_to_decode repeated_info index then do {
        ((tag, wire_type), decoder) \<leftarrow> pbtools_decoder_read_tag (ri_decoder repeated_info);
        (if tag = ri_tag repeated_info then do {
           (n, items, decoder, heap) \<leftarrow> read_repeated decoder heap wire_type items index;
           decode_repeated_loop read_repeated (repeated_info\<lparr>ri_decoder := decoder\<rparr>) heap items (index + n)
         } else do {
           decoder \<leftarrow> pbtools_decoder_skip_field decoder wire_type;
           decode_repeated_loop read_repeated (repeated_info\<lparr>ri_decoder := decoder\<rparr>) heap items index
         })
      } else Some (repeated_info, heap, items))"

definition decoder_decode_repeated ::
    "pbtools_decoder \<Rightarrow> pbtools_heap \<Rightarrow> pbtools_repeated_info \<Rightarrow> 'i option pbtools_repeated \<Rightarrow> size_t \<Rightarrow> 'i decoder_read_repeated
      \<Rightarrow> ('i option pbtools_repeated \<times> pbtools_decoder \<times> pbtools_heap) option" where
  "decoder_decode_repeated self heap repeated_info repeated item_size read_repeated =
     (if ri_length repeated_info = 0 then Some (repeated, self, heap)
      else let size = item_size * of_int (ri_length repeated_info)
           in case decoder_heap_alloc self heap size 8 of
                (None, self, heap) \<Rightarrow> Some (repeated\<lparr>rep_items := []\<rparr>, self, heap)
              | (Some addr, self, heap) \<Rightarrow>
                  if heap_holds heap addr size then do {
                    (index, items, decoder, heap) \<leftarrow> read_repeated (ri_decoder repeated_info) heap (ri_wire_type repeated_info)
                      (replicate (nat (ri_length repeated_info)) None) 0;
                    (info, heap, items) \<leftarrow> decode_repeated_loop read_repeated (repeated_info\<lparr>ri_decoder := decoder\<rparr>) heap items index;
                    let res = decoder_get_result (ri_decoder info);
                    Some (repeated\<lparr>rep_items := items, rep_length := ri_length repeated_info\<rparr>,
                      if res < 0 then decoder_abort self (- res) else self, heap)
                  } else None)"

definition pbtools_decoder_decode_repeated_int32 ::
    "pbtools_decoder \<Rightarrow> pbtools_heap \<Rightarrow> pbtools_repeated_info \<Rightarrow> i32 option pbtools_repeated
      \<Rightarrow> (i32 option pbtools_repeated \<times> pbtools_decoder \<times> pbtools_heap) option" where
  "pbtools_decoder_decode_repeated_int32 self heap repeated_info repeated =
     decoder_decode_repeated self heap repeated_info repeated 4 read_repeated_int32"

definition pbtools_decoder_decode_repeated_int64 ::
    "pbtools_decoder \<Rightarrow> pbtools_heap \<Rightarrow> pbtools_repeated_info \<Rightarrow> i64 option pbtools_repeated
      \<Rightarrow> (i64 option pbtools_repeated \<times> pbtools_decoder \<times> pbtools_heap) option" where
  "pbtools_decoder_decode_repeated_int64 self heap repeated_info repeated =
     decoder_decode_repeated self heap repeated_info repeated 8 read_repeated_int64"

definition pbtools_decoder_decode_repeated_uint32 ::
    "pbtools_decoder \<Rightarrow> pbtools_heap \<Rightarrow> pbtools_repeated_info \<Rightarrow> u32 option pbtools_repeated
      \<Rightarrow> (u32 option pbtools_repeated \<times> pbtools_decoder \<times> pbtools_heap) option" where
  "pbtools_decoder_decode_repeated_uint32 self heap repeated_info repeated =
     decoder_decode_repeated self heap repeated_info repeated 4 read_repeated_uint32"

definition pbtools_decoder_decode_repeated_uint64 ::
    "pbtools_decoder \<Rightarrow> pbtools_heap \<Rightarrow> pbtools_repeated_info \<Rightarrow> u64 option pbtools_repeated
      \<Rightarrow> (u64 option pbtools_repeated \<times> pbtools_decoder \<times> pbtools_heap) option" where
  "pbtools_decoder_decode_repeated_uint64 self heap repeated_info repeated =
     decoder_decode_repeated self heap repeated_info repeated 8 read_repeated_uint64"

definition pbtools_decoder_decode_repeated_sint32 ::
    "pbtools_decoder \<Rightarrow> pbtools_heap \<Rightarrow> pbtools_repeated_info \<Rightarrow> i32 option pbtools_repeated
      \<Rightarrow> (i32 option pbtools_repeated \<times> pbtools_decoder \<times> pbtools_heap) option" where
  "pbtools_decoder_decode_repeated_sint32 self heap repeated_info repeated =
     decoder_decode_repeated self heap repeated_info repeated 4 read_repeated_sint32"

definition pbtools_decoder_decode_repeated_sint64 ::
    "pbtools_decoder \<Rightarrow> pbtools_heap \<Rightarrow> pbtools_repeated_info \<Rightarrow> i64 option pbtools_repeated
      \<Rightarrow> (i64 option pbtools_repeated \<times> pbtools_decoder \<times> pbtools_heap) option" where
  "pbtools_decoder_decode_repeated_sint64 self heap repeated_info repeated =
     decoder_decode_repeated self heap repeated_info repeated 8 read_repeated_sint64"

definition pbtools_decoder_decode_repeated_fixed32 ::
    "pbtools_decoder \<Rightarrow> pbtools_heap \<Rightarrow> pbtools_repeated_info \<Rightarrow> u32 option pbtools_repeated
      \<Rightarrow> (u32 option pbtools_repeated \<times> pbtools_decoder \<times> pbtools_heap) option" where
  "pbtools_decoder_decode_repeated_fixed32 self heap repeated_info repeated =
     decoder_decode_repeated self heap repeated_info repeated 4 read_repeated_fixed32"

definition pbtools_decoder_decode_repeated_fixed64 ::
    "pbtools_decoder \<Rightarrow> pbtools_heap \<Rightarrow> pbtools_repeated_info \<Rightarrow> u64 option pbtools_repeated
      \<Rightarrow> (u64 option pbtools_repeated \<times> pbtools_decoder \<times> pbtools_heap) option" where
  "pbtools_decoder_decode_repeated_fixed64 self heap repeated_info repeated =
     decoder_decode_repeated self heap repeated_info repeated 8 read_repeated_fixed64"

definition pbtools_decoder_decode_repeated_sfixed32 ::
    "pbtools_decoder \<Rightarrow> pbtools_heap \<Rightarrow> pbtools_repeated_info \<Rightarrow> i32 option pbtools_repeated
      \<Rightarrow> (i32 option pbtools_repeated \<times> pbtools_decoder \<times> pbtools_heap) option" where
  "pbtools_decoder_decode_repeated_sfixed32 self heap repeated_info repeated =
     decoder_decode_repeated self heap repeated_info repeated 4 read_repeated_sfixed32"

definition pbtools_decoder_decode_repeated_sfixed64 ::
    "pbtools_decoder \<Rightarrow> pbtools_heap \<Rightarrow> pbtools_repeated_info \<Rightarrow> i64 option pbtools_repeated
      \<Rightarrow> (i64 option pbtools_repeated \<times> pbtools_decoder \<times> pbtools_heap) option" where
  "pbtools_decoder_decode_repeated_sfixed64 self heap repeated_info repeated =
     decoder_decode_repeated self heap repeated_info repeated 8 read_repeated_sfixed64"

definition pbtools_decoder_decode_repeated_float ::
    "pbtools_decoder \<Rightarrow> pbtools_heap \<Rightarrow> pbtools_repeated_info \<Rightarrow> u32 option pbtools_repeated
      \<Rightarrow> (u32 option pbtools_repeated \<times> pbtools_decoder \<times> pbtools_heap) option" where
  "pbtools_decoder_decode_repeated_float self heap repeated_info repeated =
     decoder_decode_repeated self heap repeated_info repeated 4 read_repeated_float"

definition pbtools_decoder_decode_repeated_double ::
    "pbtools_decoder \<Rightarrow> pbtools_heap \<Rightarrow> pbtools_repeated_info \<Rightarrow> u64 option pbtools_repeated
      \<Rightarrow> (u64 option pbtools_repeated \<times> pbtools_decoder \<times> pbtools_heap) option" where
  "pbtools_decoder_decode_repeated_double self heap repeated_info repeated =
     decoder_decode_repeated self heap repeated_info repeated 8 read_repeated_double"

definition pbtools_decoder_decode_repeated_bool ::
    "pbtools_decoder \<Rightarrow> pbtools_heap \<Rightarrow> pbtools_repeated_info \<Rightarrow> bool option pbtools_repeated
      \<Rightarrow> (bool option pbtools_repeated \<times> pbtools_decoder \<times> pbtools_heap) option" where
  "pbtools_decoder_decode_repeated_bool self heap repeated_info repeated =
     decoder_decode_repeated self heap repeated_info repeated 1 read_repeated_bool"

definition pbtools_decoder_decode_repeated_string ::
    "pbtools_decoder \<Rightarrow> pbtools_heap \<Rightarrow> pbtools_repeated_info \<Rightarrow> u8 list option option pbtools_repeated
      \<Rightarrow> (u8 list option option pbtools_repeated \<times> pbtools_decoder \<times> pbtools_heap) option" where
  "pbtools_decoder_decode_repeated_string self heap repeated_info repeated =
     decoder_decode_repeated self heap repeated_info repeated 8 read_repeated_string"

definition pbtools_decoder_decode_repeated_bytes ::
    "pbtools_decoder \<Rightarrow> pbtools_heap \<Rightarrow> pbtools_repeated_info \<Rightarrow> pbtools_bytes option pbtools_repeated
      \<Rightarrow> (pbtools_bytes option pbtools_repeated \<times> pbtools_decoder \<times> pbtools_heap) option" where
  "pbtools_decoder_decode_repeated_bytes self heap repeated_info repeated =
     decoder_decode_repeated self heap repeated_info repeated 16 read_repeated_bytes"

end
