(* ===== verification/PbPacked.thy ===== *)
theory PbPacked
  imports PbRepeated
begin

text \<open>
  Packed repeated fields (\<^verbatim>\<open>proto/pbtools.c\<close>): what is written and read back, and the two passes over arbitrary
  bytes.
\<close>

section \<open>Writing\<close>

lemma writes_items:
  assumes "\<And>i. i < length items \<Longrightarrow> writes (\<lambda>e. item_write e (int i) items) (bytes (items ! i))" "n \<le> length items"
  shows "writes (encoder_write_items item_write n items) (concat (map bytes (take n items)))"
  using assms(2)
proof (induction n)
  case 0
  then show ?case
    using writes_nothing by (simp add: writes_def)
next
  case (Suc n)
  then have "writes (\<lambda>e. item_write e (int n) items \<bind> encoder_write_items item_write n items)
      (concat (map bytes (take n items)) @ bytes (items ! n))"
    using assms(1) by (intro writes_bind) simp_all
  then show ?case
    using Suc.prems by (simp add: take_Suc_conv_app_nth)
qed

text \<open>A length in front of some bytes is what the position has moved by.\<close>

lemma writes_with_length:
  fixes g :: "pbtools_encoder \<Rightarrow> u64 \<Rightarrow> pbtools_encoder option"
  assumes f: "writes f bs" and g: "\<And>v. writes (\<lambda>e. g e v) (p v)"
  shows "writes (\<lambda>e. f e \<bind> (\<lambda>e'. g e' (of_int (en_pos e - en_pos e')))) (p (of_nat (length bs)) @ bs)"
  unfolding writes_def
proof (intro allI impI)
  fix e assume e: "encoder_good e \<or> encoder_full e"
  obtain e1 where e1: "f e = Some e1" "wrote bs e e1"
    using f e by (auto simp: writes_def)
  define v where "v = (of_int (en_pos e - en_pos e1) :: u64)"
  obtain e2 where e2: "g e1 v = Some e2" "wrote (p v) e1 e2"
    using g [of v] wrote_state [OF e1(2)] by (auto simp: writes_def)
  have "wrote (p (of_nat (length bs)) @ bs) e e2"
  proof (cases "encoder_good e \<and> int (length bs) \<le> en_pos e")
    case True
    then have "en_pos e - en_pos e1 = int (length bs)"
      using e1(2) by (simp add: wrote_def)
    then have v: "v = of_nat (length bs)"
      by (simp only: v_def of_int_of_nat_eq)
    show ?thesis
      using wrote_trans [OF e1(2) e2(2)] by (simp only: v)
  next
    case False
    then have "encoder_full e1" "length (en_buf e1) = length (en_buf e)"
      using e1(2) by (simp_all add: wrote_def split: if_splits)
    then have "encoder_full e2" "length (en_buf e2) = length (en_buf e)"
      using e2(2) not_good_and_full [of e1] by (simp_all add: wrote_def)
    moreover have "\<not> (encoder_good e \<and> int (length (p (of_nat (length bs)) @ bs)) \<le> en_pos e)"
      using False by auto
    ultimately show ?thesis
      by (auto simp: wrote_def)
  qed
  then show "\<exists>e'. f e \<bind> (\<lambda>e'. g e' (of_int (en_pos e - en_pos e'))) = Some e' \<and> wrote (p (of_nat (length bs)) @ bs) e e'"
    using e1 e2 by (simp add: v_def)
qed

lemma writes_length_prefixed:
  assumes "writes f bs" "length bs \<le> INT_MAX" "bs \<noteq> []"
  shows "writes (\<lambda>e. f e \<bind> (\<lambda>e'. encoder_write_tagged_varint e' fn PBTOOLS_WIRE_TYPE_LENGTH_DELIMITED
    (of_int (en_pos e - en_pos e')))) (length_field fn bs)"
proof -
  have "unat (of_nat (length bs) :: u64) = length bs"
    using assms(2) by (intro unat_of_nat_64) simp
  then have "(of_nat (length bs) :: u64) \<noteq> 0"
    using assms(3) by (metis unat_0 length_0_conv)
  then show ?thesis
    using writes_with_length [OF assms(1), of "\<lambda>e v. encoder_write_tagged_varint e fn PBTOOLS_WIRE_TYPE_LENGTH_DELIMITED v",
        OF encoder_write_tagged_varint_writes(2)]
    by (simp only: length_field_def if_False append_assoc)
qed

definition repeated_of :: "'i list \<Rightarrow> 'i pbtools_repeated" where
  "repeated_of items = \<lparr>rep_length = int (length items), rep_items = items\<rparr>"

definition packed_field :: "u32 \<Rightarrow> ('i \<Rightarrow> u8 list) \<Rightarrow> 'i list \<Rightarrow> u8 list" where
  "packed_field fn bytes items = (if items = [] then [] else length_field fn (concat (map bytes items)))"

lemma write_repeated_writes:
  assumes "\<And>i. i < length items \<Longrightarrow> writes (\<lambda>e. item_write e (int i) items) (bytes (items ! i))"
    "\<And>x. bytes x \<noteq> []" "length (concat (map bytes items)) \<le> INT_MAX"
  shows "writes (\<lambda>e. encoder_write_repeated e fn (repeated_of items) item_write) (packed_field fn bytes items)"
proof (cases "items = []")
  case True
  then show ?thesis
    using writes_nothing by (simp add: encoder_write_repeated_def repeated_of_def packed_field_def)
next
  case False
  then have "concat (map bytes items) \<noteq> []"
    using assms(2) by (cases items) auto
  moreover have "writes (encoder_write_items item_write (length items) items) (concat (map bytes items))"
    using writes_items [of items item_write bytes "length items"] assms(1) by simp
  ultimately show ?thesis
    using writes_length_prefixed [of "encoder_write_items item_write (length items) items" "concat (map bytes items)" fn] assms(3) False
    by (simp add: encoder_write_repeated_def Let_def repeated_of_def packed_field_def)
qed

lemma varint_bytes_not_Nil [simp]: "varint_bytes v \<noteq> []"
  by (subst varint_bytes_rec) simp

lemma fixed_bytes_not_Nil [simp]: "fixed32_bytes v \<noteq> []" "fixed64_bytes w \<noteq> []"
  by (simp_all add: fixed32_bytes_def fixed64_bytes_def)

text \<open>The items of each type.\<close>

lemma write_items_write:
  "i < length xs \<Longrightarrow> writes (\<lambda>e. write_repeated_int32 e (int i) xs) (varint_bytes (scast (xs ! i)))"
  "i < length ys \<Longrightarrow> writes (\<lambda>e. write_repeated_int64 e (int i) ys) (varint_bytes (ys ! i))"
  "i < length xs \<Longrightarrow> writes (\<lambda>e. write_repeated_sint32 e (int i) xs) (varint_bytes (ucast (sint32_encode (xs ! i))))"
  "i < length ys \<Longrightarrow> writes (\<lambda>e. write_repeated_sint64 e (int i) ys) (varint_bytes (sint64_encode (ys ! i)))"
  "i < length xs \<Longrightarrow> writes (\<lambda>e. write_repeated_uint32 e (int i) xs) (varint_bytes (ucast (xs ! i)))"
  "i < length ys \<Longrightarrow> writes (\<lambda>e. write_repeated_uint64 e (int i) ys) (varint_bytes (ys ! i))"
  "i < length bs \<Longrightarrow> writes (\<lambda>e. write_repeated_bool e (int i) bs) (varint_bytes (if bs ! i then 1 else 0))"
  "i < length xs \<Longrightarrow> writes (\<lambda>e. write_repeated_32bit e (int i) xs) (fixed32_bytes (xs ! i))"
  "i < length xs \<Longrightarrow> writes (\<lambda>e. write_repeated_float e (int i) xs) (fixed32_bytes (xs ! i))"
  "i < length ys \<Longrightarrow> writes (\<lambda>e. write_repeated_64bit e (int i) ys) (fixed64_bytes (ys ! i))"
  "i < length ys \<Longrightarrow> writes (\<lambda>e. write_repeated_double e (int i) ys) (fixed64_bytes (ys ! i))"
  by (simp_all add: write_repeated_int32_def write_repeated_int64_def write_repeated_sint32_def write_repeated_sint64_def
      write_repeated_uint32_def write_repeated_uint64_def write_repeated_bool_def write_repeated_32bit_def
      write_repeated_float_def write_repeated_64bit_def write_repeated_double_def item_at_def encoder_write_varint_writes write_fixed_writes del: if_split)

section \<open>Reading what was written\<close>

text \<open>An operation that reads an item and stores it.\<close>

definition reads_item :: "'i repeated_item_read \<Rightarrow> ('i \<Rightarrow> u8 list) \<Rightarrow> bool" where
  "reads_item item_read bytes \<longleftrightarrow> (\<forall>x d items i. ahead d (bytes x) \<and> i < length items \<longrightarrow>
     item_read d items (int i) = Some (items[i := Some x], advance d (bytes x)))"

lemma reads_itemI:
  fixes g :: "'v \<Rightarrow> 'i"
  assumes "\<And>x. reads f (bytes x) (y x)" "\<And>x. g (y x) = x"
  shows "reads_item (\<lambda>d items i. f d \<bind> (\<lambda>(v, d). set_item items i (g v) \<bind> (\<lambda>items. Some (items, d)))) bytes"
  unfolding reads_item_def
proof (intro allI impI)
  fix x d i and items :: "'i option list"
  assume "ahead d (bytes x) \<and> i < length items"
  then show "f d \<bind> (\<lambda>(v, d). set_item items (int i) (g v) \<bind> (\<lambda>items. Some (items, d))) =
      Some (items[i := Some x], advance d (bytes x))"
    using assms(1) [of x] by (simp add: assms(2) reads_def set_item_def)
qed

lemma read_items_read:
  "reads_item read_repeated_int32_item (\<lambda>x. varint_bytes (scast x))"
  "reads_item read_repeated_int64_item varint_bytes"
  "reads_item read_repeated_sint32_item (\<lambda>x. varint_bytes (ucast (sint32_encode x)))"
  "reads_item read_repeated_sint64_item (\<lambda>x. varint_bytes (sint64_encode x))"
  "reads_item read_repeated_uint32_item (\<lambda>x. varint_bytes (ucast x))"
  "reads_item read_repeated_uint64_item varint_bytes"
  "reads_item read_repeated_bool_item (\<lambda>b. varint_bytes (if b then 1 else 0))"
  "reads_item read_repeated_fixed32_item fixed32_bytes"
  "reads_item read_repeated_sfixed32_item fixed32_bytes"
  "reads_item read_repeated_float_item fixed32_bytes"
  "reads_item read_repeated_fixed64_item fixed64_bytes"
  "reads_item read_repeated_sfixed64_item fixed64_bytes"
  "reads_item read_repeated_double_item fixed64_bytes"
  unfolding read_repeated_int32_item_def [abs_def] read_repeated_int64_item_def [abs_def]
    read_repeated_sint32_item_def [abs_def] read_repeated_sint64_item_def [abs_def] read_repeated_uint32_item_def [abs_def]
    read_repeated_uint64_item_def [abs_def] read_repeated_bool_item_def [abs_def] read_repeated_fixed32_item_def [abs_def]
    read_repeated_sfixed32_item_def [abs_def] read_repeated_float_item_def [abs_def] read_repeated_fixed64_item_def [abs_def]
    read_repeated_sfixed64_item_def [abs_def] read_repeated_double_item_def [abs_def]
  by (rule reads_itemI, rule pb_reads, simp)+

lemma read_items_all:
  assumes "reads_item item_read bytes" "\<And>x. bytes x \<noteq> []"
    "ahead d (concat (map bytes xs))" "decoder_left d = int (length (concat (map bytes xs)))"
    "k + length xs \<le> length items"
  shows "read_items item_read 0 d items (int k) =
    Some (int (k + length xs), take k items @ map Some xs @ drop (k + length xs) items, advance d (concat (map bytes xs)))"
  using assms(3-5)
proof (induction xs arbitrary: d items k)
  case Nil
  then show ?case
    by (subst read_items.simps) (simp add: available_iff_left)
next
  case (Cons x xs)
  have d: "ahead d (bytes x)" "ahead (advance d (bytes x)) (concat (map bytes xs))"
    using Cons.prems(1) by (simp_all add: ahead_append)
  have av: "pbtools_decoder_available d"
    using Cons.prems(2) length_greater_0_conv [of "bytes x"] assms(2) [of x] by (simp add: available_iff_left del: length_greater_0_conv)
  have left: "decoder_left (advance d (bytes x)) = int (length (concat (map bytes xs)))"
    using Cons.prems(2) by (simp add: decoder_left_def advance_def)
  have "item_read d items (int k) = Some (items[k := Some x], advance d (bytes x))"
    using assms(1) d(1) Cons.prems(3) by (simp add: reads_item_def)
  then have "read_items item_read 0 d items (int k) =
      read_items item_read 0 (advance d (bytes x)) (items[k := Some x]) (int (Suc k))"
    using av by (subst read_items.simps) (simp add: add.commute [of 1])
  also have "\<dots> = Some (int (Suc k + length xs), take (Suc k) (items[k := Some x]) @ map Some xs
      @ drop (Suc k + length xs) (items[k := Some x]), advance d (concat (map bytes (x # xs))))"
    using Cons.IH [OF d(2) left, of "Suc k" "items[k := Some x]"] Cons.prems(3) by simp
  finally show ?case
    using Cons.prems(3) by (simp add: take_Suc_conv_app_nth)
qed

lemma ahead_slice:
  assumes "ahead d bs"
  shows "ahead (decoder_init_slice d (int (length bs))) bs" "decoder_left (decoder_init_slice d (int (length bs))) = int (length bs)"
    "decoder_get_result (advance (decoder_init_slice d (int (length bs))) bs) = int (length bs)"
    "decoder_seek d (int (length bs)) = advance d bs"
  using assms decoder_init_slice_ok [of d "int (length bs)"] decoder_seek_slice [of d "int (length bs)"]
  by (auto simp: ahead_def decoder_init_slice_def decoder_left_def decoder_get_result_def advance_def mem_read_def)

text \<open>A packed field, after its tag.\<close>

lemma read_repeated_packed:
  assumes "reads_item item_read bytes" "\<And>x. bytes x \<noteq> []" "length (concat (map bytes xs)) < INT_MAX" "item_wire_type \<noteq> 2"
    "ahead d (varint_bytes (of_nat (length (concat (map bytes xs)))) @ concat (map bytes xs))" "length items = length xs"
  shows "decoder_read_repeated d 2 items 0 item_read item_wire_type = Some (int (length xs), map Some xs,
    advance d (varint_bytes (of_nat (length (concat (map bytes xs)))) @ concat (map bytes xs)))"
proof -
  define n where "n = length (concat (map bytes xs))"
  define d1 where "d1 = advance d (varint_bytes (of_nat n))"
  have d: "ahead d (varint_bytes (of_nat n))" "ahead d1 (concat (map bytes xs))"
    using assms(5) by (simp_all add: ahead_append n_def d1_def)
  have "decoder_read_length_delimited d 2 = Some (of_nat n, d1)"
    using read_length_delimited_reads [of n] assms(3) d(1) by (simp add: reads_def n_def d1_def)
  moreover have "read_items item_read 0 (decoder_init_slice d1 (int n)) items 0 =
      Some (int (length xs), map Some xs, advance (decoder_init_slice d1 (int n)) (concat (map bytes xs)))"
    using read_items_all [OF assms(1,2) ahead_slice(1,2) [OF d(2)], of 0 items] assms(6) by (simp add: n_def)
  ultimately show ?thesis
    using ahead_slice(3,4) [OF d(2)] assms(3,4) by (simp add: decoder_read_repeated_def n_def d1_def)
qed

section \<open>The two passes over a packed field\<close>

definition length_prefixed :: "u8 list \<Rightarrow> u8 list" where
  "length_prefixed bs = varint_bytes (of_nat (length bs)) @ bs"

lemma length_field_prefixed: "length_field fn bs = tag_bytes fn PBTOOLS_WIRE_TYPE_LENGTH_DELIMITED @ length_prefixed bs"
  by (simp add: length_field_def length_prefixed_def)

lemma ahead_whole_slice: "ahead d bs \<Longrightarrow> ahead (decoder_init_slice d (decoder_left d)) bs"
  by (auto simp: ahead_def decoder_init_slice_def decoder_left_def mem_read_def decoder_ok_def split: if_splits)

lemma count_varints_all:
  assumes "ahead d (concat (map varint_bytes ws))" "decoder_left d = int (length (concat (map varint_bytes ws)))"
  shows "count_varints d n = Some (n + int (length ws), advance d (concat (map varint_bytes ws)))"
  using assms
proof (induction ws arbitrary: d n)
  case Nil
  then show ?case
    by (subst count_varints.simps) (simp add: available_iff_left)
next
  case (Cons w ws)
  have d: "ahead d (varint_bytes w)" "ahead (advance d (varint_bytes w)) (concat (map varint_bytes ws))"
    using Cons.prems(1) by (simp_all add: ahead_append)
  have av: "pbtools_decoder_available d"
    using Cons.prems(2) length_greater_0_conv [of "varint_bytes w"]
    by (simp add: available_iff_left del: length_greater_0_conv)
  have left: "decoder_left (advance d (varint_bytes w)) = int (length (concat (map varint_bytes ws)))"
    using Cons.prems(2) by (simp add: decoder_left_def advance_def)
  show ?case
    using av decoder_read_varint_reads [of w] d(1) Cons.IH [OF d(2) left]
    by (subst count_varints.simps) (simp add: reads_def)
qed

definition first_pass :: "pbtools_repeated_info \<Rightarrow> pbtools_decoder \<Rightarrow> nat \<Rightarrow> pbtools_repeated_info" where
  "first_pass info d n = info\<lparr>ri_decoder := decoder_init_slice d (decoder_left d), ri_wire_type := 2, ri_length := int n\<rparr>"

lemma first_pass_varint:
  assumes "ahead d (length_prefixed (concat (map varint_bytes ws)))" "length (concat (map varint_bytes ws)) < INT_MAX" "ri_length info = 0"
  shows "repeated_info_decode_varint info d 2 =
    Some (first_pass info d (length ws), advance d (length_prefixed (concat (map varint_bytes ws))))"
proof -
  define n where "n = length (concat (map varint_bytes ws))"
  define d1 where "d1 = advance d (varint_bytes (of_nat n))"
  have d: "ahead d (varint_bytes (of_nat n))" "ahead d1 (concat (map varint_bytes ws))"
    using assms(1) by (simp_all add: ahead_append n_def d1_def length_prefixed_def)
  have "decoder_read_length_delimited d 2 = Some (of_nat n, d1)"
    using read_length_delimited_reads [of n] assms(2) d(1) by (simp add: reads_def n_def d1_def)
  moreover have "count_varints (decoder_init_slice d1 (int n)) 0 =
      Some (int (length ws), advance (decoder_init_slice d1 (int n)) (concat (map varint_bytes ws)))"
    using count_varints_all [OF ahead_slice(1,2) [OF d(2)], of 0] by (simp add: n_def)
  ultimately show ?thesis
    using ahead_slice(3,4) [OF d(2)] assms(2,3)
    by (simp add: repeated_info_decode_varint_def repeated_info_init_decode_def first_pass_def n_def d1_def length_prefixed_def)
qed

lemma first_pass_fixed:
  assumes "ahead d (length_prefixed bs)" "length bs < INT_MAX" "ri_length info = 0"
  shows "length bs = 4 * k \<Longrightarrow> repeated_info_decode_32bit info d 2 = Some (first_pass info d k, advance d (length_prefixed bs))"
    "length bs = 8 * k \<Longrightarrow> repeated_info_decode_64bit info d 2 = Some (first_pass info d k, advance d (length_prefixed bs))"
proof -
  define d1 where "d1 = advance d (varint_bytes (of_nat (length bs)))"
  have d: "ahead d (varint_bytes (of_nat (length bs)))" "ahead d1 bs"
    using assms(1) by (simp_all add: ahead_append d1_def length_prefixed_def)
  have "decoder_read_length_delimited d 2 = Some (of_nat (length bs), d1)"
    using read_length_delimited_reads [OF assms(2)] d(1) by (simp add: reads_def d1_def)
  moreover have "decoder_seek d1 (int (length bs)) = advance d (length_prefixed bs)"
    using ahead_slice(4) [OF d(2)] by (simp add: length_prefixed_def d1_def)
  ultimately show "length bs = 4 * k \<Longrightarrow> repeated_info_decode_32bit info d 2 = Some (first_pass info d k, advance d (length_prefixed bs))"
    "length bs = 8 * k \<Longrightarrow> repeated_info_decode_64bit info d 2 = Some (first_pass info d k, advance d (length_prefixed bs))"
    using assms(2,3)
    by (simp_all add: repeated_info_decode_32bit_def repeated_info_decode_64bit_def repeated_info_init_decode_def first_pass_def
        order.strict_implies_order del: of_nat_mult)
qed

lemma heap_alloc_array:
  assumes "heap_ok h" "int item_size * int n + 7 \<le> hp_size h - hp_pos h"
  obtains addr h' where "heap_alloc h (of_nat item_size * of_int (int n)) 8 = (Some addr, h')"
    "allocated h (int item_size * int n) 8 addr h'" "heap_holds h' addr (of_nat item_size * of_int (int n))"
proof -
  have "uint (of_nat (item_size * n) :: u64) = int (item_size * n)"
    using assms by (intro uint_of_nat_64) (simp add: heap_ok_def flip: of_nat_mult)
  then have u: "uint (of_nat item_size * of_int (int n) :: u64) = int item_size * int n"
    by simp
  have "hp_size h - hp_pos h \<le> 2147483647"
    using assms(1) by (simp add: heap_ok_def)
  then show thesis
    using heap_alloc_cases [OF assms(1), of "of_nat item_size * of_int (int n)" 3] u assms(2)
      allocated_holds [OF assms(1), of "of_nat item_size * of_int (int n)" 8] that
    by auto
qed

lemma decode_repeated_packed:
  assumes "heap_ok h" "int item_size * int (length xs) + 7 \<le> hp_size h - hp_pos h" "xs \<noteq> []"
    and read: "\<And>h. read_repeated (ri_decoder info) h 2 (replicate (length xs) None) 0 = Some (int (length xs), map Some xs, d1, h)"
    and info: "ri_length info = int (length xs)" "ri_wire_type info = 2" "0 \<le> de_pos d1"
  shows "\<exists>h'. decoder_decode_repeated d h info rep (of_nat item_size) read_repeated =
      Some (rep\<lparr>rep_items := map Some xs, rep_length := int (length xs)\<rparr>, d, h') \<and> heap_ok h'"
proof -
  obtain addr h' where h': "heap_alloc h (of_nat item_size * of_int (int (length xs))) 8 = (Some addr, h')"
      "allocated h (int item_size * int (length xs)) 8 addr h'"
      "heap_holds h' addr (of_nat item_size * of_int (int (length xs)))"
    using heap_alloc_array [OF assms(1,2)] by metis
  have "decode_repeated_loop read_repeated (info\<lparr>ri_decoder := d1\<rparr>) h' (map Some xs) (int (length xs)) =
      Some (info\<lparr>ri_decoder := d1\<rparr>, h', map Some xs)"
    using info(1) by (subst decode_repeated_loop.simps) (simp add: are_more_items_to_decode_def)
  then show ?thesis
    using h' read [of h'] info assms(3)
    by (simp add: decoder_decode_repeated_def Let_def decoder_heap_alloc_def decoder_get_result_def allocated_def)
qed

section \<open>Repeated fields of every type\<close>

text \<open>
  The encoder writes the items as one packed field, the first pass over it counts them and goes behind it, and the second
  pass yields them again on a heap with room for the array.
\<close>

definition packed_codec ::
    "(pbtools_encoder \<Rightarrow> u32 \<Rightarrow> 'i pbtools_repeated \<Rightarrow> pbtools_encoder option) \<Rightarrow>
     (pbtools_repeated_info \<Rightarrow> pbtools_decoder \<Rightarrow> u32 \<Rightarrow> (pbtools_repeated_info \<times> pbtools_decoder) option) \<Rightarrow>
     (pbtools_decoder \<Rightarrow> pbtools_heap \<Rightarrow> pbtools_repeated_info \<Rightarrow> 'i option pbtools_repeated
       \<Rightarrow> ('i option pbtools_repeated \<times> pbtools_decoder \<times> pbtools_heap) option) \<Rightarrow> ('i \<Rightarrow> u8 list) \<Rightarrow> nat \<Rightarrow> bool" where
  "packed_codec wr first second bytes item_size \<longleftrightarrow>
     (\<forall>xs. length (concat (map bytes xs)) < INT_MAX \<longrightarrow>
        (\<forall>fn. writes (\<lambda>e. wr e fn (repeated_of xs)) (packed_field fn bytes xs))
        \<and> (\<forall>info d. ri_length info = 0 \<and> xs \<noteq> [] \<and> ahead d (length_prefixed (concat (map bytes xs))) \<longrightarrow>
             (\<exists>info'. first info d PBTOOLS_WIRE_TYPE_LENGTH_DELIMITED =
                Some (info', advance d (length_prefixed (concat (map bytes xs))))
              \<and> (\<forall>d' h rep. heap_ok h \<and> int item_size * int (length xs) + 7 \<le> hp_size h - hp_pos h \<longrightarrow>
                   (\<exists>h'. second d' h info' rep =
                      Some (rep\<lparr>rep_items := map Some xs, rep_length := int (length xs)\<rparr>, d', h') \<and> heap_ok h')))))"

lemma packed_codecI:
  assumes wr: "\<And>items i. i < length items \<Longrightarrow> writes (\<lambda>e. item_write e (int i) items) (bytes (items ! i))"
    and bytes: "\<And>x. bytes x \<noteq> []"
    and first: "\<And>info d xs. ahead d (length_prefixed (concat (map bytes xs))) \<Longrightarrow> length (concat (map bytes xs)) < INT_MAX \<Longrightarrow>
      ri_length info = 0 \<Longrightarrow>
      first info d 2 = Some (first_pass info d (length xs), advance d (length_prefixed (concat (map bytes xs))))"
    and item: "reads_item item_read bytes"
    and read: "\<And>d h items. read_repeated d h 2 items 0 =
      decoder_read_repeated d 2 items 0 item_read item_wire_type \<bind> (\<lambda>(n, items, d). Some (n, items, d, h))"
    and wt: "item_wire_type \<noteq> 2"
    and defs: "\<And>e fn rep. w e fn rep = encoder_write_repeated e fn rep item_write"
      "\<And>d h info rep. second d h info rep = decoder_decode_repeated d h info rep (of_nat item_size) read_repeated"
  shows "packed_codec w first second bytes item_size"
  unfolding packed_codec_def defs
proof (intro allI impI conjI, goal_cases)
  case (1 xs fn)
  then show ?case
    using write_repeated_writes [of xs item_write bytes fn] wr bytes by simp
next
  case (2 xs info d)
  define s where "s = decoder_init_slice d (decoder_left d)"
  have s: "ahead s (length_prefixed (concat (map bytes xs)))"
    using 2 ahead_whole_slice by (simp add: s_def)
  then have rd: "read_repeated s h 2 (replicate (length xs) None) 0 =
      Some (int (length xs), map Some xs, advance s (length_prefixed (concat (map bytes xs))), h)" for h
    using read_repeated_packed [OF item bytes _ wt, of xs s "replicate (length xs) None"] 2(1)
    by (simp add: read length_prefixed_def)
  have pos: "0 \<le> de_pos (advance s (length_prefixed (concat (map bytes xs))))"
    using s by (simp add: ahead_def advance_def)
  have info: "ri_decoder (first_pass info d (length xs)) = s" "ri_length (first_pass info d (length xs)) = int (length xs)"
      "ri_wire_type (first_pass info d (length xs)) = 2"
    by (simp_all add: first_pass_def s_def)
  show ?case
  proof (intro exI [of _ "first_pass info d (length xs)"] conjI allI impI, goal_cases)
    case 1
    then show ?case
      using first 2 by simp
  next
    case (2 d' h rep)
    then show ?case
      using decode_repeated_packed [of h item_size xs read_repeated "first_pass info d (length xs)", unfolded info, OF _ _ _ rd] pos
        \<open>ri_length info = 0 \<and> xs \<noteq> [] \<and> _\<close> by simp
  qed
qed

lemma first_pass_varints:
  assumes "ahead d (length_prefixed (concat (map (\<lambda>x. varint_bytes (f x)) xs)))"
    "length (concat (map (\<lambda>x. varint_bytes (f x)) xs)) < INT_MAX" "ri_length info = 0"
  shows "repeated_info_decode_varint info d 2 =
    Some (first_pass info d (length xs), advance d (length_prefixed (concat (map (\<lambda>x. varint_bytes (f x)) xs))))"
  using first_pass_varint [of d "map f xs" info] assms by (simp add: comp_def)

lemma length_concat_fixed:
  "length (concat (map fixed32_bytes xs)) = 4 * length xs" "length (concat (map fixed64_bytes ys)) = 8 * length ys"
  by (induction xs, simp_all add: fixed32_bytes_def) (induction ys, simp_all add: fixed64_bytes_def)

lemmas codec_defs =
    pbtools_encoder_write_repeated_int32_def pbtools_repeated_info_decode_int32_def pbtools_decoder_decode_repeated_int32_def
    read_repeated_int32_def
    pbtools_encoder_write_repeated_int64_def pbtools_repeated_info_decode_int64_def pbtools_decoder_decode_repeated_int64_def
    read_repeated_int64_def
    pbtools_encoder_write_repeated_uint32_def pbtools_repeated_info_decode_uint32_def pbtools_decoder_decode_repeated_uint32_def
    read_repeated_uint32_def
    pbtools_encoder_write_repeated_uint64_def pbtools_repeated_info_decode_uint64_def pbtools_decoder_decode_repeated_uint64_def
    read_repeated_uint64_def
    pbtools_encoder_write_repeated_sint32_def pbtools_repeated_info_decode_sint32_def pbtools_decoder_decode_repeated_sint32_def
    read_repeated_sint32_def
    pbtools_encoder_write_repeated_sint64_def pbtools_repeated_info_decode_sint64_def pbtools_decoder_decode_repeated_sint64_def
    read_repeated_sint64_def
    pbtools_encoder_write_repeated_bool_def pbtools_repeated_info_decode_bool_def pbtools_decoder_decode_repeated_bool_def
    read_repeated_bool_def
    pbtools_encoder_write_repeated_fixed32_def pbtools_repeated_info_decode_fixed32_def pbtools_decoder_decode_repeated_fixed32_def
    read_repeated_fixed32_def
    pbtools_encoder_write_repeated_sfixed32_def pbtools_repeated_info_decode_sfixed32_def pbtools_decoder_decode_repeated_sfixed32_def
    read_repeated_sfixed32_def
    pbtools_encoder_write_repeated_float_def pbtools_repeated_info_decode_float_def pbtools_decoder_decode_repeated_float_def
    read_repeated_float_def
    pbtools_encoder_write_repeated_fixed64_def pbtools_repeated_info_decode_fixed64_def pbtools_decoder_decode_repeated_fixed64_def
    read_repeated_fixed64_def
    pbtools_encoder_write_repeated_sfixed64_def pbtools_repeated_info_decode_sfixed64_def pbtools_decoder_decode_repeated_sfixed64_def
    read_repeated_sfixed64_def
    pbtools_encoder_write_repeated_double_def pbtools_repeated_info_decode_double_def pbtools_decoder_decode_repeated_double_def
    read_repeated_double_def
    decoder_read_repeated_varint_def decoder_read_repeated_32_bit_def decoder_read_repeated_64_bit_def

lemma varint_codec:
  assumes "\<And>items i. i < length items \<Longrightarrow> writes (\<lambda>e. item_write e (int i) items) (varint_bytes (f (items ! i)))"
    "\<And>info d wt. first info d wt = repeated_info_decode_varint info d wt"
    "reads_item item_read (\<lambda>x. varint_bytes (f x))"
    "\<And>d h items. read_repeated d h 2 items 0 =
       decoder_read_repeated d 2 items 0 item_read 0 \<bind> (\<lambda>(n, items, d). Some (n, items, d, h))"
    "\<And>e fn rep. w e fn rep = encoder_write_repeated e fn rep item_write"
    "\<And>d h info rep. second d h info rep = decoder_decode_repeated d h info rep (of_nat item_size) read_repeated"
  shows "packed_codec w first second (\<lambda>x. varint_bytes (f x)) item_size"
  using assms by (intro packed_codecI [where item_wire_type = 0 and item_read = item_read]) (simp_all add: first_pass_varints)

lemma fixed32_codec:
  assumes "\<And>items i. i < length items \<Longrightarrow> writes (\<lambda>e. item_write e (int i) items) (fixed32_bytes (items ! i))"
    "\<And>info d wt. first info d wt = repeated_info_decode_32bit info d wt"
    "reads_item item_read fixed32_bytes"
    "\<And>d h items. read_repeated d h 2 items 0 =
       decoder_read_repeated d 2 items 0 item_read 5 \<bind> (\<lambda>(n, items, d). Some (n, items, d, h))"
    "\<And>e fn rep. w e fn rep = encoder_write_repeated e fn rep item_write"
    "\<And>d h info rep. second d h info rep = decoder_decode_repeated d h info rep (of_nat item_size) read_repeated"
  shows "packed_codec w first second fixed32_bytes item_size"
  using assms by (intro packed_codecI [where item_wire_type = 5 and item_read = item_read])
    (simp_all add: first_pass_fixed(1) length_concat_fixed)

lemma fixed64_codec:
  assumes "\<And>items i. i < length items \<Longrightarrow> writes (\<lambda>e. item_write e (int i) items) (fixed64_bytes (items ! i))"
    "\<And>info d wt. first info d wt = repeated_info_decode_64bit info d wt"
    "reads_item item_read fixed64_bytes"
    "\<And>d h items. read_repeated d h 2 items 0 =
       decoder_read_repeated d 2 items 0 item_read 1 \<bind> (\<lambda>(n, items, d). Some (n, items, d, h))"
    "\<And>e fn rep. w e fn rep = encoder_write_repeated e fn rep item_write"
    "\<And>d h info rep. second d h info rep = decoder_decode_repeated d h info rep (of_nat item_size) read_repeated"
  shows "packed_codec w first second fixed64_bytes item_size"
  using assms by (intro packed_codecI [where item_wire_type = 1 and item_read = item_read])
    (simp_all add: first_pass_fixed(2) length_concat_fixed)

lemma packed_codecs:
  "packed_codec pbtools_encoder_write_repeated_int32 pbtools_repeated_info_decode_int32 pbtools_decoder_decode_repeated_int32
     (\<lambda>x. varint_bytes (scast x)) 4"
  "packed_codec pbtools_encoder_write_repeated_int64 pbtools_repeated_info_decode_int64 pbtools_decoder_decode_repeated_int64
     varint_bytes 8"
  "packed_codec pbtools_encoder_write_repeated_uint32 pbtools_repeated_info_decode_uint32 pbtools_decoder_decode_repeated_uint32
     (\<lambda>x. varint_bytes (ucast x)) 4"
  "packed_codec pbtools_encoder_write_repeated_uint64 pbtools_repeated_info_decode_uint64 pbtools_decoder_decode_repeated_uint64
     varint_bytes 8"
  "packed_codec pbtools_encoder_write_repeated_sint32 pbtools_repeated_info_decode_sint32 pbtools_decoder_decode_repeated_sint32
     (\<lambda>x. varint_bytes (ucast (sint32_encode x))) 4"
  "packed_codec pbtools_encoder_write_repeated_sint64 pbtools_repeated_info_decode_sint64 pbtools_decoder_decode_repeated_sint64
     (\<lambda>x. varint_bytes (sint64_encode x)) 8"
  "packed_codec pbtools_encoder_write_repeated_bool pbtools_repeated_info_decode_bool pbtools_decoder_decode_repeated_bool
     (\<lambda>b. varint_bytes (if b then 1 else 0)) 1"
  "packed_codec pbtools_encoder_write_repeated_fixed32 pbtools_repeated_info_decode_fixed32 pbtools_decoder_decode_repeated_fixed32
     fixed32_bytes 4"
  "packed_codec pbtools_encoder_write_repeated_sfixed32 pbtools_repeated_info_decode_sfixed32 pbtools_decoder_decode_repeated_sfixed32
     fixed32_bytes 4"
  "packed_codec pbtools_encoder_write_repeated_float pbtools_repeated_info_decode_float pbtools_decoder_decode_repeated_float
     fixed32_bytes 4"
  "packed_codec pbtools_encoder_write_repeated_fixed64 pbtools_repeated_info_decode_fixed64 pbtools_decoder_decode_repeated_fixed64
     fixed64_bytes 8"
  "packed_codec pbtools_encoder_write_repeated_sfixed64 pbtools_repeated_info_decode_sfixed64 pbtools_decoder_decode_repeated_sfixed64
     fixed64_bytes 8"
  "packed_codec pbtools_encoder_write_repeated_double pbtools_repeated_info_decode_double pbtools_decoder_decode_repeated_double
     fixed64_bytes 8"
proof -
  show "packed_codec pbtools_encoder_write_repeated_int32 pbtools_repeated_info_decode_int32 pbtools_decoder_decode_repeated_int32
     (\<lambda>x. varint_bytes (scast x)) 4"
    by (rule varint_codec [where f = "\<lambda>x. scast x" and item_write = write_repeated_int32 and item_read = read_repeated_int32_item
      and read_repeated = read_repeated_int32], simp_all add: codec_defs write_items_write read_items_read del: if_split)
  show "packed_codec pbtools_encoder_write_repeated_int64 pbtools_repeated_info_decode_int64 pbtools_decoder_decode_repeated_int64
     varint_bytes 8"
    by (rule varint_codec [where f = "\<lambda>x. x" and item_write = write_repeated_int64 and item_read = read_repeated_int64_item
      and read_repeated = read_repeated_int64], simp_all add: codec_defs write_items_write read_items_read del: if_split)
  show "packed_codec pbtools_encoder_write_repeated_uint32 pbtools_repeated_info_decode_uint32 pbtools_decoder_decode_repeated_uint32
     (\<lambda>x. varint_bytes (ucast x)) 4"
    by (rule varint_codec [where f = "\<lambda>x. ucast x" and item_write = write_repeated_uint32 and item_read = read_repeated_uint32_item
      and read_repeated = read_repeated_uint32], simp_all add: codec_defs write_items_write read_items_read del: if_split)
  show "packed_codec pbtools_encoder_write_repeated_uint64 pbtools_repeated_info_decode_uint64 pbtools_decoder_decode_repeated_uint64
     varint_bytes 8"
    by (rule varint_codec [where f = "\<lambda>x. x" and item_write = write_repeated_uint64 and item_read = read_repeated_uint64_item
      and read_repeated = read_repeated_uint64], simp_all add: codec_defs write_items_write read_items_read del: if_split)
  show "packed_codec pbtools_encoder_write_repeated_sint32 pbtools_repeated_info_decode_sint32 pbtools_decoder_decode_repeated_sint32
     (\<lambda>x. varint_bytes (ucast (sint32_encode x))) 4"
    by (rule varint_codec [where f = "\<lambda>x. ucast (sint32_encode x)" and item_write = write_repeated_sint32 and item_read = read_repeated_sint32_item
      and read_repeated = read_repeated_sint32], simp_all add: codec_defs write_items_write read_items_read del: if_split)
  show "packed_codec pbtools_encoder_write_repeated_sint64 pbtools_repeated_info_decode_sint64 pbtools_decoder_decode_repeated_sint64
     (\<lambda>x. varint_bytes (sint64_encode x)) 8"
    by (rule varint_codec [where f = "\<lambda>x. sint64_encode x" and item_write = write_repeated_sint64 and item_read = read_repeated_sint64_item
      and read_repeated = read_repeated_sint64], simp_all add: codec_defs write_items_write read_items_read del: if_split)
  show "packed_codec pbtools_encoder_write_repeated_bool pbtools_repeated_info_decode_bool pbtools_decoder_decode_repeated_bool
     (\<lambda>b. varint_bytes (if b then 1 else 0)) 1"
    by (rule varint_codec [where f = "\<lambda>b. if b then 1 else 0" and item_write = write_repeated_bool and item_read = read_repeated_bool_item
      and read_repeated = read_repeated_bool], simp_all add: codec_defs write_items_write read_items_read del: if_split)
  show "packed_codec pbtools_encoder_write_repeated_fixed32 pbtools_repeated_info_decode_fixed32 pbtools_decoder_decode_repeated_fixed32
     fixed32_bytes 4"
    by (rule fixed32_codec [where item_write = write_repeated_32bit and item_read = read_repeated_fixed32_item
      and read_repeated = read_repeated_fixed32], simp_all add: codec_defs write_items_write read_items_read del: if_split)
  show "packed_codec pbtools_encoder_write_repeated_sfixed32 pbtools_repeated_info_decode_sfixed32 pbtools_decoder_decode_repeated_sfixed32
     fixed32_bytes 4"
    by (rule fixed32_codec [where item_write = write_repeated_32bit and item_read = read_repeated_sfixed32_item
      and read_repeated = read_repeated_sfixed32], simp_all add: codec_defs write_items_write read_items_read del: if_split)
  show "packed_codec pbtools_encoder_write_repeated_float pbtools_repeated_info_decode_float pbtools_decoder_decode_repeated_float
     fixed32_bytes 4"
    by (rule fixed32_codec [where item_write = write_repeated_float and item_read = read_repeated_float_item
      and read_repeated = read_repeated_float], simp_all add: codec_defs write_items_write read_items_read del: if_split)
  show "packed_codec pbtools_encoder_write_repeated_fixed64 pbtools_repeated_info_decode_fixed64 pbtools_decoder_decode_repeated_fixed64
     fixed64_bytes 8"
    by (rule fixed64_codec [where item_write = write_repeated_64bit and item_read = read_repeated_fixed64_item
      and read_repeated = read_repeated_fixed64], simp_all add: codec_defs write_items_write read_items_read del: if_split)
  show "packed_codec pbtools_encoder_write_repeated_sfixed64 pbtools_repeated_info_decode_sfixed64 pbtools_decoder_decode_repeated_sfixed64
     fixed64_bytes 8"
    by (rule fixed64_codec [where item_write = write_repeated_64bit and item_read = read_repeated_sfixed64_item
      and read_repeated = read_repeated_sfixed64], simp_all add: codec_defs write_items_write read_items_read del: if_split)
  show "packed_codec pbtools_encoder_write_repeated_double pbtools_repeated_info_decode_double pbtools_decoder_decode_repeated_double
     fixed64_bytes 8"
    by (rule fixed64_codec [where item_write = write_repeated_double and item_read = read_repeated_double_item
      and read_repeated = read_repeated_double], simp_all add: codec_defs write_items_write read_items_read del: if_split)
qed

end
