(* ===== verification/PbTwoPass.thy ===== *)
theory PbTwoPass
  imports PbPacked
begin

text \<open>
  The two passes over a repeated field of an arbitrary message (\<^verbatim>\<open>proto/pbtools.c\<close>). With variable length integers the
  second pass stores as many items as the first has counted, whatever the bytes; with items of a fixed size a packed
  field that ends inside of an item makes it store one item more than the array has.
\<close>

section \<open>Counting and reading\<close>

text \<open>An item reader that takes one variable length integer.\<close>

definition varint_item :: "'i repeated_item_read \<Rightarrow> bool" where
  "varint_item item_read \<longleftrightarrow> (\<exists>f. \<forall>d items i. item_read d items i =
     do { (v, d) \<leftarrow> decoder_read_varint d; items \<leftarrow> set_item items i (f v); Some (items, d) })"

lemma varint_items:
  "varint_item read_repeated_int32_item" "varint_item read_repeated_int64_item" "varint_item read_repeated_sint32_item"
  "varint_item read_repeated_sint64_item" "varint_item read_repeated_uint32_item" "varint_item read_repeated_uint64_item"
  "varint_item read_repeated_bool_item"
  unfolding varint_item_def read_repeated_int32_item_def read_repeated_int64_item_def read_repeated_sint32_item_def
    read_repeated_sint64_item_def read_repeated_uint32_item_def read_repeated_uint64_item_def read_repeated_bool_item_def
  by (rule exI, rule allI, rule allI, rule allI, rule refl)+

definition passes_agree :: "'i repeated_item_read \<Rightarrow> pbtools_decoder \<Rightarrow> int \<Rightarrow> pbtools_decoder \<Rightarrow> bool" where
  "passes_agree item_read d k d' \<longleftrightarrow> 0 \<le> k \<and> k \<le> decoder_left d \<and> moved d d' \<and> (\<forall>n. count_varints d n = Some (n + k, d'))
     \<and> (\<forall>items i. 0 \<le> i \<and> i + k \<le> int (length items) \<longrightarrow>
          (\<exists>items'. read_items item_read 0 d items i = Some (i + k, items', d') \<and> length items' = length items))"

lemma count_and_read:
  assumes "varint_item item_read" "decoder_ok d"
  shows "\<exists>k d'. passes_agree item_read d k d'"
  using assms(2)
proof (induction "nat (decoder_left d)" arbitrary: d rule: less_induct)
  case less
  show ?case
  proof (cases "pbtools_decoder_available d")
    case False
    then have "passes_agree item_read d 0 d"
      using less.prems moved_refl decoder_left_nonneg count_varints.simps [of d] read_items.simps [of item_read 0 d]
      by (simp add: passes_agree_def)
    then show ?thesis by blast
  next
    case True
    obtain v d1 where v: "decoder_read_varint d = Some (v, d1)" and d1: "moved d d1"
      using decoder_read_varint_safe less.prems by (auto simp: safe_def)
    have lt: "decoder_left d1 < decoder_left d"
      using decoder_read_varint_progress [OF less.prems v True] .
    then have "nat (decoder_left d1) < nat (decoder_left d)"
      using decoder_left_nonneg [OF moved_ok [OF d1]] by simp
    from less.hyps [OF this moved_ok [OF d1]] obtain k d' where k: "passes_agree item_read d1 k d'"
      by blast
    obtain f where f: "item_read d items i = do { (v, d) \<leftarrow> decoder_read_varint d; items \<leftarrow> set_item items i (f v); Some (items, d) }"
      for items i
      using assms(1) by (auto simp: varint_item_def)
    have "passes_agree item_read d (k + 1) d'"
      unfolding passes_agree_def
    proof (intro conjI allI impI, goal_cases)
      case 1
      then show ?case using k by (simp add: passes_agree_def)
    next
      case 2
      then show ?case using k lt by (simp add: passes_agree_def)
    next
      case 3
      then show ?case using k moved_trans [OF d1] by (simp add: passes_agree_def)
    next
      case (4 n)
      then show ?case
        using k True v by (subst count_varints.simps) (simp add: passes_agree_def)
    next
      case (5 items i)
      have "item_read d items i = Some (items[nat i := Some (f v)], d1)"
        using 5 k v f by (simp add: set_item_def passes_agree_def)
      then have "read_items item_read 0 d items i = read_items item_read 0 d1 (items[nat i := Some (f v)]) (i + 1)"
        using True by (subst read_items.simps) simp
      moreover have "\<forall>items i. 0 \<le> i \<and> i + k \<le> int (length items) \<longrightarrow>
          (\<exists>items'. read_items item_read 0 d1 items i = Some (i + k, items', d') \<and> length items' = length items)"
        using k unfolding passes_agree_def by blast
      from this [rule_format, of "i + 1" "items[nat i := Some (f v)]"] obtain items' where
          "read_items item_read 0 d1 (items[nat i := Some (f v)]) (i + 1) = Some (i + 1 + k, items', d')" "length items' = length items"
        using 5 by auto
      ultimately show ?case
        by (simp add: algebra_simps)
    qed
    then show ?thesis by blast
  qed
qed

section \<open>A decoder and its slice\<close>

text \<open>Two decoders that have the same bytes ahead behave alike.\<close>

definition alike :: "pbtools_decoder \<Rightarrow> pbtools_decoder \<Rightarrow> bool" where
  "alike d s \<longleftrightarrow> decoder_ok d \<and> decoder_ok s \<and>
     (if de_pos d < 0 then de_pos s = de_pos d
      else 0 \<le> de_pos s \<and> decoder_left s = decoder_left d
        \<and> drop (nat (de_pos s)) (de_buf s) = drop (nat (de_pos d)) (de_buf d))"

definition reads_alike :: "(pbtools_decoder \<Rightarrow> ('a \<times> pbtools_decoder) option) \<Rightarrow> bool" where
  "reads_alike f \<longleftrightarrow> (\<forall>d s. alike d s \<longrightarrow> (\<exists>v d' s'. f d = Some (v, d') \<and> f s = Some (v, s') \<and> alike d' s'))"

lemma alike_abort: "alike d s \<Longrightarrow> 0 < error \<Longrightarrow> alike (decoder_abort d error) (decoder_abort s error)"
  by (auto simp: alike_def decoder_abort_def decoder_ok_def split: if_splits)

lemma reads_alike_return: "reads_alike (\<lambda>d. Some (v, d))"
  by (simp add: reads_alike_def)

lemma reads_alike_abort: "0 < error \<Longrightarrow> reads_alike (\<lambda>d. Some (v, decoder_abort d error))"
  by (simp add: reads_alike_def alike_abort)

lemma reads_alike_bind:
  assumes "reads_alike f" "\<And>v. reads_alike (g v)"
  shows "reads_alike (\<lambda>d. f d \<bind> (\<lambda>(v, d). g v d))"
  unfolding reads_alike_def
proof (intro allI impI)
  fix d s assume "alike d s"
  then obtain v d1 s1 where 1: "f d = Some (v, d1)" "f s = Some (v, s1)" "alike d1 s1"
    using assms(1) by (fastforce simp: reads_alike_def)
  then obtain w d2 s2 where "g v d1 = Some (w, d2)" "g v s1 = Some (w, s2)" "alike d2 s2"
    using assms(2) [of v] by (fastforce simp: reads_alike_def)
  then show "\<exists>v d' s'. f d \<bind> (\<lambda>(v, d). g v d) = Some (v, d') \<and> f s \<bind> (\<lambda>(v, d). g v d) = Some (v, s') \<and> alike d' s'"
    using 1 by simp
qed

lemma reads_alike_if: "(c \<Longrightarrow> reads_alike f) \<Longrightarrow> (\<not> c \<Longrightarrow> reads_alike g) \<Longrightarrow> reads_alike (\<lambda>d. if c then f d else g d)"
  by (cases c) simp_all

lemma decoder_get_alike: "reads_alike decoder_get"
  unfolding reads_alike_def
proof (intro allI impI)
  fix d s assume a: "alike d s"
  show "\<exists>v d' s'. decoder_get d = Some (v, d') \<and> decoder_get s = Some (v, s') \<and> alike d' s'"
  proof (cases "pbtools_decoder_available d")
    case False
    then have "\<not> pbtools_decoder_available s"
      using a by (auto simp: available_iff_left alike_def decoder_left_def decoder_ok_def split: if_splits)
    then show ?thesis
      using False alike_abort [OF a, of 2] by (simp add: decoder_get_def)
  next
    case True
    then have pos: "0 \<le> de_pos d" "0 \<le> de_pos s" "pbtools_decoder_available s"
      using a by (auto simp: available_iff_left alike_def decoder_left_def decoder_ok_def split: if_splits)
    then have lt: "nat (de_pos d) < length (de_buf d)" "nat (de_pos s) < length (de_buf s)"
      using a True by (auto simp: alike_def decoder_ok_def pbtools_decoder_available_def split: if_splits)
    have dr: "drop (nat (de_pos s)) (de_buf s) = drop (nat (de_pos d)) (de_buf d)"
      using a pos by (simp add: alike_def)
    then have "de_buf s ! nat (de_pos s) = de_buf d ! nat (de_pos d)"
      using lt by (metis Cons_nth_drop_Suc list.inject)
    moreover have "drop (nat (de_pos s + 1)) (de_buf s) = drop (nat (de_pos d + 1)) (de_buf d)"
      using dr pos lt by (metis Cons_nth_drop_Suc list.inject Suc_nat_eq_nat_zadd1 add.commute)
    ultimately show ?thesis
      using a True pos lt
      by (simp add: decoder_get_def alike_def decoder_ok_def decoder_left_def pbtools_decoder_available_def nat_less_iff)
  qed
qed

lemma decoder_read_varint_loop_alike: "reads_alike (\<lambda>d. decoder_read_varint_loop d v offset)"
proof (induction "64 - offset" arbitrary: v offset rule: less_induct)
  case less
  show ?case
    unfolding decoder_read_varint_loop.simps [of _ v offset] Let_def
    by (intro reads_alike_bind decoder_get_alike reads_alike_if reads_alike_return less) auto
qed

lemma decoder_read_varint_alike: "reads_alike decoder_read_varint"
proof -
  have "reads_alike (\<lambda>d. decoder_read_varint_loop d 0 0 \<bind>
      (\<lambda>(r, d). if snd r AND 0x80 \<noteq> 0 then Some (0, decoder_abort d 6) else Some (fst r, d)))"
    by (intro reads_alike_bind decoder_read_varint_loop_alike reads_alike_if reads_alike_abort reads_alike_return) simp
  then show ?thesis
    unfolding decoder_read_varint_def [abs_def] split_beta .
qed

lemma decoder_read_length_delimited_alike: "reads_alike (\<lambda>d. decoder_read_length_delimited d wt)"
  unfolding decoder_read_length_delimited_def read_varint_check_wire_type_def
  by (intro reads_alike_bind reads_alike_if reads_alike_abort reads_alike_return decoder_read_varint_alike) simp_all

lemma alike_whole_slice: "decoder_ok d \<Longrightarrow> 0 \<le> de_pos d \<Longrightarrow> alike d (decoder_init_slice d (decoder_left d))"
  by (auto simp: alike_def decoder_ok_def decoder_init_slice_def decoder_left_def split: if_splits)

lemma alike_slices: "alike d s \<Longrightarrow> 0 \<le> de_pos d \<Longrightarrow> decoder_init_slice s n = decoder_init_slice d n"
  by (auto simp: alike_def decoder_init_slice_def decoder_left_def split: if_splits)

lemma failed_slice: "decoder_ok d \<Longrightarrow> de_pos d < 0 \<Longrightarrow> 0 \<le> n \<Longrightarrow> \<not> pbtools_decoder_available (decoder_init_slice d n)"
  by (auto simp: decoder_ok_def decoder_init_slice_def pbtools_decoder_available_def split: if_splits)

section \<open>Variable length integers: any message\<close>

lemma heap_alloc_array_cases:
  assumes "heap_ok h" "int item_size * k + 7 \<le> int INT_MAX" "0 \<le> k"
  obtains "heap_alloc h (of_nat item_size * of_int k) 8 = (None, h)"
  | addr h' where "heap_alloc h (of_nat item_size * of_int k) 8 = (Some addr, h')" "heap_ok h'"
    "heap_holds h' addr (of_nat item_size * of_int k)"
proof -
  have "uint (of_int (int item_size * k) :: u64) = int item_size * k"
    unfolding uint_word_of_int_eq using assms by (intro take_bit_int_eq_self) auto
  then have u: "uint (of_nat item_size * of_int k :: u64) = int item_size * k"
    by simp
  from heap_alloc_cases [OF assms(1), of "of_nat item_size * of_int k" 3] u assms(2) that
    allocated_holds [OF assms(1), of "of_nat item_size * of_int k" 8]
  show thesis
    by (auto simp: allocated_def)
qed

text \<open>The array is as long as the count, and the count is what the first item or packed block gives.\<close>

lemma second_pass_returns:
  assumes "heap_ok h" "int item_size * ri_length info + 7 \<le> int INT_MAX" "0 \<le> ri_length info"
    and read: "0 < ri_length info \<Longrightarrow> \<exists>items d1. \<forall>h. read_repeated (ri_decoder info) h (ri_wire_type info)
      (replicate (nat (ri_length info)) None) 0 = Some (ri_length info, items, d1, h)"
  shows "\<exists>rep' d' h'. decoder_decode_repeated d h info rep (of_nat item_size) read_repeated = Some (rep', d', h')"
  using assms(1-3)
proof (cases rule: heap_alloc_array_cases)
  case 1
  then show ?thesis
    by (auto simp: decoder_decode_repeated_def Let_def decoder_heap_alloc_def)
next
  case (2 addr h')
  show ?thesis
  proof (cases "ri_length info = 0")
    case True
    then show ?thesis
      by (simp add: decoder_decode_repeated_def)
  next
    case False
    with assms(3) have "0 < ri_length info"
      by simp
    from read [OF this] obtain items d1 where r: "\<And>h. read_repeated (ri_decoder info) h (ri_wire_type info)
        (replicate (nat (ri_length info)) None) 0 = Some (ri_length info, items, d1, h)"
      by blast
    have "decode_repeated_loop read_repeated (info\<lparr>ri_decoder := d1\<rparr>) h' items (ri_length info) = Some (info\<lparr>ri_decoder := d1\<rparr>, h', items)"
      by (subst decode_repeated_loop.simps) (simp add: are_more_items_to_decode_def)
    then show ?thesis
      using 2 False r by (simp add: decoder_decode_repeated_def Let_def decoder_heap_alloc_def)
  qed
qed

definition passes_safe ::
    "(pbtools_repeated_info \<Rightarrow> pbtools_decoder \<Rightarrow> u32 \<Rightarrow> (pbtools_repeated_info \<times> pbtools_decoder) option) \<Rightarrow>
     (pbtools_decoder \<Rightarrow> pbtools_heap \<Rightarrow> pbtools_repeated_info \<Rightarrow> 'i option pbtools_repeated
       \<Rightarrow> ('i option pbtools_repeated \<times> pbtools_decoder \<times> pbtools_heap) option) \<Rightarrow> nat \<Rightarrow> bool" where
  "passes_safe first second item_size \<longleftrightarrow>
     (\<forall>info d wt. decoder_ok d \<and> ri_length info = 0 \<and> int item_size * (decoder_left d + 1) + 7 \<le> int INT_MAX \<longrightarrow>
        (\<exists>info' d'. first info d wt = Some (info', d') \<and> moved d d'
          \<and> (\<forall>h d2 rep. heap_ok h \<longrightarrow> (\<exists>r. second d2 h info' rep = Some r))))"

lemma slice_left: "decoder_ok d \<Longrightarrow> 0 \<le> n \<Longrightarrow> decoder_left (decoder_init_slice d n) \<le> decoder_left d"
  by (auto simp: decoder_left_def decoder_init_slice_def decoder_ok_def split: if_splits)

lemma reads_one:
  assumes "varint_item item_read" "decoder_ok s"
  shows "\<exists>items d1. decoder_read_repeated s 0 [None] 0 item_read 0 = Some (1, items, d1)"
proof -
  obtain f where f: "item_read s [None] 0 = do { (v, d) \<leftarrow> decoder_read_varint s; items \<leftarrow> set_item [None] 0 (f v); Some (items, d) }"
    using assms(1) by (auto simp: varint_item_def)
  obtain v d1 where "decoder_read_varint s = Some (v, d1)"
    using decoder_read_varint_safe assms(2) by (auto simp: safe_def)
  then show ?thesis
    using f by (simp add: decoder_read_repeated_def set_item_def)
qed

lemma reads_packed:
  assumes item: "varint_item item_read" and d: "decoder_ok d" and n: "decoder_read_length_delimited d 2 = Some (n, d1)"
    and agree: "passes_agree item_read (decoder_init_slice d1 (to_int n)) k e" and k: "0 < k"
  shows "\<exists>items d2. decoder_read_repeated (decoder_init_slice d (decoder_left d)) 2 (replicate (nat k) None) 0 item_read 0 = Some (k, items, d2)"
proof -
  have d1: "moved d d1"
    using read_length_delimited_safe d n by (rule safe_moved)
  have to: "0 \<le> to_int n"
    using read_length_delimited_small [OF n] by (simp add: to_int_small)
  have av: "pbtools_decoder_available (decoder_init_slice d1 (to_int n))"
    using agree k by (simp add: passes_agree_def available_iff_left)
  then have pos1: "0 \<le> de_pos d1"
    using failed_slice [OF moved_ok [OF d1] _ to] by fastforce
  then have pos: "0 \<le> de_pos d"
    using d1 by (auto simp: moved_def split: if_splits)
  obtain s1 where s1: "decoder_read_length_delimited (decoder_init_slice d (decoder_left d)) 2 = Some (n, s1)" "alike d1 s1"
    using decoder_read_length_delimited_alike [of 2] alike_whole_slice [OF d pos] n by (fastforce simp: reads_alike_def)
  have "\<forall>items i. 0 \<le> i \<and> i + k \<le> int (length items) \<longrightarrow>
      (\<exists>items'. read_items item_read 0 (decoder_init_slice d1 (to_int n)) items i = Some (i + k, items', e) \<and> length items' = length items)"
    using agree unfolding passes_agree_def by blast
  from this [rule_format, of 0 "replicate (nat k) None"] obtain items' where
      "read_items item_read 0 (decoder_init_slice s1 (to_int n)) (replicate (nat k) None) 0 = Some (k, items', e)"
    using k alike_slices [OF s1(2) pos1] by auto
  then show ?thesis
    using s1(1) by (simp add: decoder_read_repeated_def)
qed

lemma varint_passes_safe:
  assumes item: "varint_item item_read"
    and first: "\<And>info d wt. first info d wt = repeated_info_decode_varint info d wt"
    and read: "\<And>d h wt items i. read_repeated d h wt items i =
       decoder_read_repeated d wt items i item_read 0 \<bind> (\<lambda>(n, items, d). Some (n, items, d, h))"
    and second: "\<And>d h info rep. second d h info rep = decoder_decode_repeated d h info rep (of_nat item_size) read_repeated"
  shows "passes_safe first second item_size"
  unfolding passes_safe_def first second
proof (intro allI impI, goal_cases)
  case (1 info d wt)
  define s where "s = decoder_init_slice d (decoder_left d)"
  define i0 where "i0 = info\<lparr>ri_decoder := s, ri_wire_type := wt\<rparr>"
  have i0: "repeated_info_init_decode info d wt = i0"
    using 1 by (simp add: i0_def s_def repeated_info_init_decode_def)
  have ok: "decoder_ok d" "decoder_ok s" "0 \<le> decoder_left d"
    using 1 decoder_init_slice_ok decoder_left_nonneg by (simp_all add: s_def)
  have size: "int item_size * j + 7 \<le> int INT_MAX" if "j \<le> decoder_left d + 1" for j
    using 1 mult_left_mono [OF that, of "int item_size"] by simp
  consider "wt = 0" | "wt = 2" | "wt \<noteq> 0" "wt \<noteq> 2" by blast
  then show ?case
  proof cases
    case 1
    obtain v d1 where v: "decoder_read_varint d = Some (v, d1)" "moved d d1"
      using decoder_read_varint_safe ok(1) by (auto simp: safe_def)
    obtain items e where "decoder_read_repeated s 0 [None] 0 item_read 0 = Some (1, items, e)"
      using reads_one [OF item ok(2)] by blast
    then have ret: "\<exists>r. decoder_decode_repeated d2 h (i0\<lparr>ri_length := 1\<rparr>) rep (of_nat item_size) read_repeated = Some r" if "heap_ok h" for h d2 rep
      using second_pass_returns [OF that, of item_size "i0\<lparr>ri_length := 1\<rparr>" read_repeated d2 rep] size [of 1] ok(3) 1
      by (simp add: read i0_def)
    have "repeated_info_decode_varint info d wt = Some (i0\<lparr>ri_length := 1\<rparr>, d1)"
      unfolding repeated_info_decode_varint_def i0 using v 1 \<open>decoder_ok d \<and> ri_length info = 0 \<and> _\<close> by (simp add: i0_def)
    then show ?thesis
      using v(2) ret by blast
  next
    case 2
    obtain n d1 where n: "decoder_read_length_delimited d 2 = Some (n, d1)" and d1: "moved d d1"
      using read_length_delimited_safe ok(1) by (fastforce simp: safe_def)
    have to: "0 \<le> to_int n"
      using read_length_delimited_small [OF n] by (simp add: to_int_small)
    obtain k e where k: "passes_agree item_read (decoder_init_slice d1 (to_int n)) k e"
      using count_and_read [OF item decoder_init_slice_ok [OF moved_ok [OF d1] to]] by blast
    have kb: "0 \<le> k" "k \<le> decoder_left d + 1"
      using k slice_left [OF moved_ok [OF d1] to] moved_left [OF d1 ok(1)] by (simp_all add: passes_agree_def)
    have ret: "\<exists>r. decoder_decode_repeated d2 h (i0\<lparr>ri_length := k\<rparr>) rep (of_nat item_size) read_repeated = Some r" if "heap_ok h" for h d2 rep
      using second_pass_returns [OF that, of item_size "i0\<lparr>ri_length := k\<rparr>" read_repeated d2 rep] size [OF kb(2)] kb(1) 2
        reads_packed [OF item ok(1) n k] by (fastforce simp: read i0_def s_def)
    have "repeated_info_decode_varint info d wt = Some (i0\<lparr>ri_length := k\<rparr>, decoder_seek d1 (decoder_get_result e))"
      unfolding repeated_info_decode_varint_def i0 using n 2 k \<open>decoder_ok d \<and> ri_length info = 0 \<and> _\<close>
      by (simp add: i0_def passes_agree_def)
    then show ?thesis
      using moved_trans [OF d1 decoder_seek_moved [OF moved_ok [OF d1]]] ret by blast
  next
    case 3
    then show ?thesis
      using \<open>decoder_ok d \<and> ri_length info = 0 \<and> _\<close> decoder_abort_moved [OF ok(1), of 1]
      by (simp add: repeated_info_decode_varint_def i0 i0_def decoder_decode_repeated_def)
  qed
qed

lemma passes_safe_varints:
  "passes_safe pbtools_repeated_info_decode_int32 pbtools_decoder_decode_repeated_int32 4"
  "passes_safe pbtools_repeated_info_decode_int64 pbtools_decoder_decode_repeated_int64 8"
  "passes_safe pbtools_repeated_info_decode_uint32 pbtools_decoder_decode_repeated_uint32 4"
  "passes_safe pbtools_repeated_info_decode_uint64 pbtools_decoder_decode_repeated_uint64 8"
  "passes_safe pbtools_repeated_info_decode_sint32 pbtools_decoder_decode_repeated_sint32 4"
  "passes_safe pbtools_repeated_info_decode_sint64 pbtools_decoder_decode_repeated_sint64 8"
  "passes_safe pbtools_repeated_info_decode_bool pbtools_decoder_decode_repeated_bool 1"
proof -
  show "passes_safe pbtools_repeated_info_decode_int32 pbtools_decoder_decode_repeated_int32 4"
    by (rule varint_passes_safe [OF varint_items(1), where read_repeated = read_repeated_int32]) (simp_all add: codec_defs)
  show "passes_safe pbtools_repeated_info_decode_int64 pbtools_decoder_decode_repeated_int64 8"
    by (rule varint_passes_safe [OF varint_items(2), where read_repeated = read_repeated_int64]) (simp_all add: codec_defs)
  show "passes_safe pbtools_repeated_info_decode_uint32 pbtools_decoder_decode_repeated_uint32 4"
    by (rule varint_passes_safe [OF varint_items(5), where read_repeated = read_repeated_uint32]) (simp_all add: codec_defs)
  show "passes_safe pbtools_repeated_info_decode_uint64 pbtools_decoder_decode_repeated_uint64 8"
    by (rule varint_passes_safe [OF varint_items(6), where read_repeated = read_repeated_uint64]) (simp_all add: codec_defs)
  show "passes_safe pbtools_repeated_info_decode_sint32 pbtools_decoder_decode_repeated_sint32 4"
    by (rule varint_passes_safe [OF varint_items(3), where read_repeated = read_repeated_sint32]) (simp_all add: codec_defs)
  show "passes_safe pbtools_repeated_info_decode_sint64 pbtools_decoder_decode_repeated_sint64 8"
    by (rule varint_passes_safe [OF varint_items(4), where read_repeated = read_repeated_sint64]) (simp_all add: codec_defs)
  show "passes_safe pbtools_repeated_info_decode_bool pbtools_decoder_decode_repeated_bool 1"
    by (rule varint_passes_safe [OF varint_items(7), where read_repeated = read_repeated_bool]) (simp_all add: codec_defs)
qed

section \<open>Items of a fixed size: one item too many\<close>

lemma read_fixed32_overrun:
  assumes "decoder_ok d" "0 \<le> de_pos d" "decoder_left d = 4 * int j + r" "0 < r" "r < 4" "i + j = length items"
  shows "read_items read_repeated_fixed32_item 0 d items (int i) = None"
  using assms
proof (induction j arbitrary: d i items)
  case 0
  then have "decoder_read d 4 = Some (replicate 4 0, decoder_abort d 2)"
    by (simp add: decoder_read_def decoder_left_def to_int_small)
  then have "read_repeated_fixed32_item d items (int i) = None"
    using 0 by (simp add: read_repeated_fixed32_item_def decoder_read_32_bit_value_def set_item_def)
  then show ?case
    using 0 by (subst read_items.simps) (simp add: available_iff_left)
next
  case (Suc j)
  have le: "de_pos d + 4 \<le> int (length (de_buf d))"
    using Suc.prems by (simp add: decoder_ok_def decoder_left_def)
  define e where "e = d\<lparr>de_pos := de_pos d + 4\<rparr>"
  have "decoder_read d 4 = Some (mem_read (de_buf d) (nat (de_pos d)) 4, e)"
    using Suc.prems le by (simp add: decoder_read_def decoder_left_def to_int_small e_def)
  then obtain v where "read_repeated_fixed32_item d items (int i) = Some (items[i := Some v], e)"
    using Suc.prems(6) by (simp add: read_repeated_fixed32_item_def decoder_read_32_bit_value_def set_item_def)
  moreover have "read_items read_repeated_fixed32_item 0 e (items[i := Some v]) (int (Suc i)) = None"
    using Suc.prems by (intro Suc.IH) (simp_all add: e_def decoder_ok_def decoder_left_def)
  ultimately show ?case
    using Suc.prems by (subst read_items.simps) (simp add: available_iff_left add.commute)
qed

lemma first_pass_32bit:
  assumes "ahead d (length_prefixed bs)" "length bs < INT_MAX" "ri_length info = 0"
  shows "repeated_info_decode_32bit info d 2 = Some (first_pass info d (length bs div 4), advance d (length_prefixed bs))"
proof -
  define d1 where "d1 = advance d (varint_bytes (of_nat (length bs)))"
  have d: "ahead d (varint_bytes (of_nat (length bs)))" "ahead d1 bs"
    using assms(1) by (simp_all add: ahead_append d1_def length_prefixed_def)
  have "decoder_read_length_delimited d 2 = Some (of_nat (length bs), d1)"
    using read_length_delimited_reads [OF assms(2)] d(1) by (simp add: reads_def d1_def)
  moreover have "decoder_seek d1 (int (length bs)) = advance d (length_prefixed bs)"
    using ahead_slice(4) [OF d(2)] by (simp add: length_prefixed_def d1_def)
  ultimately show ?thesis
    using assms(2,3) by (simp add: repeated_info_decode_32bit_def repeated_info_init_decode_def first_pass_def zdiv_int)
qed

lemma fixed32_overrun:
  assumes "ahead d (length_prefixed bs)" "length bs < INT_MAX" "4 < length bs" "length bs mod 4 \<noteq> 0"
    and h: "heap_ok h" "int (length bs) + 7 \<le> hp_size h - hp_pos h"
  shows "pbtools_decoder_decode_repeated_fixed32 d2 h (first_pass info d (length bs div 4)) rep = None"
proof -
  define k where "k = length bs div 4"
  define s where "s = decoder_init_slice d (decoder_left d)"
  define s1 where "s1 = advance s (varint_bytes (of_nat (length bs)))"
  have k: "0 < k" "length bs = 4 * k + length bs mod 4"
    using assms(3) by (simp_all add: k_def div_greater_zero_iff)
  have s: "ahead s (varint_bytes (of_nat (length bs)))" "ahead s1 bs"
    using ahead_whole_slice [OF assms(1)] by (simp_all add: ahead_append s_def s1_def length_prefixed_def)
  have len: "decoder_read_length_delimited s 2 = Some (of_nat (length bs), s1)"
    using read_length_delimited_reads [OF assms(2)] s(1) by (simp add: reads_def s1_def)
  have "read_items read_repeated_fixed32_item 0 (decoder_init_slice s1 (int (length bs))) (replicate k None) (int 0) = None"
    using ahead_slice(1,2) [OF s(2)] k(2) assms(4)
    by (intro read_fixed32_overrun [where j = k and r = "int (length bs mod 4)"]) (auto simp: ahead_def simp del: of_nat_mod)
  then have "read_repeated_fixed32 s g 2 (replicate k None) 0 = None" for g
    using len assms(2) by (simp add: read_repeated_fixed32_def decoder_read_repeated_32_bit_def decoder_read_repeated_def)
  moreover have "int 4 * int k + 7 \<le> hp_size h - hp_pos h"
    using h(2) k(2) by linarith
  then obtain addr h' where "heap_alloc h (4 * of_int (int k)) 8 = (Some addr, h')" "heap_holds h' addr (4 * of_int (int k))"
    using heap_alloc_array [OF h(1)] by (metis of_nat_numeral)
  ultimately show ?thesis
    using k(1) by (simp add: pbtools_decoder_decode_repeated_fixed32_def decoder_decode_repeated_def first_pass_def Let_def
        decoder_heap_alloc_def flip: s_def k_def)
qed

section \<open>Large arrays\<close>

text \<open>The size of an allocation is compared as an \<open>int\<close>; a size of two gigabytes is negative and fits every heap.\<close>

lemma to_int_large:
  assumes "2147483648 \<le> uint x" "uint x < 4294967296"
  shows "to_int x = uint x - 4294967296"
proof -
  have "uint (ucast x :: 32 word) = uint x"
    using assms by (simp add: unsigned_ucast_eq take_bit_int_eq_self)
  moreover have "uint x div 2147483648 = 1"
    using assms by arith
  ultimately show ?thesis
    using assms by (simp add: to_int_def sint_uint signed_take_bit_eq_take_bit_minus take_bit_int_eq_self bit_iff_odd)
qed

lemma heap_alloc_large:
  assumes "heap_ok h"
  shows "\<exists>addr h'. heap_alloc h 0x80000000 8 = (Some addr, h') \<and> hp_size h' = hp_size h \<and> hp_pos h' < hp_pos h"
proof -
  have to: "to_int 0x80000000 = - 2147483648"
    using to_int_large [of "0x80000000"] by simp
  define rest where "rest = (hp_buf h + of_int (hp_pos h)) AND 7"
  have "uint rest = uint (hp_buf h + of_int (hp_pos h)) mod 2 ^ 3"
    using uint_and_align [of "hp_buf h + of_int (hp_pos h)" 3] by (simp add: rest_def)
  then have rest: "0 \<le> uint rest" "uint rest < 8"
    by simp_all
  then have pad: "uint (8 - rest) = 8 - uint rest"
    using uint_diff_64 [of rest 8] by simp
  then have "uint (0x80000000 + (8 - rest)) = 2147483648 + (8 - uint rest)"
    using uint_add_64 [of "0x80000000" "8 - rest"] rest by simp
  then have "to_int (0x80000000 + (8 - rest)) = 8 - uint rest - 2147483648"
    using to_int_large [of "0x80000000 + (8 - rest)"] rest by simp
  moreover have "8 - uint rest - 2147483648 \<le> hp_size h - hp_pos h" "8 - uint rest - 2147483648 < 0"
    using assms rest unfolding heap_ok_def by linarith+
  ultimately show ?thesis
    using assms to by (simp add: heap_alloc_def Let_def heap_ok_def rest_def [symmetric])
qed

lemma calloc_overrun:
  assumes "heap_ok h"
  shows "pbtools_alloc_repeated_int32 h 0x20000000 rep = None"
proof -
  obtain addr h' where h': "heap_alloc h 0x80000000 8 = (Some addr, h')" "hp_size h' = hp_size h"
    using heap_alloc_large [OF assms] by blast
  have "\<not> heap_holds h' addr 0x80000000"
    using assms h'(2) uint_ge_0 [of "hp_buf h'"] by (simp add: heap_holds_def heap_ok_def)
  then show ?thesis
    using h' by (simp add: pbtools_alloc_repeated_int32_def alloc_repeated_int32_def calloc_repeated_def)
qed

end
