(* ===== verification/PbMessage.thy ===== *)
theory PbMessage
  imports PbPacked
begin

text \<open>
  Messages, sub-messages and repeated messages (\<^verbatim>\<open>proto/pbtools.c\<close>). What encodes, decodes and initialises the fields
  of one message type is generated code and a parameter: \<open>message_encode_inner\<close> writes the fields of a message,
  \<open>message_decode_inner\<close> reads fields into a message until its decoder has no data left, and \<open>message_init\<close> is the
  message that initialisation leaves. A pointer to a message is the message itself, a null pointer is \<open>None\<close>.

  Proved: for generated code that reads back the fields it writes, a message is decoded to what was encoded, alone, as a
  field of another message and as an item of a repeated field; a buffer that is too small gives an error and no
  message; when the heap is full a repeated field of messages is dropped without one.
\<close>

section \<open>Definitions\<close>

type_synonym 'm message_encode_inner = "pbtools_encoder \<Rightarrow> 'm \<Rightarrow> pbtools_encoder option"

type_synonym 'm message_decode_inner =
  "pbtools_decoder \<Rightarrow> pbtools_heap \<Rightarrow> 'm \<Rightarrow> ('m \<times> pbtools_decoder \<times> pbtools_heap) option"

text \<open>The room that the head of the heap and a message need, with the worst padding between them.\<close>

definition PBUTIL_WORKSPACE_BASE :: "nat \<Rightarrow> nat \<Rightarrow> nat" where
  "PBUTIL_WORKSPACE_BASE alignof_type sizeof_type = SIZEOF_HEAP + (alignof_type - 1) + sizeof_type"

text \<open>The outer \<open>None\<close> is undefined behaviour, the inner one the null pointer.\<close>

definition pbtools_message_new :: "u64 \<Rightarrow> size_t \<Rightarrow> size_t \<Rightarrow> 'm \<Rightarrow> ('m \<times> pbtools_heap) option option" where
  "pbtools_message_new workspace n message_size message_init =
     (case heap_new workspace n of
        None \<Rightarrow> Some None
      | Some heap \<Rightarrow>
          (case heap_alloc heap message_size 8 of
             (None, heap) \<Rightarrow> Some None
           | (Some addr, heap) \<Rightarrow> if heap_holds heap addr message_size then Some (Some (message_init, heap)) else None))"

definition pbtools_message_encode :: "'m \<Rightarrow> u8 list \<Rightarrow> size_t \<Rightarrow> 'm message_encode_inner \<Rightarrow> (int \<times> u8 list) option" where
  "pbtools_message_encode self encoded n message_encode_inner = do {
     encoder \<leftarrow> message_encode_inner (encoder_init encoded n) self;
     Some (encoder_get_result encoder)
   }"

definition pbtools_message_decode ::
    "'m \<Rightarrow> pbtools_heap \<Rightarrow> u8 list \<Rightarrow> size_t \<Rightarrow> 'm message_decode_inner \<Rightarrow> (int \<times> 'm \<times> pbtools_heap) option" where
  "pbtools_message_decode self heap encoded n message_decode_inner = do {
     (self, decoder, heap) \<leftarrow> message_decode_inner (decoder_init encoded n) heap self;
     Some (decoder_get_result decoder, self, heap)
   }"

definition pbtools_sub_message_alloc ::
    "'m option \<Rightarrow> pbtools_heap \<Rightarrow> size_t \<Rightarrow> 'm \<Rightarrow> (int \<times> 'm option \<times> pbtools_heap) option" where
  "pbtools_sub_message_alloc message heap sub_message_size message_init =
     (case heap_alloc heap sub_message_size 8 of
        (None, heap) \<Rightarrow> Some (- 1, message, heap)
      | (Some addr, heap) \<Rightarrow> if heap_holds heap addr sub_message_size then Some (0, Some message_init, heap) else None)"

definition pbtools_alloc_repeated ::
    "'m pbtools_repeated \<Rightarrow> int \<Rightarrow> pbtools_heap \<Rightarrow> size_t \<Rightarrow> 'm \<Rightarrow> (int \<times> 'm pbtools_repeated \<times> pbtools_heap) option" where
  "pbtools_alloc_repeated repeated len heap item_size message_init = (
     let size = item_size * of_int len
     in case heap_alloc heap size 8 of
          (None, heap) \<Rightarrow> Some (- 1, repeated\<lparr>rep_items := []\<rparr>, heap)
        | (Some addr, heap) \<Rightarrow>
            if heap_holds heap addr size
            then Some (0, repeated\<lparr>rep_items := replicate (nat len) message_init, rep_length := len\<rparr>, heap) else None)"

text \<open>The items are encoded from the last to the first.\<close>

fun encode_repeated_items ::
    "u32 \<Rightarrow> 'm message_encode_inner \<Rightarrow> nat \<Rightarrow> 'm list \<Rightarrow> pbtools_encoder \<Rightarrow> pbtools_encoder option" where
  "encode_repeated_items field_number message_encode_inner 0 items encoder = Some encoder"
| "encode_repeated_items field_number message_encode_inner (Suc i) items encoder = do {
     item \<leftarrow> item_at items (int i);
     let pos = en_pos encoder;
     encoder \<leftarrow> message_encode_inner encoder item;
     encoder \<leftarrow> encoder_write_length_delimited encoder field_number (of_int (pos - en_pos encoder));
     encode_repeated_items field_number message_encode_inner i items encoder
   }"

definition pbtools_encode_repeated_inner ::
    "pbtools_encoder \<Rightarrow> u32 \<Rightarrow> 'm pbtools_repeated \<Rightarrow> 'm message_encode_inner \<Rightarrow> pbtools_encoder option" where
  "pbtools_encode_repeated_inner encoder field_number repeated message_encode_inner =
     encode_repeated_items field_number message_encode_inner (nat (rep_length repeated)) (rep_items repeated) encoder"

definition decode_repeated_inner_item ::
    "pbtools_repeated_info \<Rightarrow> pbtools_heap \<Rightarrow> 'm message_decode_inner \<Rightarrow> 'm list \<Rightarrow> int
      \<Rightarrow> (pbtools_repeated_info \<times> pbtools_heap \<times> 'm list \<times> int) option" where
  "decode_repeated_inner_item repeated_info heap message_decode_inner items len = do {
     (size, parent) \<leftarrow> decoder_read_length_delimited (ri_decoder repeated_info) PBTOOLS_WIRE_TYPE_LENGTH_DELIMITED;
     item \<leftarrow> item_at items len;
     (item, decoder, heap) \<leftarrow> message_decode_inner (decoder_init_slice parent (to_int size)) heap item;
     Some (repeated_info\<lparr>ri_decoder := decoder_seek parent (decoder_get_result decoder)\<rparr>, heap, items[nat len := item], len + 1)
   }"

partial_function (option) decode_repeated_inner_loop ::
    "'m message_decode_inner \<Rightarrow> pbtools_repeated_info \<Rightarrow> pbtools_heap \<Rightarrow> 'm list \<Rightarrow> int
      \<Rightarrow> (pbtools_repeated_info \<times> pbtools_heap \<times> 'm list) option" where
  "decode_repeated_inner_loop message_decode_inner repeated_info heap items len =
     (if are_more_items_to_decode repeated_info len then do {
        ((tag, wire_type), decoder) \<leftarrow> pbtools_decoder_read_tag (ri_decoder repeated_info);
        (if tag = ri_tag repeated_info then do {
           (repeated_info, heap, items, len) \<leftarrow> decode_repeated_inner_item (repeated_info\<lparr>ri_decoder := decoder\<rparr>) heap
             message_decode_inner items len;
           decode_repeated_inner_loop message_decode_inner repeated_info heap items len
         } else do {
           decoder \<leftarrow> pbtools_decoder_skip_field decoder wire_type;
           decode_repeated_inner_loop message_decode_inner (repeated_info\<lparr>ri_decoder := decoder\<rparr>) heap items len
         })
      } else Some (repeated_info, heap, items))"

definition pbtools_decode_repeated_inner ::
    "pbtools_decoder \<Rightarrow> pbtools_heap \<Rightarrow> pbtools_repeated_info \<Rightarrow> 'm pbtools_repeated \<Rightarrow> size_t \<Rightarrow> 'm \<Rightarrow> 'm message_decode_inner
      \<Rightarrow> ('m pbtools_repeated \<times> pbtools_decoder \<times> pbtools_heap) option" where
  "pbtools_decode_repeated_inner decoder heap repeated_info repeated item_size message_init message_decode_inner =
     (if ri_length repeated_info = 0 then Some (repeated, decoder, heap)
      else do {
        (res, repeated, heap) \<leftarrow> pbtools_alloc_repeated repeated (ri_length repeated_info) heap item_size message_init;
        (if res \<noteq> 0 then Some (repeated, decoder, heap)
         else do {
           (info, heap, items, len) \<leftarrow> decode_repeated_inner_item repeated_info heap message_decode_inner (rep_items repeated) 0;
           (info, heap, items) \<leftarrow> decode_repeated_inner_loop message_decode_inner info heap items len;
           let res = decoder_get_result (ri_decoder info);
           Some (repeated\<lparr>rep_items := items\<rparr>, if res < 0 then decoder_abort decoder (- res) else decoder, heap)
         })
      })"

definition pbtools_encoder_sub_message_encode ::
    "pbtools_encoder \<Rightarrow> u32 \<Rightarrow> 'm option \<Rightarrow> 'm message_encode_inner \<Rightarrow> pbtools_encoder option" where
  "pbtools_encoder_sub_message_encode self field_number message encode_inner =
     (case message of
        None \<Rightarrow> Some self
      | Some m \<Rightarrow> do {
          let pos = en_pos self;
          self \<leftarrow> encode_inner self m;
          encoder_write_length_delimited self field_number (of_int (pos - en_pos self))
        })"

definition pbtools_encoder_sub_message_encode_always ::
    "pbtools_encoder \<Rightarrow> u32 \<Rightarrow> 'm \<Rightarrow> 'm message_encode_inner \<Rightarrow> pbtools_encoder option" where
  "pbtools_encoder_sub_message_encode_always self field_number message encode_inner = do {
     let pos = en_pos self;
     self \<leftarrow> encode_inner self message;
     encoder_write_tagged_varint_always self field_number PBTOOLS_WIRE_TYPE_LENGTH_DELIMITED (of_int (pos - en_pos self))
   }"

definition pbtools_decoder_sub_message_decode ::
    "pbtools_decoder \<Rightarrow> pbtools_heap \<Rightarrow> u32 \<Rightarrow> 'm option \<Rightarrow> size_t \<Rightarrow> 'm \<Rightarrow> 'm message_decode_inner
      \<Rightarrow> ('m option \<times> pbtools_decoder \<times> pbtools_heap) option" where
  "pbtools_decoder_sub_message_decode self heap wire_type message sub_message_size message_init decode_inner =
     (case decoder_heap_alloc self heap sub_message_size 8 of
        (None, self, heap) \<Rightarrow> Some (message, self, heap)
      | (Some addr, self, heap) \<Rightarrow>
          if heap_holds heap addr sub_message_size then do {
            (size, self) \<leftarrow> decoder_read_length_delimited self wire_type;
            (m, decoder, heap) \<leftarrow> decode_inner (decoder_init_slice self (to_int size)) heap message_init;
            Some (Some m, decoder_seek self (decoder_get_result decoder), heap)
          } else None)"

section \<open>Generated code\<close>

text \<open>
  What is asked of the code that is generated for a message type: it writes the fields of a message as some bytes, and
  from exactly those bytes it reads the message back into an initialised one, using some room of the heap.
\<close>

definition message_codec ::
    "'m message_encode_inner \<Rightarrow> 'm message_decode_inner \<Rightarrow> 'm \<Rightarrow> ('m \<Rightarrow> u8 list) \<Rightarrow> ('m \<Rightarrow> int) \<Rightarrow> bool" where
  "message_codec enc dec init bytes need \<longleftrightarrow>
     (\<forall>m. length (bytes m) < INT_MAX \<and> 0 \<le> need m \<longrightarrow> writes (\<lambda>e. enc e m) (bytes m)
        \<and> (\<forall>d h. ahead d (bytes m) \<and> decoder_left d = int (length (bytes m)) \<and> heap_ok h \<and> need m \<le> hp_size h - hp_pos h \<longrightarrow>
             (\<exists>h'. dec d h init = Some (m, advance d (bytes m), h') \<and> heap_ok h' \<and> hp_size h' = hp_size h
                \<and> hp_pos h' \<le> hp_pos h + need m)))"

lemma codec_writes:
  "message_codec enc dec init bytes need \<Longrightarrow> length (bytes m) < INT_MAX \<Longrightarrow> 0 \<le> need m \<Longrightarrow> writes (\<lambda>e. enc e m) (bytes m)"
  by (simp add: message_codec_def)

lemma codec_reads:
  assumes "message_codec enc dec init bytes need" "length (bytes m) < INT_MAX" "0 \<le> need m" "ahead d (bytes m)"
    "decoder_left d = int (length (bytes m))" "heap_ok h" "need m \<le> hp_size h - hp_pos h"
  obtains h' where "dec d h init = Some (m, advance d (bytes m), h')" "heap_ok h'" "hp_size h' = hp_size h"
    "hp_pos h' \<le> hp_pos h + need m"
  using assms unfolding message_codec_def by blast

section \<open>Messages\<close>

lemma encoder_init_good: "length buf = n \<Longrightarrow> 0 < n \<Longrightarrow> n \<le> INT_MAX \<Longrightarrow> encoder_good (encoder_init buf (of_nat n))"
  by (simp add: encoder_init_def encoder_good_def)

lemma encoder_init_written: "length buf = n \<Longrightarrow> n \<le> INT_MAX \<Longrightarrow> written (encoder_init buf (of_nat n)) = []"
  by (simp add: encoder_init_def written_def)

lemma get_result_good:
  assumes "encoder_good e"
  shows "fst (encoder_get_result e) = int (length (written e))"
    "take (length (written e)) (snd (encoder_get_result e)) = written e"
    "length (snd (encoder_get_result e)) = length (en_buf e)"
proof -
  define p where "p = nat (en_pos e + 1)"
  define n where "n = nat (en_size e - en_pos e - 1)"
  have le: "p + n = length (en_buf e)" "int n = en_size e - en_pos e - 1"
    using assms by (auto simp: p_def n_def encoder_good_def)
  have "length (written e) = n" "mem_read (en_buf e) p n = written e"
    using le by (simp_all add: written_def mem_read_def p_def [symmetric])
  moreover have "encoder_get_result e = (int n, mem_write (en_buf e) 0 (mem_read (en_buf e) p n))"
    using assms le by (simp add: encoder_get_result_def encoder_good_def p_def n_def Let_def)
  ultimately show "fst (encoder_get_result e) = int (length (written e))"
    "take (length (written e)) (snd (encoder_get_result e)) = written e"
    "length (snd (encoder_get_result e)) = length (en_buf e)"
    using le by (simp_all add: mem_write_def)
qed

lemma message_encode_result:
  assumes "writes (\<lambda>e. enc e m) bs" "length buf = n" "0 < n" "n \<le> INT_MAX"
  shows "length bs < n \<Longrightarrow> \<exists>buf'. pbtools_message_encode m buf (of_nat n) enc = Some (int (length bs), buf')
      \<and> take (length bs) buf' = bs \<and> length buf' = n"
    and "n \<le> length bs \<Longrightarrow> \<exists>buf'. pbtools_message_encode m buf (of_nat n) enc = Some (- PBTOOLS_ENCODE_BUFFER_FULL, buf')"
proof -
  define e where "e = encoder_init buf (of_nat n)"
  have e: "encoder_good e" "written e = []" "en_pos e = int n - 1" "length (en_buf e) = n"
    using encoder_init_good [OF assms(2-4)] encoder_init_written [OF assms(2,4)] assms(2,4)
    by (simp_all add: e_def) (simp_all add: encoder_init_def)
  obtain e' where e': "enc e m = Some e'" "wrote bs e e'"
    using assms(1) e(1) by (auto simp: writes_def)
  show "\<exists>buf'. pbtools_message_encode m buf (of_nat n) enc = Some (int (length bs), buf') \<and> take (length bs) buf' = bs \<and> length buf' = n"
    if "length bs < n"
  proof -
    have w: "encoder_good e'" "written e' = bs" "length (en_buf e') = n"
      using e' e that by (simp_all add: wrote_def)
    show ?thesis
      using e'(1) get_result_good [OF w(1)] w
      by (cases "encoder_get_result e'") (simp add: pbtools_message_encode_def e_def)
  qed
  show "\<exists>buf'. pbtools_message_encode m buf (of_nat n) enc = Some (- PBTOOLS_ENCODE_BUFFER_FULL, buf')" if "n \<le> length bs"
  proof -
    have "encoder_full e'"
      using e' e that by (simp add: wrote_def)
    then show ?thesis
      using e'(1) by (simp add: pbtools_message_encode_def encoder_get_result_def encoder_full_def e_def)
  qed
qed

lemma decoder_init_ahead:
  assumes "take (length bs) buf = bs" "length bs \<le> length buf" "length bs \<le> INT_MAX"
  shows "ahead (decoder_init buf (of_nat (length bs))) bs" "decoder_left (decoder_init buf (of_nat (length bs))) = int (length bs)"
    "decoder_get_result (advance (decoder_init buf (of_nat (length bs))) bs) = int (length bs)"
  using assms by (simp_all add: ahead_def decoder_init_def decoder_ok_def decoder_left_def decoder_get_result_def advance_def mem_read_def)

lemma message_round_trip:
  assumes codec: "message_codec enc dec init bytes need" "0 \<le> need m"
    and buf: "length buf = n" "length (bytes m) < n" "n \<le> INT_MAX" and h: "heap_ok h" "need m \<le> hp_size h - hp_pos h"
  shows "\<exists>buf' h'. pbtools_message_encode m buf (of_nat n) enc = Some (int (length (bytes m)), buf')
    \<and> pbtools_message_decode init h buf' (of_nat (length (bytes m))) dec = Some (int (length (bytes m)), m, h')"
proof -
  obtain buf' where b: "pbtools_message_encode m buf (of_nat n) enc = Some (int (length (bytes m)), buf')"
      "take (length (bytes m)) buf' = bytes m" "length buf' = n"
    using message_encode_result(1) [of enc m "bytes m" buf n] codec_writes [OF codec(1) _ codec(2)] buf by auto
  have len: "length (bytes m) < INT_MAX" "length (bytes m) \<le> length buf'" "length (bytes m) \<le> INT_MAX"
    using buf b(3) by simp_all
  note a = decoder_init_ahead [OF b(2) len(2,3)]
  obtain h' where "dec (decoder_init buf' (of_nat (length (bytes m)))) h init =
      Some (m, advance (decoder_init buf' (of_nat (length (bytes m)))) (bytes m), h')"
    using codec_reads [OF codec(1) len(1) codec(2) a(1,2) h] by blast
  then show ?thesis
    using b(1) a(3) by (simp add: pbtools_message_decode_def)
qed

text \<open>A workspace of the computed size holds the message wherever it lies, and what is added to the size is left for its fields.\<close>

lemma message_new_workspace:
  assumes n: "PBUTIL_WORKSPACE_BASE 8 sz + extra \<le> n" "n \<le> INT_MAX" "uint buf + int n < 18446744073709551616"
  shows "\<exists>h. pbtools_message_new buf (of_nat n) (of_nat sz) init = Some (Some (init, h)) \<and> heap_ok h \<and> int extra \<le> hp_size h - hp_pos h"
proof -
  have u: "uint (of_nat n :: u64) = int n" "unat (of_nat n :: u64) = n"
    using n(2) by (simp_all add: uint_of_nat_64 unat_of_nat_64)
  obtain h0 where h0: "heap_new buf (of_nat n) = Some h0"
    using n(1) u(2) by (simp add: heap_new_def PBUTIL_WORKSPACE_BASE_def)
  then have ok: "heap_ok h0 \<and> hp_size h0 = int n \<and> hp_pos h0 = 16"
    using heap_new_ok [OF h0] n u by simp
  have base: "int sz + int extra + 23 \<le> int n"
    using n(1) by (simp add: PBUTIL_WORKSPACE_BASE_def)
  have "int sz * int 1 + 7 \<le> hp_size h0 - hp_pos h0"
    using base ok by simp
  then obtain addr h where "heap_alloc h0 (of_nat sz * of_int (int 1)) 8 = (Some addr, h)" "allocated h0 (int sz * int 1) 8 addr h"
      "heap_holds h addr (of_nat sz * of_int (int 1))"
    using heap_alloc_array [OF conjunct1 [OF ok]] by blast
  then have h: "heap_alloc h0 (of_nat sz) 8 = (Some addr, h)" "allocated h0 (int sz) 8 addr h" "heap_holds h addr (of_nat sz)"
    by simp_all
  then have "heap_ok h" "int extra \<le> hp_size h - hp_pos h"
    using ok base by (auto simp: allocated_def)
  then show ?thesis
    using h0 h by (simp add: pbtools_message_new_def)
qed

section \<open>Sub-messages\<close>

lemma sub_message_writes:
  assumes "writes (\<lambda>e. enc e m) bs"
  shows "writes (\<lambda>e. pbtools_encoder_sub_message_encode e fn (Some m) enc) (length_field fn bs)"
    "writes (\<lambda>e. pbtools_encoder_sub_message_encode_always e fn m enc) (length_field fn bs)"
    "writes (\<lambda>e. pbtools_encoder_sub_message_encode e fn None enc) []"
  using writes_with_length [OF assms, of "\<lambda>e v. encoder_write_length_delimited e fn v", OF encoder_write_tagged_varint_writes(3)]
    writes_with_length [OF assms, of "\<lambda>e v. encoder_write_tagged_varint_always e fn PBTOOLS_WIRE_TYPE_LENGTH_DELIMITED v",
      OF encoder_write_tagged_varint_writes(1)] writes_nothing
  by (simp_all add: pbtools_encoder_sub_message_encode_def pbtools_encoder_sub_message_encode_always_def Let_def length_field_def)

text \<open>A message in a slice of a decoder, and the decoder behind it.\<close>

lemma decode_slice:
  assumes codec: "message_codec enc dec init bytes need" "0 \<le> need m" "length (bytes m) < INT_MAX"
    and d: "ahead d (length_prefixed (bytes m))" and h: "heap_ok h" "need m \<le> hp_size h - hp_pos h"
  obtains d1 d2 h' where "decoder_read_length_delimited d 2 = Some (of_nat (length (bytes m)), d1)"
    "dec (decoder_init_slice d1 (to_int (of_nat (length (bytes m))))) h init = Some (m, d2, h')"
    "decoder_seek d1 (decoder_get_result d2) = advance d (length_prefixed (bytes m))"
    "heap_ok h'" "hp_size h' = hp_size h" "hp_pos h' \<le> hp_pos h + need m"
proof -
  define d1 where "d1 = advance d (varint_bytes (of_nat (length (bytes m))))"
  have d1: "ahead d (varint_bytes (of_nat (length (bytes m))))" "ahead d1 (bytes m)"
    using d by (simp_all add: ahead_append d1_def length_prefixed_def)
  have to: "to_int (of_nat (length (bytes m))) = int (length (bytes m))"
    using codec(3) by simp
  obtain h' where "dec (decoder_init_slice d1 (int (length (bytes m)))) h init =
      Some (m, advance (decoder_init_slice d1 (int (length (bytes m)))) (bytes m), h')"
      "heap_ok h'" "hp_size h' = hp_size h" "hp_pos h' \<le> hp_pos h + need m"
    using codec_reads [OF codec(1,3,2) ahead_slice(1,2) [OF d1(2)] h] by blast
  moreover have "decoder_read_length_delimited d 2 = Some (of_nat (length (bytes m)), d1)"
    using read_length_delimited_reads [OF codec(3)] d1(1) by (simp add: reads_def d1_def)
  ultimately show thesis
    using that to ahead_slice(3,4) [OF d1(2)] by (simp add: d1_def length_prefixed_def)
qed

lemma sub_message_reads:
  assumes codec: "message_codec enc dec init bytes need" "0 \<le> need m" "length (bytes m) < INT_MAX"
    and d: "ahead d (length_prefixed (bytes m))" and h: "heap_ok h" "int sz + 7 + need m \<le> hp_size h - hp_pos h"
  shows "\<exists>h'. pbtools_decoder_sub_message_decode d h PBTOOLS_WIRE_TYPE_LENGTH_DELIMITED old (of_nat sz) init dec =
    Some (Some m, advance d (length_prefixed (bytes m)), h') \<and> heap_ok h'"
proof -
  obtain addr h1 where h1: "heap_alloc h (of_nat sz) 8 = (Some addr, h1)" "allocated h (int sz) 8 addr h1" "heap_holds h1 addr (of_nat sz)"
    using heap_alloc_array [OF h(1), of sz 1] h(2) codec(2) by (auto simp: algebra_simps)
  have "heap_ok h1" "need m \<le> hp_size h1 - hp_pos h1"
    using h1(2) h(2) by (simp_all add: allocated_def)
  then obtain d1 d2 h' where "decoder_read_length_delimited d 2 = Some (of_nat (length (bytes m)), d1)"
      "dec (decoder_init_slice d1 (to_int (of_nat (length (bytes m))))) h1 init = Some (m, d2, h')"
      "decoder_seek d1 (decoder_get_result d2) = advance d (length_prefixed (bytes m))" "heap_ok h'"
    using decode_slice [OF codec d] by blast
  then show ?thesis
    using h1 by (simp add: pbtools_decoder_sub_message_decode_def decoder_heap_alloc_def)
qed

section \<open>Repeated messages\<close>

lemma encode_items_write:
  assumes "\<And>m. m \<in> set ms \<Longrightarrow> writes (\<lambda>e. enc e m) (bytes m)" "n \<le> length ms"
  shows "writes (encode_repeated_items fn enc n ms) (concat (map (\<lambda>m. length_field fn (bytes m)) (take n ms)))"
  using assms(2)
proof (induction n)
  case 0
  then show ?case
    using writes_nothing by (simp add: writes_def)
next
  case (Suc n)
  define m where "m = ms ! n"
  have m: "writes (\<lambda>e. enc e m) (bytes m)" "item_at ms (int n) = Some m"
    using Suc.prems assms(1) by (simp_all add: m_def item_at_def)
  have "writes (\<lambda>e. (enc e m \<bind> (\<lambda>e'. encoder_write_length_delimited e' fn (of_int (en_pos e - en_pos e'))))
      \<bind> encode_repeated_items fn enc n ms) (concat (map (\<lambda>m. length_field fn (bytes m)) (take n ms)) @ length_field fn (bytes m))"
    using Suc m(1) sub_message_writes(1) [of enc m "bytes m" fn]
    by (intro writes_bind) (simp_all add: pbtools_encoder_sub_message_encode_def Let_def)
  then show ?case
    using Suc.prems m(2) by (simp add: take_Suc_conv_app_nth m_def)
qed

lemma encode_repeated_inner_writes:
  assumes "\<And>m. m \<in> set ms \<Longrightarrow> writes (\<lambda>e. enc e m) (bytes m)"
  shows "writes (\<lambda>e. pbtools_encode_repeated_inner e fn (repeated_of ms) enc) (concat (map (\<lambda>m. length_field fn (bytes m)) ms))"
  using encode_items_write [of ms enc bytes "length ms" fn] assms
  by (simp add: pbtools_encode_repeated_inner_def repeated_of_def)

lemma decode_item:
  assumes codec: "message_codec enc dec init bytes need" "0 \<le> need m" "length (bytes m) < INT_MAX"
    and d: "ahead (ri_decoder info) (length_prefixed (bytes m))" and h: "heap_ok h" "need m \<le> hp_size h - hp_pos h"
    and items: "k < length items" "items ! k = init"
  obtains h' where "decode_repeated_inner_item info h dec items (int k) =
      Some (info\<lparr>ri_decoder := advance (ri_decoder info) (length_prefixed (bytes m))\<rparr>, h', items[k := m], int (Suc k))"
    "heap_ok h'" "hp_size h' = hp_size h" "hp_pos h' \<le> hp_pos h + need m"
proof -
  obtain d1 d2 h' where "decoder_read_length_delimited (ri_decoder info) 2 = Some (of_nat (length (bytes m)), d1)"
    "dec (decoder_init_slice d1 (to_int (of_nat (length (bytes m))))) h init = Some (m, d2, h')"
    "decoder_seek d1 (decoder_get_result d2) = advance (ri_decoder info) (length_prefixed (bytes m))"
    "heap_ok h'" "hp_size h' = hp_size h" "hp_pos h' \<le> hp_pos h + need m"
    using decode_slice [OF codec d h] by blast
  then show thesis
    using that items by (simp add: decode_repeated_inner_item_def item_at_def add.commute)
qed

lemma decode_items:
  assumes codec: "message_codec enc dec init bytes need" "field_number_ok (ri_tag info)"
    and "\<And>m. m \<in> set ms \<Longrightarrow> 0 \<le> need m \<and> length (bytes m) < INT_MAX"
    "ahead (ri_decoder info) (concat (map (\<lambda>m. length_field (ri_tag info) (bytes m)) ms))"
    "heap_ok h" "sum_list (map need ms) \<le> hp_size h - hp_pos h"
    "ri_length info = int (length items)" "length items = k + length ms" "drop k items = replicate (length ms) init"
  shows "\<exists>info' h'. decode_repeated_inner_loop dec info h items (int k) = Some (info', h', take k items @ ms)
    \<and> 0 \<le> de_pos (ri_decoder info') \<and> heap_ok h'"
  using assms(2-9)
proof (induction ms arbitrary: info h items k)
  case Nil
  then show ?case
    by (subst decode_repeated_inner_loop.simps) (auto simp: are_more_items_to_decode_def ahead_def)
next
  case (Cons m ms)
  define fn where "fn = ri_tag info"
  define rest where "rest = concat (map (\<lambda>m. length_field fn (bytes m)) ms)"
  define d1 where "d1 = advance (ri_decoder info) (tag_bytes fn 2)"
  have d: "ahead (ri_decoder info) (tag_bytes fn 2)" "ahead d1 (length_prefixed (bytes m))"
      "ahead (advance d1 (length_prefixed (bytes m))) rest"
    using Cons.prems(3) by (simp_all add: ahead_append length_field_prefixed rest_def fn_def d1_def)
  have need: "0 \<le> sum_list (map need ms)"
    using Cons.prems(2) by (intro sum_list_nonneg) auto
  have "0 < length (tag_bytes fn 2)"
    by (simp add: tag_bytes_def)
  then have "pbtools_decoder_available (ri_decoder info)"
    using d(1) unfolding ahead_def pbtools_decoder_available_def by linarith
  then have more: "are_more_items_to_decode info (int k)"
    using Cons.prems(6,7) by (simp add: are_more_items_to_decode_def)
  have tag: "pbtools_decoder_read_tag (ri_decoder info) = Some ((fn, 2), d1)"
    using read_tag_reads [of fn 2] Cons.prems(1) d(1) by (simp add: reads_def fn_def d1_def)
  have k: "k < length items" "items ! k = init"
    using Cons.prems(7,8) nth_drop [of k items 0] by simp_all
  obtain h1 where h1: "decode_repeated_inner_item (info\<lparr>ri_decoder := d1\<rparr>) h dec items (int k) =
      Some (info\<lparr>ri_decoder := advance d1 (length_prefixed (bytes m))\<rparr>, h1, items[k := m], int (Suc k))"
      "heap_ok h1" "hp_size h1 = hp_size h" "hp_pos h1 \<le> hp_pos h + need m"
    using decode_item [OF codec(1), of m "info\<lparr>ri_decoder := d1\<rparr>" h k items] Cons.prems need d(2) k by auto
  have "drop (Suc k) items = replicate (length ms) init"
    using Cons.prems(7,8) by (metis Cons_nth_drop_Suc k(1) length_Cons list.inject replicate_Suc)
  then obtain info' h' where "decode_repeated_inner_loop dec (info\<lparr>ri_decoder := advance d1 (length_prefixed (bytes m))\<rparr>) h1 (items[k := m]) (int (Suc k)) =
      Some (info', h', take (Suc k) (items[k := m]) @ ms)" "0 \<le> de_pos (ri_decoder info')" "heap_ok h'"
    using Cons.IH [of "info\<lparr>ri_decoder := advance d1 (length_prefixed (bytes m))\<rparr>" h1 "items[k := m]" "Suc k"] Cons.prems d(3) h1
    by (auto simp: rest_def fn_def)
  then show ?case
    using more tag h1(1) k by (subst decode_repeated_inner_loop.simps) (simp add: fn_def take_Suc_conv_app_nth)
qed

lemma repeated_messages_read:
  assumes codec: "message_codec enc dec init bytes need" "field_number_ok (ri_tag info)"
    and ms: "\<And>m. m \<in> set (m0 # ms) \<Longrightarrow> 0 \<le> need m \<and> length (bytes m) < INT_MAX"
    and d: "ahead (ri_decoder info) (length_prefixed (bytes m0) @ concat (map (\<lambda>m. length_field (ri_tag info) (bytes m)) ms))"
    and h: "heap_ok h" "int sz * int (Suc (length ms)) + 7 + sum_list (map need (m0 # ms)) \<le> hp_size h - hp_pos h"
    and len: "ri_length info = int (Suc (length ms))"
  shows "\<exists>h'. pbtools_decode_repeated_inner dec0 h info rep (of_nat sz) init dec =
    Some (rep\<lparr>rep_items := m0 # ms, rep_length := int (Suc (length ms))\<rparr>, dec0, h') \<and> heap_ok h'"
proof -
  define n where "n = Suc (length ms)"
  define items where "items = replicate n init"
  have "n \<noteq> 0"
    by (simp add: n_def)
  have need: "0 \<le> sum_list (map need ms)" "0 \<le> need m0"
    using ms by (auto intro!: sum_list_nonneg)
  obtain addr h1 where h1: "heap_alloc h (of_nat sz * of_int (int n)) 8 = (Some addr, h1)" "allocated h (int sz * int n) 8 addr h1"
      "heap_holds h1 addr (of_nat sz * of_int (int n))"
    using heap_alloc_array [OF h(1), of sz n] h(2) need by (auto simp: n_def)
  have ok1: "heap_ok h1" "need m0 + sum_list (map need ms) \<le> hp_size h1 - hp_pos h1"
    using h1(2) h(2) by (simp_all add: allocated_def n_def)
  define info1 where "info1 = info\<lparr>ri_decoder := advance (ri_decoder info) (length_prefixed (bytes m0))\<rparr>"
  obtain h2 where h2: "decode_repeated_inner_item info h1 dec items 0 = Some (info1, h2, items[0 := m0], 1)"
      "heap_ok h2" "hp_size h2 = hp_size h1" "hp_pos h2 \<le> hp_pos h1 + need m0"
    using decode_item [OF codec(1), of m0 info h1 0 items] ms d ok1 need by (auto simp: ahead_append items_def n_def info1_def)
  obtain info' h' where "decode_repeated_inner_loop dec info1 h2 (items[0 := m0]) 1 = Some (info', h', m0 # ms)"
      "0 \<le> de_pos (ri_decoder info')" "heap_ok h'"
    using decode_items [OF codec(1), of info1 ms h2 "items[0 := m0]" 1] codec(2) ms d ok1 h2 len
    by (auto simp: info1_def ahead_append items_def n_def)
  then show ?thesis
    using h1 h2(1) len \<open>n \<noteq> 0\<close>
    by (simp add: pbtools_decode_repeated_inner_def pbtools_alloc_repeated_def Let_def n_def [symmetric] items_def [symmetric]
        decoder_get_result_def)
qed

text \<open>Without room for the array the field is left empty, and unlike for other repeated fields the decoder goes on.\<close>

lemma repeated_messages_dropped:
  assumes "heap_ok h" "0 < ri_length info" "int sz * ri_length info + 7 \<le> int INT_MAX" "hp_size h - hp_pos h < int sz * ri_length info"
  shows "pbtools_decode_repeated_inner d h info rep (of_nat sz) init dec = Some (rep\<lparr>rep_items := []\<rparr>, d, h)"
proof -
  have "uint (of_int (int sz * ri_length info) :: u64) = int sz * ri_length info"
    unfolding uint_word_of_int_eq using assms by (intro take_bit_int_eq_self) auto
  then have "uint (of_nat sz * of_int (ri_length info) :: u64) = int sz * ri_length info"
    by simp
  then have "heap_alloc h (of_nat sz * of_int (ri_length info)) 8 = (None, h)"
    using assms to_int_small [of "of_nat sz * of_int (ri_length info)"] by (simp add: heap_alloc_def Let_def)
  then show ?thesis
    using assms(2) by (simp add: pbtools_decode_repeated_inner_def pbtools_alloc_repeated_def)
qed

section \<open>A message with one field\<close>

text \<open>An instance of what is generated: a message whose only field is an unsigned integer with the number one.\<close>

definition one_field_encode_inner :: "u64 message_encode_inner" where
  "one_field_encode_inner encoder v = pbtools_encoder_write_uint64 encoder 1 v"

definition one_field_decode_inner :: "u64 message_decode_inner" where
  "one_field_decode_inner decoder heap v =
     (if pbtools_decoder_available decoder then do {
        ((tag, wire_type), decoder) \<leftarrow> pbtools_decoder_read_tag decoder;
        (v, decoder) \<leftarrow> pbtools_decoder_read_uint64 decoder wire_type;
        Some (v, decoder, heap)
      } else Some (v, decoder, heap))"

definition one_field_bytes :: "u64 \<Rightarrow> u8 list" where
  "one_field_bytes v = (if v = 0 then [] else varint_field 1 v)"

lemma one_field_codec: "message_codec one_field_encode_inner one_field_decode_inner 0 one_field_bytes (\<lambda>_. 0)"
proof -
  have dec: "one_field_decode_inner d h 0 = Some (v, advance d (one_field_bytes v), h)"
    if d: "ahead d (one_field_bytes v)" "decoder_left d = int (length (one_field_bytes v))" for d h v
  proof (cases "v = 0")
    case True
    then show ?thesis
      using d by (simp add: one_field_decode_inner_def one_field_bytes_def available_iff_left)
  next
    case False
    then have a: "ahead d (tag_bytes 1 0)" "ahead (advance d (tag_bytes 1 0)) (varint_bytes v)"
      using d(1) by (simp_all add: one_field_bytes_def varint_field_def ahead_append)
    have "0 < length (tag_bytes 1 0)"
      by (simp add: tag_bytes_def)
    then have "pbtools_decoder_available d"
      using a(1) unfolding ahead_def pbtools_decoder_available_def by linarith
    then show ?thesis
      using a read_tag_reads [of 1 0] read_varint_fields_reads(6) [of v] False
      by (simp add: one_field_decode_inner_def reads_def field_number_ok_def one_field_bytes_def varint_field_def)
  qed
  have "writes (\<lambda>e. one_field_encode_inner e v) (one_field_bytes v)" for v
    using write_varint_fields_write(6) [of 1 v] by (simp only: one_field_encode_inner_def one_field_bytes_def)
  then show ?thesis
    by (auto simp: message_codec_def dec)
qed

end
