(* ===== verification/Spec2Isabelle.thy ===== *)
theory Spec2Isabelle
  imports Util OSort OCompact Queue HalfSipHash Bytes RobinHood FixedSet RateLimit AciPniUak
    NoiseUtil TreePath Stash PathOram Oram OramCreate OramDemo
    ProbeTable OHTable OHTableSlots OHTableMap OHTableDemo
    Shard ShardProtocol ShardWorker ShardBatch ShardDemo
    PbEncode PbDecode PbWire PbRepeated PbPacked PbTwoPass PbMessage
begin

text \<open>
  \<^bold>\<open>Contact discovery service: a verified model of the enclave and its oblivious data structures.\<close>

  The program under \<^verbatim>\<open>src/c\<close> is an SGX enclave that answers contact lookups without revealing by
  its memory accesses what was looked up. Its parts, bottom up, and the theories that model them:

  \<^item> Arithmetic helpers and error codes (\<^verbatim>\<open>util/util.h\<close>, \<^verbatim>\<open>util/uint128div.c\<close>, \<^verbatim>\<open>util/util.jinc\<close>,
    \<^verbatim>\<open>util/error.h\<close>): theories \<^verbatim>\<open>Prelude\<close> and \<^verbatim>\<open>Util\<close>. Machine integers are words of their width.
  \<^item> The oblivious sort (\<^verbatim>\<open>util/osort.jinc\<close>): theory \<^verbatim>\<open>OSort\<close>, for every comparison that a key
    describes (locale \<open>sort_order\<close>) and every length, by the 0-1 principle.
  \<^item> The oblivious compaction (\<^verbatim>\<open>util/ocompact.jinc\<close>): theory \<^verbatim>\<open>OCompact\<close>, a routing network, for every predicate.
  \<^item> The queue between the entry points and the shards (\<^verbatim>\<open>sharded_ohtable/queue.c\<close>): theory
    \<^verbatim>\<open>Queue\<close>, with a step relation for threads and condition variables.
  \<^item> The keyed hash (\<^verbatim>\<open>halfsiphash/halfsiphash.jinc\<close>): theory \<^verbatim>\<open>HalfSipHash\<close>; bytes in memory: \<^verbatim>\<open>Bytes\<close>.
  \<^item> The set of client keys (\<^verbatim>\<open>fixedset/fixedset.c\<close>), a Robin Hood hash table that grows: theories
    \<^verbatim>\<open>RobinHood\<close> (the probe order) and \<^verbatim>\<open>FixedSet\<close> (locale \<open>key_set\<close>).
  \<^item> The rate limiter (\<^verbatim>\<open>ratelimit/ratelimit.c\<close>): theory \<^verbatim>\<open>RateLimit\<close>.
  \<^item> The Path ORAM (\<^verbatim>\<open>path_oram/\<close>, C and Jasmin): theories \<^verbatim>\<open>TreePath\<close> (the numbering of the nodes),
    \<^verbatim>\<open>Stash\<close> (blocks, buckets, and the stash with its greedy eviction), \<^verbatim>\<open>PathOram\<close> (an access to one path,
    for any accessor), \<^verbatim>\<open>Oram\<close> (position maps, scanned or in a smaller ORAM, behind the interface of
    locale \<open>position_map_interface\<close>, and the operations of an ORAM) and \<^verbatim>\<open>OramCreate\<close>; \<^verbatim>\<open>OramDemo\<close> has the
    smallest ORAM as a concrete instance. Data blocks are lists of 168 words; the sizes of the
    builds (\<^verbatim>\<open>jasmin.*/params.jinc\<close>) are a record, and the theorems hold for every such record.
  \<^item> The hash table in an ORAM (\<^verbatim>\<open>ohtable/\<close>): theories \<^verbatim>\<open>ProbeTable\<close> (Robin Hood tables with the order that
    the code compares by), \<^verbatim>\<open>OHTable\<close> (the operations and the accessors of a block), \<^verbatim>\<open>OHTableSlots\<close> (an insertion,
    slot by slot) and \<^verbatim>\<open>OHTableMap\<close> (the table as a map from keys to records); \<^verbatim>\<open>OHTableDemo\<close> has a small table.
  \<^item> Shards (\<^verbatim>\<open>sharded_ohtable/shard.c\<close>, \<^verbatim>\<open>shard.jinc\<close>), each a hash table with a queue of requests and a worker: theories
    \<^verbatim>\<open>Shard\<close> (the operations, and the calls of several threads as a step relation), \<^verbatim>\<open>ShardProtocol\<close> (an abstract
    protocol of workers, stops and waits with its invariant), \<^verbatim>\<open>ShardWorker\<close> (the step relation follows the protocol;
    creation and destruction) and \<^verbatim>\<open>ShardBatch\<close> (the batches of a request, for any table with the contract
    \<open>record_store\<close>); \<^verbatim>\<open>ShardDemo\<close> has a shard with the small table.
  \<^item> Protocol buffers (\<^verbatim>\<open>proto/pbtools.c\<close>, \<^verbatim>\<open>proto/pbutil.h\<close>): theories \<^verbatim>\<open>PbEncode\<close> (the encoder, which fills a buffer
    from its end), \<^verbatim>\<open>PbDecode\<close> (the heap of a message and the decoder on arbitrary bytes), \<^verbatim>\<open>PbWire\<close> (what is written is
    read back), \<^verbatim>\<open>PbRepeated\<close> (repeated fields), \<^verbatim>\<open>PbPacked\<close> (packed ones are read back), \<^verbatim>\<open>PbTwoPass\<close> (counting and
    filling over arbitrary bytes, and where they disagree) and \<^verbatim>\<open>PbMessage\<close> (messages and sub-messages). The
    code that is generated for a message type is a parameter with the contract \<open>message_codec\<close>.
  \<^item> Messages to clients (\<^verbatim>\<open>noiseutil/noise.c\<close>): theory \<^verbatim>\<open>NoiseUtil\<close>, in a memory of bytes.
  \<^item> The response (\<^verbatim>\<open>aci_pni_uak_helpers/aci_pni_uak_helpers.c\<close>): theory \<^verbatim>\<open>AciPniUak\<close>.

  Functions keep their names; those of the Jasmin code that share a name with one in C have the prefix
  \<open>j_\<close>. Code outside of the repository (the noise library and its SHA-256, the allocator, the
  random numbers) is a parameter. A loop without a bound in the source is a partial function into
  option, and that it ends is part of its theorem; mutual recursion of insertion and resizing is
  bounded by a depth of 2, which is enough since a resized table is not resized again. Random choices
  are streams of words; the theorems on ORAMs hold for all of them, so that correctness does not rest on
  the distribution, and an exhausted stash is an error value of the model as of the code.

  Not modelled: the protection of the Jasmin code against speculation (\<open>msf\<close>, \<open>#protect\<close>, \<open>#spill\<close>) and the
  constant-time discipline, which do not change results; the layout of structs in memory; the rounding of
  the moving averages in the statistics; the release of memory; tests. The distribution of a batch over the
  shards (\<^verbatim>\<open>sharded_ohtable.c\<close> and its Jasmin code), the enclave's entry points and the bridge to Java are not modelled.
\<close>

section \<open>Properties\<close>

subsection \<open>Arithmetic\<close>

text \<open>
  C1. Dividing a 128-bit number by a 64-bit one, when the quotient fits in 64 bits, ends and gives
  the exact quotient; the digit-correcting loops terminate.
\<close>

theorem divmod128by64_correct:
  assumes "u1 < v"
  shows "\<exists>q. divmod128by64 u1 u0 v = Some q \<and> unat q = (unat u1 * 2 ^ 64 + unat u0) div unat v"
  using divmod128by64_quotient [OF assms] by simp

theorem divmod128by64_correct_witness:
  "\<exists>q. divmod128by64 1 5 7 = Some q \<and> unat q = (2 ^ 64 + 5) div 7"
  using divmod128by64_correct [of 1 7 5] by simp

text \<open>
  C25. For every divisor from 2 to 2^63, the prepared multiplier and shifts make the constant-time
  division and remainder, of the C and of the Jasmin code, agree with division on all 64-bit numbers.
\<close>

theorem ct_div_correct:
  assumes "2 \<le> unat d" "unat d \<le> 2 ^ 63"
  shows "\<exists>m s1 s2. prep_ct_div d = Some (m, s1, s2) \<and>
    (\<forall>n. ct_div n d m s1 s2 = n div d \<and> ct_mod n d m s1 s2 = n mod d \<and>
         j_ct_div n m s1 s2 = n div d \<and> j_ct_mod n d m s1 s2 = n mod d)"
proof -
  have d: "2 \<le> unat d" "unat d \<le> 9223372036854775808" using assms by simp_all
  then obtain m s where "prep_ct_div d = Some (m, 1, s)" using prep_ct_div_result by blast
  then show ?thesis using ct_div_result(1) [OF d] ct_mod_result [OF d] j_ct_mod_result [OF d] by simp
qed

theorem ct_div_correct_witness:
  "\<exists>m s1 s2. prep_ct_div 10 = Some (m, s1, s2) \<and> ct_mod 1234 10 m s1 s2 = 4 \<and> j_ct_div 1234 m s1 s2 = 123"
proof -
  obtain m s1 s2 where "prep_ct_div 10 = Some (m, s1, s2)"
    "\<forall>n. ct_div n 10 m s1 s2 = n div 10 \<and> ct_mod n 10 m s1 s2 = n mod 10 \<and> j_ct_div n m s1 s2 = n div 10 \<and> j_ct_mod n 10 m s1 s2 = n mod 10"
    using ct_div_correct [of 10] by auto
  then show ?thesis by (intro exI [of _ m] exI [of _ s1] exI [of _ s2]) simp
qed

text \<open>
  C26. The logarithms, in C and in Jasmin, are those of the number: \<open>floor_log2\<close> is the largest
  exponent whose power does not exceed it and \<open>ceil_log2\<close> the least whose power reaches it.
\<close>

theorem log2_correct:
  assumes "n \<noteq> 0"
  shows "2 ^ unat (floor_log2 n) \<le> unat n \<and> unat n < 2 * 2 ^ unat (floor_log2 n) \<and>
    unat n \<le> 2 ^ unat (ceil_log2 n) \<and> 2 ^ unat (ceil_log2 n) < 2 * unat n \<and>
    j_floor_log2 n = floor_log2 n \<and> j_ceil_log2 n = ceil_log2 n"
  using floor_log2_bounds [OF assms] ceil_log2_bounds [OF assms] j_floor_log2_eq [OF assms] j_ceil_log2_eq [OF assms]
  by blast

theorem log2_correct_witness: "2 ^ unat (floor_log2 5) \<le> (5 :: nat) \<and> 5 \<le> (2 :: nat) ^ unat (ceil_log2 5)"
  using log2_correct [of 5] by simp

subsection \<open>Sorting\<close>

text \<open>
  C6. The oblivious sort of a range of an array of numbers sorts the range, permutes it, and leaves
  the rest of the array alone, for ranges of every length.
\<close>

theorem odd_even_msort_correct:
  assumes "lb \<le> ub" "ub \<le> length xs"
  shows "let ys = odd_even_msort_uint64s xs lb ub in
    sorted (take (ub - lb) (drop lb ys)) \<and> mset (take (ub - lb) (drop lb ys)) = mset (take (ub - lb) (drop lb xs)) \<and>
    take lb ys = take lb xs \<and> drop ub ys = drop ub xs"
  using u64_sort.osort_sorted [OF assms(2), of lb] u64_sort.osort_mset [OF assms] osort_permutes [OF assms(2), of lb cmp_u64]
  by (simp add: odd_even_msort_uint64s_def permutes_range_def)

theorem odd_even_msort_correct_witness:
  "sorted (take 4 (drop 1 (odd_even_msort_uint64s [9, 7, 3, 8, 1, 0] 1 5))) \<and>
   drop 5 (odd_even_msort_uint64s [9, 7, 3, 8, 1, 0] 1 5) = [0]"
  using odd_even_msort_correct [of 1 5 "[9, 7, 3, 8, 1, 0]"] by (simp add: Let_def)

subsection \<open>Compaction\<close>

text \<open>
  C10. The oblivious compaction moves the entries that satisfy the predicate to the front, in their order, and permutes the
  array.
\<close>

theorem ocompact_correct:
  assumes "length data < 2 ^ 64"
  shows "take (length (filter pred data)) (ocompact pred data) = filter pred data \<and> mset (ocompact pred data) = mset data"
  using ocompact_result [of data pred] assms by simp

theorem ocompact_correct_witness:
  "take 2 (ocompact (\<lambda>x. 4 < x) [3, 7, 2, 5 :: nat]) = [7, 5] \<and> mset (ocompact (\<lambda>x. 4 < x) [3, 7, 2, 5 :: nat]) = mset [3, 7, 2, 5]"
  using ocompact_correct [of "[3, 7, 2, 5 :: nat]" "\<lambda>x. 4 < x"] by (simp flip: numeral_2_eq_2)

subsection \<open>The queue\<close>

text \<open>
  C5. Under every interleaving of any number of producers, consumers and closers, with spurious
  wake-ups, the queue never aborts and never holds more than 20 items, and what has been
  taken is, in order, the beginning of what has been added, the rest being in the queue.
\<close>

theorem queue_fifo:
  assumes "queue_reachable s"
  shows "\<not> sys_aborted s \<and> sys_added s = sys_taken s @ queue_list (sys_queue s) \<and> length (queue_list (sys_queue s)) \<le> 20"
  using queue_reachable_inv [OF assms] by (simp add: queue_system_inv_def queue_inv_def)

theorem queue_fifo_witness: "queue_reachable queue_start \<and> \<not> sys_aborted queue_start"
  using queue_fifo [OF queue_reachable.start] queue_reachable.start by blast

text \<open>
  C7. No wake-up is lost: in every reachable state, a thread asleep in \<open>queue_add_item\<close> sleeps
  because the queue is full or because another producer has been woken and will signal on; one
  asleep in \<open>queue_next_item\<close> because the queue is empty or another consumer has been woken;
  and no producer sleeps on a closed queue.
\<close>

theorem queue_no_lost_wakeup:
  assumes "queue_reachable s"
  shows "no_lost_wakeup s"
  using queue_reachable_inv [OF assms] by (simp add: queue_system_inv_def)

theorem queue_no_lost_wakeup_witness: "queue_reachable queue_start \<and> no_lost_wakeup queue_start"
  using queue_no_lost_wakeup [OF queue_reachable.start] queue_reachable.start by blast

subsection \<open>Hashing and the key set\<close>

text \<open>
  C27. The hash specialised to an 8-byte input is the general HalfSipHash with an 8-byte result.
\<close>

theorem halfsiphash_u64_general:
  assumes "length input = 8"
  shows "halfsiphash_u64 input k = u64_of_bytes (halfsiphash input k 8)"
  by (rule halfsiphash_u64_eq [OF assms])

theorem halfsiphash_u64_general_witness:
  "halfsiphash_u64 [0, 1, 2, 3, 4, 5, 6, 7] [0, 0, 0, 0, 0, 0, 0, 9] =
     u64_of_bytes (halfsiphash [0, 1, 2, 3, 4, 5, 6, 7] [0, 0, 0, 0, 0, 0, 0, 9] 8)"
  using halfsiphash_u64_general [of "[0, 1, 2, 3, 4, 5, 6, 7]"] by simp

text \<open>
  C4. Inserting into the Robin Hood set ends. When the memory for a larger table is there, it
  succeeds, says whether the key was present, and the set then holds the key and what it held;
  otherwise it fails and leaves the set as it was. Resizing and displacing entries keep the
  table's invariant.
\<close>

theorem fixedset_upsert_correct:
  assumes "fixedset_inv h" "unat (fs_cap h) < 2 ^ 31" "alloc_ok alloc h" "key_fits h k"
  shows "(\<exists>h'. upsert_depth 2 rnd alloc h k = Some (err_SUCCESS, h', Some (k \<in> fixedset_keys h)) \<and>
            fixedset_inv h' \<and> fixedset_keys h' = insert k (fixedset_keys h)) \<or>
         upsert_depth 2 rnd alloc h k = Some (err_OOM, h, None) \<and> alloc 1 = None"
  using fixedset_upsert_result [OF assms(1) _ assms(3,4), of rnd] assms(2) by auto

text \<open>
  C12. A lookup in the set tells whether the key is in it, and removing a key ends, says whether the
  key was there, keeps the invariant and removes nothing else.
\<close>

theorem fixedset_remove_correct:
  assumes "fixedset_inv h" "length k = unat (fs_ksize h)"
  shows "\<exists>h'. fixedset_remove h k = Some (fixedset_get h k, h') \<and> fixedset_inv h' \<and>
    (fixedset_get h k \<longleftrightarrow> k \<in> fixedset_keys h) \<and> fixedset_keys h' = fixedset_keys h - {k}"
  using fixedset_remove_result [OF assms] fixedset_get_result [OF assms] by auto

text \<open>A set with keys of 8 bytes, as created, for the witnesses.\<close>

definition demo_set :: fixedset where
  "demo_set = the (snd (fixedset_new (Some 1) (Some 4096) (Some 2) 8 [0, 1, 2, 3, 4, 5, 6, 7]))"

definition demo_key :: "u8 list" where
  "demo_key = [1, 0, 0, 0, 0, 0, 0, 0]"

lemma demo_set_facts:
  "fixedset_inv demo_set" "fixedset_keys demo_set = {}" "fs_ksize demo_set = 8" "fs_cap demo_set = 32"
  "alloc_ok (\<lambda>_. None) demo_set"
  using fixedset_new_result [of 4096 8 1 2 "[0, 1, 2, 3, 4, 5, 6, 7]"]
  by (simp_all add: demo_set_def addr_fits_def alloc_ok_def, auto simp: fixedset_new_def)

lemma demo_key_fits: "key_fits demo_set demo_key"
proof -
  have "khash demo_set demo_key = u64_of_bytes (halfsiphash demo_key [0, 1, 2, 3, 4, 5, 6, 7] 8)"
    by (simp add: khash_def demo_set_def fixedset_new_def demo_key_def)
  also have "unat \<dots> + 2 ^ 33 < 2 ^ 64" unfolding demo_key_def by (simp add: sip_eval cong: let_weak_cong if_weak_cong)
  finally show ?thesis unfolding key_fits_def by (simp add: demo_set_facts demo_key_def)
qed

theorem fixedset_upsert_correct_witness:
  "\<exists>h'. upsert_depth 2 (\<lambda>_. 0) (\<lambda>_. None) demo_set demo_key = Some (err_SUCCESS, h', Some False) \<and> fixedset_keys h' = {demo_key} \<or>
     upsert_depth 2 (\<lambda>_. 0) (\<lambda>_. None) demo_set demo_key = Some (err_OOM, demo_set, None)"
  using fixedset_upsert_correct [OF demo_set_facts(1) _ demo_set_facts(5) demo_key_fits, of "\<lambda>_. 0"] demo_set_facts(2,4)
  by auto

theorem fixedset_remove_correct_witness:
  "\<exists>h'. fixedset_remove demo_set demo_key = Some (False, h') \<and> fixedset_keys h' = {}"
  using fixedset_remove_correct [OF demo_set_facts(1), of demo_key] demo_set_facts(2,3) by (auto simp: demo_key_def)

subsection \<open>Rate limiting\<close>

text \<open>
  C16. Merging two lists of numbers sorts their concatenation, whatever order they come in; it fails
  when a list is not a whole number of 8-byte numbers, or without memory.
\<close>

theorem ratelimit_merge_correct:
  "ratelimit_merge_e164s mem a b =
     (if length a mod 8 = 0 \<and> length b mod 8 = 0
      then if mem then (err_SUCCESS, bytes_of_u64s (sort (u64s_of_bytes a @ u64s_of_bytes b))) else (err_OOM, [])
      else (err_ENCLAVE__RATELIMIT__INVALID_E164S, []))"
  using merge_result [of a b] by (auto simp: ratelimit_merge_e164s_def)

text \<open>
  C15. A well-formed request is accepted exactly when the last 32 bytes of its token are the HMAC,
  under the shared secret, of the token's version and entropy and the sorted numbers.
\<close>

theorem ratelimit_validate_correct:
  assumes "ratelimit_inv g" "\<And>x. length (sha256 x) = 32"
    "length (req_token req) = 65" "req_token req ! 0 = 1"
    "length (req_prev_e164s req) mod 8 = 0" "length (req_discard_e164s req) mod 8 = 0"
  shows "ratelimit_validate_received_rate_limit_token sha256 g True req = err_SUCCESS \<longleftrightarrow>
    drop 33 (req_token req) = hmac sha256 (secret g) (take 33 (req_token req) @
      bytes_of_u64s (sort (u64s_of_bytes (req_prev_e164s req) @ u64s_of_bytes (req_discard_e164s req))))"
  using assms by (rule validate_iff)

theorem ratelimit_validate_correct_witness:
  "ratelimit_validate_received_rate_limit_token (\<lambda>_. replicate 32 7) ratelimit_initial True
     \<lparr>req_token = 1 # replicate 32 5 @ replicate 32 7, req_prev_e164s = replicate 8 3, req_discard_e164s = []\<rparr> = err_SUCCESS"
  by (subst ratelimit_validate_correct) (simp_all add: ratelimit_inv_def ratelimit_initial_def hmac_def)

text \<open>
  C14. A token that the enclave computes for some numbers is accepted with any request that lists the
  same numbers, split over the two fields and ordered in any way.
\<close>

theorem ratelimit_token_roundtrip:
  assumes "ratelimit_inv g" "\<And>x. length (sha256 x) = 32" "length token = 65" "token ! 0 = 1"
    "length a mod 8 = 0" "length b mod 8 = 0" "length c mod 8 = 0" "length d mod 8 = 0"
    "mset (u64s_of_bytes a) + mset (u64s_of_bytes b) = mset (u64s_of_bytes c) + mset (u64s_of_bytes d)"
  shows "\<exists>t. ratelimit_compute_token sha256 g True a b token = (err_SUCCESS, t) \<and>
    ratelimit_validate_received_rate_limit_token sha256 g True
      \<lparr>req_token = t, req_prev_e164s = c, req_discard_e164s = d\<rparr> = err_SUCCESS"
proof -
  have "sort (u64s_of_bytes a @ u64s_of_bytes b) = sort (u64s_of_bytes c @ u64s_of_bytes d)"
    using assms(9) by (intro properties_for_sort) simp_all
  then show ?thesis
    using assms by (simp add: compute_token_hmac validate_iff nth_append hmac_def Let_def)
qed

theorem ratelimit_token_roundtrip_witness:
  "\<exists>t. ratelimit_compute_token (\<lambda>_. replicate 32 7) ratelimit_initial True
        [1, 0, 0, 0, 0, 0, 0, 0, 2, 0, 0, 0, 0, 0, 0, 0] [] (1 # replicate 64 0) = (err_SUCCESS, t) \<and>
    ratelimit_validate_received_rate_limit_token (\<lambda>_. replicate 32 7) ratelimit_initial True
      \<lparr>req_token = t, req_prev_e164s = [2, 0, 0, 0, 0, 0, 0, 0], req_discard_e164s = [1, 0, 0, 0, 0, 0, 0, 0]\<rparr> = err_SUCCESS"
  by (rule ratelimit_token_roundtrip) (simp_all add: ratelimit_inv_def ratelimit_initial_def)

subsection \<open>The response\<close>

text \<open>
  C13. Put the client's pairs into an empty set and make the response from the records found: when
  loading succeeds, each triple is that of its record: all zero when the record is not found, and
  otherwise with the ACI exactly when the client's pairs contain the record's ACI with its non-zero
  UAK. Loading ends, and only fails when an allocation fails.
\<close>

theorem response_triples_correct:
  assumes "fixedset_inv h" "fixedset_keys h = {}" "fs_ksize h = 32" "unat (fs_cap h) < 2 ^ 31" "length pairs < 2 ^ 30"
    "\<forall>p \<in> set pairs. key_fits h (pair_bytes p)" "\<forall>j. alloc_ok (alloc j) h"
  shows "\<exists>err h'. load_aci_uak_pairs rnd alloc h pairs = Some (err, h') \<and>
    (err = err_SUCCESS \<and> create_e164_pni_aci_triples h' rs = (err_SUCCESS, map (triple_spec (set pairs)) rs) \<or>
     err = err_OOM \<and> (\<exists>j < length pairs. alloc j 1 = None))"
proof -
  obtain err h' where l: "load_aci_uak_pairs_from 0 rnd alloc h pairs = Some (err, h')" "fixedset_inv h'" "same_config h h'"
      "err = err_SUCCESS \<and> fixedset_keys h' = fixedset_keys h \<union> pair_bytes ` set pairs \<or>
       err = err_OOM \<and> (\<exists>j. 0 \<le> j \<and> j < 0 + length pairs \<and> alloc j 1 = None)"
    using load_pairs_result [OF assms(1,3,6,7), of 0 rnd] assms(2,4,5) by auto
  have "fs_ksize h' = 32" using l(3) assms(3) by (simp add: same_config_def)
  then show ?thesis
    using l create_triples_result [OF l(2)] index_pairs_load [of h' h pairs] assms(2)
    unfolding load_aci_uak_pairs_def by auto
qed

definition demo_pairs_set :: fixedset where
  "demo_pairs_set = the (snd (fixedset_new (Some 1) (Some 4096) (Some 2) 32 [0, 1, 2, 3, 4, 5, 6, 7]))"

lemma demo_pairs_set_facts:
  "fixedset_inv demo_pairs_set" "fixedset_keys demo_pairs_set = {}" "fs_ksize demo_pairs_set = 32"
  "fs_cap demo_pairs_set = 32" "alloc_ok (\<lambda>_. None) demo_pairs_set"
  using fixedset_new_result [of 4096 32 1 2 "[0, 1, 2, 3, 4, 5, 6, 7]"]
  by (simp_all add: demo_pairs_set_def addr_fits_def alloc_ok_def, auto simp: fixedset_new_def)

lemma demo_pair_fits: "key_fits demo_pairs_set (pair_bytes \<lparr>pair_aci = (1, 0), pair_uak = (0, 2)\<rparr>)"
proof -
  have b: "pair_bytes \<lparr>pair_aci = (1, 0), pair_uak = (0, 2)\<rparr> =
      [1, 0, 0, 0, 0, 0, 0, 0, 0, 0, 0, 0, 0, 0, 0, 0, 0, 0, 0, 0, 0, 0, 0, 0, 2, 0, 0, 0, 0, 0, 0, 0]"
    by (simp add: pair_bytes_def bytes_of_u64s_def bytes_of_u64_def U32T08_LE_def)
  have "khash demo_pairs_set (pair_bytes \<lparr>pair_aci = (1, 0), pair_uak = (0, 2)\<rparr>) =
      u64_of_bytes (halfsiphash [1, 0, 0, 0, 0, 0, 0, 0, 0, 0, 0, 0, 0, 0, 0, 0, 0, 0, 0, 0, 0, 0, 0, 0, 2, 0, 0, 0, 0, 0, 0, 0]
        [0, 1, 2, 3, 4, 5, 6, 7] 8)"
    unfolding b by (simp add: khash_def demo_pairs_set_def fixedset_new_def)
  also have "unat \<dots> + 2 ^ 33 < 2 ^ 64" by (simp add: sip_eval cong: let_weak_cong if_weak_cong)
  finally show ?thesis unfolding key_fits_def by (simp add: demo_pairs_set_facts)
qed

theorem response_triples_correct_witness:
  "\<exists>err h'. load_aci_uak_pairs (\<lambda>_ _. 0) (\<lambda>_ _. None) demo_pairs_set [\<lparr>pair_aci = (1, 0), pair_uak = (0, 2)\<rparr>] = Some (err, h') \<and>
     (err = err_SUCCESS \<and> create_e164_pni_aci_triples h' [\<lparr>r_e164 = 9, r_aci = (1, 0), r_pni = (4, 5), r_uak = (0, 2)\<rparr>] =
        (err_SUCCESS, [\<lparr>t_e164 = 9, t_pni = (4, 5), t_aci = (1, 0)\<rparr>]) \<or> err = err_OOM)"
  using response_triples_correct [OF demo_pairs_set_facts(1-3), of "[\<lparr>pair_aci = (1, 0), pair_uak = (0, 2)\<rparr>]" "\<lambda>_ _. None" "\<lambda>_ _. 0"
      "[\<lparr>r_e164 = 9, r_aci = (1, 0), r_pni = (4, 5), r_uak = (0, 2)\<rparr>]"] demo_pair_fits demo_pairs_set_facts(4,5)
  by (auto simp: triple_spec_def record_found_def)

subsection \<open>Path ORAM\<close>

text \<open>
  C21. A path of a tree of up to 62 levels, in the code's numbering of the nodes, starts at its leaf;
  each node is the parent of the one before it; and a node of the tree is on the path exactly when the
  leaf is in the range of leaves that the code computes for the node.
\<close>

theorem tree_path_correct:
  assumes "0 < L" "L \<le> 62" "x < 2 ^ (L - 1)"
  shows "let path = j_tree_path_update L (of_nat (2 * x)) in
    length path = L \<and> path ! 0 = of_nat (2 * x) \<and>
    (\<forall>k < L. path ! k = node_val (coords_at x k) \<and> parent (coords_at x k) = coords_at x (Suc k)) \<and>
    (\<forall>v < 2 ^ L - 1. of_nat v \<in> set path \<longleftrightarrow> node_covers (of_nat v) (of_nat (2 * x)))"
proof -
  have x: "x < 2 ^ 62" using assms(2,3) by (rule pow2_le_62)
  have path: "j_tree_path_update L (of_nat (2 * x)) = map of_nat (path_nodes L x)"
    using j_tree_path_update_eq [OF x assms(1,2)] by (simp add: path_nodes_def)
  note P = path_nodes_ok [OF assms(3,2), of "replicate (2 ^ L - 1) ()", simplified]
  have inj: "of_nat v \<in> (of_nat ` set (path_nodes L x) :: u64 set) \<longleftrightarrow> v \<in> set (path_nodes L x)" if v: "v < 2 ^ L - 1" for v
  proof -
    have v64: "v < 2 ^ 64" using v pow2_lt_64 [OF assms(2)] by simp
    have "v = w" if "(of_nat v :: u64) = of_nat w" "w \<in> set (path_nodes L x)" for w
    proof -
      have "w < 2 ^ 64" using that(2) P(3) by simp
      then have "unat (of_nat v :: u64) = v" "unat (of_nat w :: u64) = w" using v64 by (simp_all add: unat_of_nat_64)
      then show ?thesis using that(1) by metis
    qed
    then show ?thesis by blast
  qed
  have 1: "map of_nat (path_nodes L x) ! k = node_val (coords_at x k) \<and> parent (coords_at x k) = coords_at x (Suc k)" if "k < L" for k
    using that assms(2) path_coords [OF x, of k] by (simp add: path_nodes_def)
  have 2: "of_nat v \<in> set (map of_nat (path_nodes L x) :: u64 list) \<longleftrightarrow> node_covers (of_nat v) (of_nat (2 * x))" if "v < 2 ^ L - 1" for v
    using inj [OF that] P(5) that by simp
  have 0: "map of_nat (path_nodes L x) ! 0 = (of_nat (2 * x) :: u64)" using assms(1) by (simp add: path_nodes_def path_node_def tree_node_def)
  show ?thesis unfolding path Let_def using 0 1 2 P(4) by simp
qed

theorem tree_path_correct_witness:
  "j_tree_path_update 3 2 ! 0 = 2 \<and> (3 \<in> set (j_tree_path_update 3 2) \<longleftrightarrow> node_covers 3 2) \<and> length (j_tree_path_update 3 2) = 3"
  using tree_path_correct [of 3 1] by (auto simp: Let_def dest: spec [of _ 3])

text \<open>
  C17. Building the path, for a stash whose path blocks lie under their buckets, permutes the blocks of
  the stash, fills every bucket, and every block it leaves on the path is in a bucket whose range of
  leaves contains the block's position.
\<close>

theorem build_path_correct:
  assumes "L < 63" "length (st_path_blocks st) = 3 * L"
    "\<forall>i < 3 * L. \<not> block_is_empty (st_path_blocks st ! i) \<longrightarrow> node_covers (path ! (i div 3)) (b_position (st_path_blocks st ! i))"
  shows "let st' = build_path st path L in
    mset (st_path_blocks st' @ st_overflow_blocks st') = mset (st_path_blocks st @ st_overflow_blocks st) \<and>
    length (st_path_blocks st') = 3 * L \<and> length (st_overflow_blocks st') = length (st_overflow_blocks st) \<and>
    (\<forall>i < 3 * L. \<not> block_is_empty (st_path_blocks st' ! i) \<longrightarrow> node_covers (path ! (i div 3)) (b_position (st_path_blocks st' ! i)))"
  using build_path_result [OF assms(1,2)] assms(3) by (simp add: Let_def st_blocks_def)

text \<open>A tree of two levels: a block for leaf 0 in the root, and one for leaf 2 in the overflow.\<close>

definition demo_block :: "u64 \<Rightarrow> u64 \<Rightarrow> block" where
  "demo_block i p = \<lparr>b_id = i, b_position = p, b_data = []\<rparr>"

definition demo_stash :: stash where
  "demo_stash = \<lparr>st_path_blocks = [ff_block, ff_block, ff_block, demo_block 1 0, ff_block, ff_block], st_overflow_blocks = [demo_block 2 2, ff_block],
     st_bucket_occupancy = [0, 0], st_bucket_assignments = replicate 8 0\<rparr>"

theorem build_path_correct_witness:
  "let st' = build_path demo_stash [0, 1] 2 in
     mset (st_path_blocks st' @ st_overflow_blocks st') = mset (st_path_blocks demo_stash @ st_overflow_blocks demo_stash) \<and>
     (\<forall>i < 6. \<not> block_is_empty (st_path_blocks st' ! i) \<longrightarrow> node_covers ([0, 1] ! (i div 3)) (b_position (st_path_blocks st' ! i)))"
proof -
  have c: "node_covers 1 0" using path_covers [of 0 2 0 1] by (simp add: path_node_def tree_node_def)
  have len: "length (st_path_blocks demo_stash) = 3 * 2" by (simp add: demo_stash_def)
  have "node_covers ([0, 1] ! (i div 3)) (b_position (st_path_blocks demo_stash ! i))"
    if i: "i < 3 * 2" "\<not> block_is_empty (st_path_blocks demo_stash ! i)" for i
  proof -
    have "i \<in> {0, 1, 2, 3, 4, 5}" using i(1) by auto
    then have "i = 3" using i(2) by (elim insertE emptyE) (simp_all add: demo_stash_def block_is_empty_def)
    then show ?thesis using c by (simp add: demo_stash_def demo_block_def)
  qed
  then have "\<forall>i < 3 * 2. \<not> block_is_empty (st_path_blocks demo_stash ! i) \<longrightarrow> node_covers ([0, 1] ! (i div 3)) (b_position (st_path_blocks demo_stash ! i))" by blast
  note t = build_path_correct [OF _ len this, unfolded Let_def]
  have "2 < (63 :: nat)" "3 * 2 = (6 :: nat)" by simp_all
  then show ?thesis using t unfolding Let_def by metis
qed

text \<open>
  C3. An access to a path of the tree, under the invariant: the accessor gets the data the ORAM stores
  for the block, the data it returns is stored and no other block's data changes, and the invariant holds
  for the new position. The access fails with \<open>err_ORAM__STASH_EXHAUSTION\<close> exactly when every slot of the
  overflow holds another block, and then leaves the tree and the overflow alone.
\<close>

theorem path_access_correct:
  assumes "oram_inv L N pos orm" "unat t < N" "unat (pos t) < 2 ^ (L - 1)" "unat new < 2 ^ (L - 1)"
    "length (fst (f (oram_content orm t))) = 168"
  shows "\<exists>orm'. same_frame orm orm' \<and> (if overflow_room t orm
    then path_access L t (pos t) new f orm = (err_SUCCESS, snd (f (oram_content orm t)), orm') \<and> oram_inv L N (pos(t := new)) orm' \<and>
      (\<forall>i. i \<noteq> UINT64_MAX \<longrightarrow> oram_content orm' i = (if i = t then fst (f (oram_content orm t)) else oram_content orm i))
    else path_access L t (pos t) new f orm = (err_ORAM__STASH_EXHAUSTION, snd (f (oram_content orm t)), orm') \<and>
      or_bucket_store orm' = or_bucket_store orm \<and> st_overflow_blocks (or_stash orm') = st_overflow_blocks (or_stash orm))"
  using assms by (rule path_access_result)

theorem path_access_correct_witness:
  "\<exists>orm'. path_access 1 0 0 0 (\<lambda>d. (replicate 168 7, d)) demo_state = (err_SUCCESS, replicate 168 0, orm') \<and>
     oram_inv 1 1 (\<lambda>_. 0) orm' \<and> oram_content orm' 0 = replicate 168 7"
proof -
  have r: "overflow_room 0 demo_state" by (simp add: overflow_room_def demo_state_def stash_create_def block_is_empty_def)
  have p: "(\<lambda>_ :: u64. 0 :: u64)(0 := 0) = (\<lambda>_. 0)" by (rule fun_upd_triv)
  note a = path_access_correct [OF demo_state_inv, of 0 0 "\<lambda>d. (replicate 168 7, d)"]
  show ?thesis using a r unfolding demo_state_content p by auto
qed

text \<open>
  C18. One access to a position map kept in an ORAM, to read or to set the position of a block, either
  exhausts the stash, or gives the position the map has for the block, sets it when asked to, keeps
  every other position and the invariant. The division that locates the entry is exact.
\<close>

theorem oram_position_map_correct:
  assumes "oram_map_inv pr n L m" "unat i < n" "unat p < 2 ^ (L - 1)"
  shows "\<exists>err x m' rnd'. oram_position_map_access pr is_read m i p rnd = Some (err, x, m', rnd') \<and>
    (if err = err_SUCCESS
     then x = oram_map_pos m i \<and> oram_map_inv pr n L m' \<and> (\<forall>j. unat j < n \<longrightarrow> oram_map_pos m' j = (if j = i \<and> \<not> is_read then p else oram_map_pos m j))
     else err = err_ORAM__STASH_EXHAUSTION) \<and> (oram_map_room pr m \<longrightarrow> err = err_SUCCESS \<and> oram_map_room pr m')"
  using assms by (rule oram_position_map_access_result)

theorem oram_position_map_correct_witness:
  "\<exists>m' rnd'. oram_position_map_access demo_params False demo_map 1 0 (sconst 9) = Some (err_SUCCESS, oram_map_pos demo_map 1, m', rnd') \<and>
    oram_map_inv demo_params 2 1 m'"
proof -
  obtain err x m' rnd' where "oram_position_map_access demo_params False demo_map 1 0 (sconst 9) = Some (err, x, m', rnd')"
      "if err = err_SUCCESS then x = oram_map_pos demo_map 1 \<and> oram_map_inv demo_params 2 1 m' \<and>
         (\<forall>j. unat j < 2 \<longrightarrow> oram_map_pos m' j = (if j = 1 \<and> \<not> False then 0 else oram_map_pos demo_map j)) else err = err_ORAM__STASH_EXHAUSTION"
      "oram_map_room demo_params demo_map \<longrightarrow> err = err_SUCCESS \<and> oram_map_room demo_params m'"
    using oram_position_map_correct [OF demo_map_inv, of 1 0 False "sconst 9"] by auto
  then show ?thesis using demo_map_room by auto
qed

text \<open>
  C2. Refinement of a plain memory: a program of reads and writes of blocks, run on an ORAM with its
  recursive position map and its random choices, gives the results it gives on an array, and leaves
  the ORAM with the contents of the array; unless a stash is exhausted, and then what has been read
  until then is right. Stashes with a slot for every id are never exhausted.
\<close>

theorem oram_refines_memory:
  assumes "oram_ok pr N orm" "\<forall>oo \<in> set ops. op_ok N oo" "\<And>i. unat i < N \<Longrightarrow> oram_content (o_state orm) i = mem i"
  shows "\<exists>err outs orm' rnd'. run_ops pr ops orm rnd = Some (err, outs, orm', rnd') \<and>
    (if err = err_SUCCESS
     then oram_ok pr N orm' \<and> outs = fst (memory_ops ops mem) \<and> (\<forall>i. unat i < N \<longrightarrow> oram_content (o_state orm') i = snd (memory_ops ops mem) i)
     else err = err_ORAM__STASH_EXHAUSTION \<and> outs = take (length outs) (fst (memory_ops ops mem)) \<and> length outs < length ops) \<and>
    (oram_room pr N orm \<longrightarrow> err = err_SUCCESS)"
  using assms by (rule run_ops_result)

theorem oram_refines_memory_witness:
  "\<exists>orm' rnd'. run_ops demo_params [Put 0 (replicate 168 7), Get 0, Get 1] demo_oram (sconst 3) =
     Some (err_SUCCESS, [None, Some (replicate 168 7), Some (replicate 168 UINT64_MAX)], orm', rnd') \<and> oram_ok demo_params 2 orm'"
proof -
  let ?ops = "[Put 0 (replicate 168 7), Get 0, Get 1]" and ?mem = "\<lambda>_ :: u64. replicate 168 UINT64_MAX :: u64 list"
  have mem: "oram_content (o_state demo_oram) i = ?mem i" if "unat i < 2" for i
    using that by (intro demo_content) (auto simp: unsigned_minus_1_eq_mask mask_eq_exp_minus_1)
  have ok: "\<forall>oo \<in> set ?ops. op_ok 2 oo" by simp
  obtain err outs orm' rnd' where "run_ops demo_params ?ops demo_oram (sconst 3) = Some (err, outs, orm', rnd')"
      "if err = err_SUCCESS
       then oram_ok demo_params 2 orm' \<and> outs = fst (memory_ops ?ops ?mem) \<and> (\<forall>i. unat i < 2 \<longrightarrow> oram_content (o_state orm') i = snd (memory_ops ?ops ?mem) i)
       else err = err_ORAM__STASH_EXHAUSTION \<and> outs = take (length outs) (fst (memory_ops ?ops ?mem)) \<and> length outs < length ?ops"
      "oram_room demo_params 2 demo_oram \<longrightarrow> err = err_SUCCESS"
    using oram_refines_memory [where mem = ?mem, OF demo_oram_ok ok mem, of "sconst 3"] by blast
  moreover have "fst (memory_ops ?ops ?mem) = [None, Some (replicate 168 7), Some (replicate 168 UINT64_MAX)]" by (simp add: Let_def)
  ultimately show ?thesis using demo_oram_room by auto
qed

text \<open>
  C19. For any sizes, creating the position map of an ORAM and the ORAM ends, for every entropy. When no
  write of the initial random positions failed, the ORAM satisfies its invariant and is empty; none fails
  when the map has no more blocks than the stash has slots.
\<close>

theorem oram_create_correct:
  assumes "scan_inv (POSITION_MAP_SIZE_0 pr) (PATH_LENGTH_0 pr) m0" "0 < PATH_LENGTH_0 pr" "0 < PATH_LENGTH pr" "PATH_LENGTH pr \<le> 32"
    "0 < n" "n \<le> 336 * POSITION_MAP_SIZE_0 pr" "n < 2 ^ 64" "unat np = 2 ^ (PATH_LENGTH pr - 1)"
  shows "\<exists>errs m ent' rnd'. oram_position_map_create pr n np (oram_create (PATH_LENGTH_0 pr) nb0 m0) ent rnd = Some (errs, m, ent', rnd') \<and>
    ((\<forall>e \<in> set errs. e = err_SUCCESS) \<longrightarrow> oram_ok pr n (oram_create (PATH_LENGTH pr) nb m) \<and>
       (\<forall>i. i \<noteq> UINT64_MAX \<longrightarrow> oram_content (o_state (oram_create (PATH_LENGTH pr) nb m)) i = replicate 168 UINT64_MAX)) \<and>
    (POSITION_MAP_SIZE_0 pr \<le> 100 \<longrightarrow> (\<forall>e \<in> set errs. e = err_SUCCESS))"
proof -
  obtain errs m ent' rnd' where c: "oram_position_map_create pr n np (oram_create (PATH_LENGTH_0 pr) nb0 m0) ent rnd = Some (errs, m, ent', rnd')"
    using oram_position_map_create_total [OF assms(1)] by blast
  have "oram_ok pr n (oram_create (PATH_LENGTH pr) nb m)" if "\<forall>e \<in> set errs. e = err_SUCCESS"
    using oram_position_map_create_result [OF assms(1,2,5,6,8,4) c that] by (intro oram_create_ok assms)
  moreover have "oram_content (o_state (oram_create (PATH_LENGTH pr) nb m)) i = replicate 168 UINT64_MAX" if "i \<noteq> UINT64_MAX" for i
    using oram_create_result(2) [of "PATH_LENGTH pr" n i nb m] assms(3,4,7) that by simp
  ultimately show ?thesis using c oram_position_map_create_room [OF assms(1,2,6) _ c] by blast
qed

theorem oram_create_correct_witness:
  "\<exists>errs m ent' rnd'. oram_position_map_create demo_params 2 1 (oram_create 1 1 (Scan_map 1 1 [0])) (sconst 5) (sconst 6) = Some (errs, m, ent', rnd') \<and>
     oram_ok demo_params 2 (oram_create 1 2 m)"
proof -
  have "scan_inv 1 1 (Scan_map 1 1 [0])" by (simp add: scan_inv_def)
  then show ?thesis using oram_create_correct [of demo_params "Scan_map 1 1 [0]" 2 1 1 "sconst 5" "sconst 6" 2]
    by (simp add: demo_params_def) blast
qed



text \<open>
  C23. Clearing an ORAM keeps its invariant and forgets every block.
\<close>

theorem oram_clear_correct:
  assumes "oram_ok pr N orm" "i \<noteq> UINT64_MAX"
  shows "oram_ok pr N (oram_clear orm) \<and> oram_content (o_state (oram_clear orm)) i = replicate 168 UINT64_MAX"
  using oram_clear_result [OF assms(1)] assms(2) by blast

theorem oram_clear_correct_witness: "oram_ok demo_params 2 (oram_clear demo_oram)"
  using oram_clear_correct [OF demo_oram_ok, of 0] by simp

subsection \<open>Messages\<close>

text \<open>
  C20. Encrypting a message of any length, packet by packet, succeeds exactly when the buffer has room for
  the message and a MAC for each packet; decrypting the result, in place or into a disjoint buffer, gives
  the message back and leaves the two ciphers paired. The cipher of the noise library is assumed to open
  what its peer sealed.
\<close>

theorem noise_roundtrip:
  assumes "paired lib R" "R tx rx"
  shows "if sealed_size lib (length pt) \<le> length ct
    then \<exists>tx' rx' ct'. noise_encrypt_message lib tx pt ct = Some (err_SUCCESS, tx', ct', sealed_size lib (length pt)) \<and> R tx' rx' \<and> length ct' = length ct \<and>
      (\<forall>mem src dst psize. buffers_ok mem src (sealed_size lib (length pt)) dst psize \<and>
         mem_read mem src (sealed_size lib (length pt)) = take (sealed_size lib (length pt)) ct' \<longrightarrow>
         (\<exists>mem'. noise_decrypt_message lib rx mem src (sealed_size lib (length pt)) dst psize = Some (err_SUCCESS, rx', mem', length pt) \<and>
            mem_read mem' dst (length pt) = pt))
    else \<exists>tx' ct'. noise_encrypt_message lib tx pt ct = Some (err_ENCLAVE__GENERAL__BUFFER_TOO_SMALL, tx', ct', length ct)"
proof -
  obtain c tx' rx' where s: "sealed lib tx rx pt c tx' rx'" "R tx' rx'" using sealed_exists [OF assms] by blast
  note len = length_sealed [OF s(1), symmetric]
  show ?thesis
  proof (cases "sealed_size lib (length pt) \<le> length ct")
    case True
    have "take (length c) (c @ drop (length c) ct) = c" "length (c @ drop (length c) ct) = length ct" using True len by simp_all
    then show ?thesis using True encrypt_result(1) [OF s(1) True] decrypt_result [OF s(1)] s(2) unfolding len by auto
  next
    case False
    then show ?thesis using encrypt_result(2) [OF s(1), of ct] by simp
  qed
qed

text \<open>A cipher that appends 16 zero bytes, with packets of 18 bytes.\<close>

definition demo_lib :: "(unit, unit) noise_lib" where
  "demo_lib = \<lparr>NOISE_ERROR_NONE = 0, NOISE_ERROR_BASE = 100, NOISE_MAX_PAYLOAD_LEN = 18,
     noise_cipherstate_encrypt = (\<lambda>c p m. (0, c, p @ replicate 16 0)), noise_cipherstate_decrypt = (\<lambda>c p m. (0, c, take (length p - 16) p)),
     noise_cipherstate_get_mac_length = (\<lambda>_. 16), noise_dhstate_new_by_id = (0, ()),
     noise_dhstate_set_keypair_private = (\<lambda>d k. (0, d)), noise_dhstate_get_public_key = (\<lambda>d. (0, []))\<rparr>"

theorem noise_roundtrip_witness:
  "\<exists>tx' ct'. noise_encrypt_message demo_lib () [1, 2, 3] (replicate 40 0) = Some (err_SUCCESS, tx', ct', 35) \<and>
    (\<exists>rx' mem'. noise_decrypt_message_inplace demo_lib () (take 35 ct') 0 35 = Some (err_SUCCESS, rx', mem', 3) \<and> take 3 mem' = [1, 2, 3])"
proof -
  have p: "paired demo_lib (\<lambda>_ _. True)"
    unfolding paired_def demo_lib_def by (auto intro: exI [of _ "_ @ replicate 16 0"])
  have sz: "sealed_size demo_lib (length [1 :: u8, 2, 3]) = 35"
    by (simp add: sealed_size_def demo_lib_def NOISE_MAX_DATA_SIZE_def NOISE_MAX_PACKET_SIZE_def)
  obtain tx' rx' ct' where e: "noise_encrypt_message demo_lib () [1, 2, 3] (replicate 40 0) = Some (err_SUCCESS, tx', ct', 35)" "length ct' = 40"
      "\<And>mem src dst psize. buffers_ok mem src 35 dst psize \<Longrightarrow> mem_read mem src 35 = take 35 ct' \<Longrightarrow>
         \<exists>mem'. noise_decrypt_message demo_lib () mem src 35 dst psize = Some (err_SUCCESS, rx', mem', length [1 :: u8, 2, 3]) \<and>
            mem_read mem' dst (length [1 :: u8, 2, 3]) = [1, 2, 3]"
    using noise_roundtrip [OF p TrueI, of "[1, 2, 3]" "replicate 40 0"] unfolding sz by auto
  have "buffers_ok (take 35 ct') 0 35 0 35" "mem_read (take 35 ct') 0 35 = take 35 ct'" using e(2) by (simp_all add: buffers_ok_def mem_read_def)
  then obtain mem' where "noise_decrypt_message demo_lib () (take 35 ct') 0 35 0 35 = Some (err_SUCCESS, rx', mem', 3)" "take 3 mem' = [1, 2, 3]"
    using e(3) [of "take 35 ct'" 0 0 35] by (auto simp: mem_read_def numeral_3_eq_3)
  then show ?thesis using e(1) unfolding noise_decrypt_message_inplace_def by blast
qed



subsection \<open>The hash table\<close>

text \<open>
  C28. \<open>ohtable_put\<close> on a well-formed table returns. A full table (more than 98%) is refused and left alone. Otherwise the record
  is bound to its key in the map of the table, all other bindings stay, and the table is well-formed; the only other
  outcome is the exhaustion of a stash of the ORAM. If no record was displaced, the table still knows a bound on the
  distance of every record from home.
\<close>

theorem ohtable_put_correct:
  assumes "ohtable_ok pr nb oh" "length r = 7" "r ! 0 \<noteq> UINT64_MAX"
  shows "\<exists>err oh' rnd'. ohtable_put pr oh r rnd = Some (err, oh', rnd') \<and>
    (if is_full oh then err = err_OHTABLE__TABLE_FULL \<and> oh' = oh
     else if err = err_SUCCESS then ohtable_ok pr nb oh' \<and> oh_map nb oh' = (oh_map nb oh)(r ! 0 \<mapsto> r) \<and>
       (covered nb oh \<and> oh_temp_record oh' = r \<longrightarrow> covered nb oh')
     else err = err_ORAM__STASH_EXHAUSTION \<and> \<not> oram_room pr nb (oh_oram oh))"
proof (cases "is_full oh")
  case False
  then show ?thesis using ohtable_put_result [OF assms False, of rnd] by (metis (no_types, lifting))
qed (simp add: ohtable_put_def)

theorem ohtable_put_correct_witness:
  "\<exists>err oh' rnd'. ohtable_put demo_params demo_ohtable (replicate 7 1) (sconst 0) = Some (err, oh', rnd') \<and>
     err = err_SUCCESS \<and> oh_map 2 oh' = [1 \<mapsto> replicate 7 1]"
  using ohtable_put_correct [OF demo_ohtable(1), of "replicate 7 1" "sconst 0"] demo_ohtable(2,4) demo_oram_room demo_not_full
  by (auto split: if_splits)

text \<open>
  C29. \<open>ohtable_get\<close> leaves the map of a table as it is, and gives the record of a key that the table has, when no record
  is farther from home than \<open>max_offset\<close>. For a key that the table does not have it gives a record of \<open>UINT64_MAX\<close> words if
  one of the scanned slots is empty; otherwise the caller's buffer is not written.
\<close>

theorem ohtable_get_correct:
  assumes "ohtable_ok pr nb oh" "length r = 7" "k \<noteq> UINT64_MAX"
  shows "\<exists>err out oh' rnd'. ohtable_get pr oh k r rnd = Some (err, out, oh', rnd') \<and>
    (if err = err_SUCCESS
     then ohtable_ok pr nb oh' \<and> oh_map nb oh' = oh_map nb oh \<and> (covered nb oh' \<longleftrightarrow> covered nb oh) \<and>
       (case oh_map nb oh k of
          Some x \<Rightarrow> covered nb oh \<longrightarrow> out = x
        | None \<Rightarrow> out = (if \<exists>i < scan_length nb oh k. rec_key (slots_of nb (oh_oram oh) ((home (24 * nb) k + i) mod (24 * nb))) = UINT64_MAX
                         then replicate 7 UINT64_MAX else r))
     else err = err_ORAM__STASH_EXHAUSTION \<and> \<not> oram_room pr nb (oh_oram oh))"
proof -
  obtain err out oh' rnd' where g: "ohtable_get pr oh k r rnd = Some (err, out, oh', rnd')"
      "if err = err_SUCCESS then ohtable_ok pr nb oh' \<and> oh_map nb oh' = oh_map nb oh \<and> (covered nb oh' \<longleftrightarrow> covered nb oh) \<and>
         out = (case first_hit (24 * nb) (home (24 * nb)) (slots_of nb (oh_oram oh)) k (scan_length nb oh k) of None \<Rightarrow> r | Some x \<Rightarrow> x)
       else err = err_ORAM__STASH_EXHAUSTION"
      "oram_room pr nb (oh_oram oh) \<longrightarrow> err = err_SUCCESS \<and> oram_room pr nb (oh_oram oh')"
    using ohtable_get_result [OF assms(1,2), of k rnd] by blast
  then show ?thesis
    using lookup_present [OF assms(1), of k] lookup_absent_eq [OF assms(1) _ assms(3)] by (cases "oh_map nb oh k") (auto split: if_splits)
qed

theorem ohtable_get_correct_witness:
  "\<exists>oh err out oh' rnd'. oh_map 2 oh = [1 \<mapsto> replicate 7 1] \<and>
     ohtable_get demo_params oh 1 (replicate 7 0) (sconst 0) = Some (err, out, oh', rnd') \<and> err = err_SUCCESS \<and> out = replicate 7 1"
proof -
  obtain oh where "ohtable_ok demo_params 2 oh" "oh_map 2 oh = [1 \<mapsto> replicate 7 1]" "covered 2 oh" "oram_room demo_params 2 (oh_oram oh)"
    using demo_singleton by blast
  then show ?thesis using ohtable_get_correct [of demo_params 2 oh "replicate 7 0" 1 "sconst 0"] by (auto split: if_splits)
qed



text \<open>
  C31. A slot of an insertion that swaps the carried record for the stored one sets the noted maximal offset to the offset of
  the carried record, even if a larger offset had been noted in this insertion.
\<close>

theorem max_offset_overwritten:
  assumes "length d = 168" "i < 24" "length (ra_in_record a) = 7" "\<not> ra_insert_complete a" "ra_start_index a \<le> of_nat i"
    and "rec_key (record_at d i) \<noteq> UINT64_MAX" "rec_key (record_at d i) \<noteq> rec_key (ra_in_record a)"
    and "jump_smaller a (rec_key (record_at d i))"
  shows "ra_max_offset (fst (snd (robinhood_slot i (d, a, ins)))) = ra_curr_jump a"
  unfolding robinhood_slot_swap [OF assms] by simp

theorem max_offset_overwritten_witness:
  "ra_max_offset demo_args = 9 \<and> ra_max_offset (fst (snd (robinhood_slot 23 (replicate 168 18, demo_args, True)))) = 5"
proof -
  have "distance_to_hash 48 (j_ct_mod (raw_hash 18) 48 6148914691236517206 1 5) 23 = 0" by code_simp
  then have "jump_smaller demo_args 18" by (simp add: jump_smaller_def slot_hash_def demo_args_def)
  then show ?thesis using max_offset_overwritten [of "replicate 168 18" 23 demo_args True] by (simp add: demo_args_def record_at_blank)
qed

subsection \<open>Shards\<close>

text \<open>
  C8. However any number of threads that run a shard, stop it, wait for it and submit requests are interleaved: the checks on
  the queue, on the next request and on the state of the worker do not fail; the shard has at most one worker, and none exactly
  when it is idle; a thread that waits finds that its request was served, or the request is in the queue or with the worker;
  and as long as a stop has not been served there is a worker to serve it. A batch that exceeds its buffer is undefined in C; its worker takes no further step.
\<close>

theorem shard_worker_safe:
  assumes "shard_ready shard" "shard_reachable pr shard rnd s"
  shows "\<not> ss_failed s \<and>
    (\<forall>t t'. working (ss_threads s t) \<and> working (ss_threads s t') \<longrightarrow> t = t') \<and>
    (sh_running (ss_shard s) = SHARD_WORKER_IDLE \<longleftrightarrow> (\<forall>t. \<not> working (ss_threads s t))) \<and>
    (\<forall>t r. ss_threads s t = Some (Stop_wait r) \<or> ss_threads s t = Some (Wait_wait r) \<longrightarrow>
      (\<exists>req. ss_memory s r = Some req \<and> (rq_wait req = Some True \<or>
        Some r \<in> set (queue_list (sh_requests (ss_shard s))) \<or> (\<exists>w. ss_threads s w = Some (Run_handle r))))) \<and>
    (\<forall>r req. ss_memory s r = Some req \<and> rq_type req = shard_request_stop \<and> rq_wait req = Some False \<longrightarrow>
      (\<exists>t. working (ss_threads s t)) \<and> sh_running (ss_shard s) = SHARD_WORKER_STOPPING)"
proof (intro conjI allI impI)
  fix t r
  assume "ss_threads s t = Some (Stop_wait r) \<or> ss_threads s t = Some (Wait_wait r)"
  then show "\<exists>req. ss_memory s r = Some req \<and> (rq_wait req = Some True \<or>
      Some r \<in> set (queue_list (sh_requests (ss_shard s))) \<or> (\<exists>w. ss_threads s w = Some (Run_handle r)))"
    using shard_reachable_waits [OF assms(2,1), of t r] by auto
next
  fix r req
  assume "ss_memory s r = Some req \<and> rq_type req = shard_request_stop \<and> rq_wait req = Some False"
  then show "\<exists>t. working (ss_threads s t)" "sh_running (ss_shard s) = SHARD_WORKER_STOPPING"
    using shard_reachable_stop [OF assms(2,1), of r req] by auto
qed (use shard_reachable_worker [OF assms(2,1)] in blast)+

theorem shard_worker_safe_witness:
  "\<exists>s. shard_reachable demo_params demo_shard (sconst 0) s \<and> sh_running (ss_shard s) = SHARD_WORKER_RUNNING \<and> \<not> ss_failed s"
proof -
  define s where "s = ss_goto 0 Run_start (ss_running SHARD_WORKER_RUNNING (ss_start demo_shard (sconst 0)))"
  have "run_step demo_params (ss_start demo_shard (sconst 0)) s"
    unfolding s_def by (rule run_step.claim) (simp_all add: ss_start_def demo_shard_def)
  then have r: "shard_reachable demo_params demo_shard (sconst 0) s"
    by (rule shard_reachable.step [OF shard_reachable.start shard_step.run])
  have "\<not> ss_failed s" using shard_worker_safe [OF demo_shard_ready r] by (elim conjE)
  moreover have "sh_running (ss_shard s) = SHARD_WORKER_RUNNING" by (simp add: s_def ss_goto_def ss_running_def)
  ultimately show ?thesis using r by (intro exI [of _ s] conjI)
qed



text \<open>
  C11. Destroying a shard marks every request that is still in its queue as failed for this reason and releases its waiter,
  and leaves all others alone.
\<close>

theorem shard_destroy_correct:
  assumes "queue_inv (sh_requests shard)" "queue_list (sh_requests shard) = map Some rs" "distinct rs"
  shows "shard_destroy shard mem r = (if r \<in> set rs
    then map_option (\<lambda>req. req\<lparr>rq_err := err_SHARD__DESTROYING, rq_wait := map_option (\<lambda>_. True) (rq_wait req)\<rparr>) (mem r) else mem r)"
proof -
  have "destroyed = (\<lambda>req. req\<lparr>rq_err := err_SHARD__DESTROYING, rq_wait := map_option (\<lambda>_. True) (rq_wait req)\<rparr>)"
    by (rule ext) (simp add: destroyed_def)
  then show ?thesis using shard_destroy_result [OF assms, of mem r] by simp
qed

theorem shard_destroy_correct_witness:
  "\<exists>q. queue_list q = [Some 4] \<and>
    map_option rq_err (shard_destroy (demo_shard\<lparr>sh_requests := q\<rparr>) [4 \<mapsto> shard_clear] 4) = Some err_SHARD__DESTROYING"
proof -
  obtain q :: "nat queue" and err cs where q: "queue_add_item queue_create (Some 4) = Returns q err cs" "err = err_SUCCESS"
    by (simp add: queue_add_item_def add_item_loop_def queue_create_def Let_def)
  have "add_item_loop queue_create (Some 4) = Returns q err cs"
    using trans [OF add_enters [OF queue_create_inv(1), symmetric] q(1)] .
  note a = add_returnsD(1,3) [OF queue_create_inv(1) this]
  have "queue_list q = map Some [4]" using a(2) q(2) queue_create_inv(2) by simp
  then show ?thesis
    using shard_destroy_correct [of "demo_shard\<lparr>sh_requests := q\<rparr>" "[4]" "[4 \<mapsto> shard_clear]" 4] a(1) by auto
qed

subsection \<open>Protocol buffers\<close>

text \<open>
  C32. For generated code that reads back the fields it writes, a message encoded into a buffer with a byte to spare and decoded
  on a heap with room for it is the message again, and both report the length of its encoding.
\<close>

theorem pb_message_round_trip:
  assumes "message_codec enc dec init bytes need" "0 \<le> need m"
    and "length buf = n" "length (bytes m) < n" "n \<le> INT_MAX" and "heap_ok h" "need m \<le> hp_size h - hp_pos h"
  shows "\<exists>buf' h'. pbtools_message_encode m buf (of_nat n) enc = Some (int (length (bytes m)), buf') \<and>
    pbtools_message_decode init h buf' (of_nat (length (bytes m))) dec = Some (int (length (bytes m)), m, h')"
  using message_round_trip [OF assms] .

theorem pb_message_round_trip_witness:
  "\<exists>n buf' h'. pbtools_message_encode 300 (replicate 32 0) 32 one_field_encode_inner = Some (n, buf') \<and>
    pbtools_message_decode 0 \<lparr>hp_buf = 4096, hp_size = 64, hp_pos = 16\<rparr> buf' (of_int n) one_field_decode_inner = Some (n, 300, h')"
proof -
  define buf :: "u8 list" where "buf = replicate 32 0"
  define h where "h = \<lparr>hp_buf = 4096, hp_size = 64, hp_pos = 16\<rparr>"
  have "length (one_field_bytes 300) < 32"
    using length_tag_bytes [of 1 0] length_varint_bytes [of 300] by (simp add: one_field_bytes_def varint_field_def)
  then obtain buf' h' where "pbtools_message_encode 300 buf (of_nat 32) one_field_encode_inner = Some (int (length (one_field_bytes 300)), buf')"
      "pbtools_message_decode 0 h buf' (of_nat (length (one_field_bytes 300))) one_field_decode_inner =
        Some (int (length (one_field_bytes 300)), 300, h')"
    using pb_message_round_trip [OF one_field_codec, where m = 300 and buf = buf and n = 32 and h = h]
    by (auto simp: heap_ok_def buf_def h_def)
  then show ?thesis
    unfolding buf_def h_def
    by (intro exI [of _ "int (length (one_field_bytes 300))"] exI [of _ buf'] exI [of _ h']) simp
qed



text \<open>
  C34. For every scalar type the encoder writes a field as its tag and value, or not at all when it has its default and is
  not forced, and from these bytes the decoder reads the number of the field, its wire type and the value.
\<close>

theorem pb_fields_round_trip:
  "field_codec pbtools_encoder_write_int32 pbtools_encoder_write_int32_always pbtools_decoder_read_int32 (\<lambda>x. varint_bytes (scast x)) 0 0 \<and>
     field_codec pbtools_encoder_write_int64 pbtools_encoder_write_int64_always pbtools_decoder_read_int64 (\<lambda>x. varint_bytes x) 0 0 \<and>
     field_codec pbtools_encoder_write_sint32 pbtools_encoder_write_sint32_always pbtools_decoder_read_sint32 (\<lambda>x. varint_bytes (sint64_encode (scast x))) 0 0 \<and>
     field_codec pbtools_encoder_write_sint64 pbtools_encoder_write_sint64_always pbtools_decoder_read_sint64 (\<lambda>x. varint_bytes (sint64_encode x)) 0 0 \<and>
     field_codec pbtools_encoder_write_uint32 pbtools_encoder_write_uint32_always pbtools_decoder_read_uint32 (\<lambda>x. varint_bytes (ucast x)) 0 0 \<and>
     field_codec pbtools_encoder_write_uint64 pbtools_encoder_write_uint64_always pbtools_decoder_read_uint64 (\<lambda>x. varint_bytes x) 0 0 \<and>
     field_codec pbtools_encoder_write_enum pbtools_encoder_write_enum_always pbtools_decoder_read_enum (\<lambda>x. varint_bytes (scast x)) 0 0 \<and>
     field_codec pbtools_encoder_write_bool pbtools_encoder_write_bool_always pbtools_decoder_read_bool (\<lambda>x. varint_bytes (if x then 1 else 0)) 0 False \<and>
     field_codec pbtools_encoder_write_fixed32 pbtools_encoder_write_fixed32_always pbtools_decoder_read_fixed32 (\<lambda>x. fixed32_bytes x) 5 0 \<and>
     field_codec pbtools_encoder_write_sfixed32 pbtools_encoder_write_sfixed32_always pbtools_decoder_read_sfixed32 (\<lambda>x. fixed32_bytes x) 5 0 \<and>
     field_codec pbtools_encoder_write_float pbtools_encoder_write_float_always pbtools_decoder_read_float (\<lambda>x. fixed32_bytes x) 5 0 \<and>
     field_codec pbtools_encoder_write_fixed64 pbtools_encoder_write_fixed64_always pbtools_decoder_read_fixed64 (\<lambda>x. fixed64_bytes x) 1 0 \<and>
     field_codec pbtools_encoder_write_sfixed64 pbtools_encoder_write_sfixed64_always pbtools_decoder_read_sfixed64 (\<lambda>x. fixed64_bytes x) 1 0 \<and>
     field_codec pbtools_encoder_write_double pbtools_encoder_write_double_always pbtools_decoder_read_double (\<lambda>x. fixed64_bytes x) 1 0"
  by (intro conjI field_codecs)

text \<open>
  C35. For every scalar type a repeated field is written as one packed field; the first pass over it counts its items and goes
  behind it, and the second pass, on a heap with room for the array, yields the items.
\<close>

theorem pb_repeated_round_trip:
  "packed_codec pbtools_encoder_write_repeated_int32 pbtools_repeated_info_decode_int32 pbtools_decoder_decode_repeated_int32 (\<lambda>x. varint_bytes (scast x)) 4 \<and>
     packed_codec pbtools_encoder_write_repeated_int64 pbtools_repeated_info_decode_int64 pbtools_decoder_decode_repeated_int64 varint_bytes 8 \<and>
     packed_codec pbtools_encoder_write_repeated_uint32 pbtools_repeated_info_decode_uint32 pbtools_decoder_decode_repeated_uint32 (\<lambda>x. varint_bytes (ucast x)) 4 \<and>
     packed_codec pbtools_encoder_write_repeated_uint64 pbtools_repeated_info_decode_uint64 pbtools_decoder_decode_repeated_uint64 varint_bytes 8 \<and>
     packed_codec pbtools_encoder_write_repeated_sint32 pbtools_repeated_info_decode_sint32 pbtools_decoder_decode_repeated_sint32 (\<lambda>x. varint_bytes (ucast (sint32_encode x))) 4 \<and>
     packed_codec pbtools_encoder_write_repeated_sint64 pbtools_repeated_info_decode_sint64 pbtools_decoder_decode_repeated_sint64 (\<lambda>x. varint_bytes (sint64_encode x)) 8 \<and>
     packed_codec pbtools_encoder_write_repeated_bool pbtools_repeated_info_decode_bool pbtools_decoder_decode_repeated_bool (\<lambda>b. varint_bytes (if b then 1 else 0)) 1 \<and>
     packed_codec pbtools_encoder_write_repeated_fixed32 pbtools_repeated_info_decode_fixed32 pbtools_decoder_decode_repeated_fixed32 fixed32_bytes 4 \<and>
     packed_codec pbtools_encoder_write_repeated_sfixed32 pbtools_repeated_info_decode_sfixed32 pbtools_decoder_decode_repeated_sfixed32 fixed32_bytes 4 \<and>
     packed_codec pbtools_encoder_write_repeated_float pbtools_repeated_info_decode_float pbtools_decoder_decode_repeated_float fixed32_bytes 4 \<and>
     packed_codec pbtools_encoder_write_repeated_fixed64 pbtools_repeated_info_decode_fixed64 pbtools_decoder_decode_repeated_fixed64 fixed64_bytes 8 \<and>
     packed_codec pbtools_encoder_write_repeated_sfixed64 pbtools_repeated_info_decode_sfixed64 pbtools_decoder_decode_repeated_sfixed64 fixed64_bytes 8 \<and>
     packed_codec pbtools_encoder_write_repeated_double pbtools_repeated_info_decode_double pbtools_decoder_decode_repeated_double fixed64_bytes 8"
  by (intro conjI packed_codecs)

text \<open>
  C36. On arbitrary bytes every operation of the decoder returns, reads only inside of the message, and leaves the decoder
  further inside of it or failed; a string or bytes that the heap has no room for make it fail.
\<close>

theorem pb_decoder_safe:
  assumes "decoder_ok d" "heap_ok h"
  shows "safe pbtools_decoder_read_tag \<and> safe (\<lambda>d. pbtools_decoder_skip_field d wt \<bind> (\<lambda>d. Some ((), d))) \<and>
    safe (\<lambda>d. pbtools_decoder_read_int32 d wt) \<and>
    safe (\<lambda>d. pbtools_decoder_read_int64 d wt) \<and>
    safe (\<lambda>d. pbtools_decoder_read_sint32 d wt) \<and>
    safe (\<lambda>d. pbtools_decoder_read_sint64 d wt) \<and>
    safe (\<lambda>d. pbtools_decoder_read_uint32 d wt) \<and>
    safe (\<lambda>d. pbtools_decoder_read_uint64 d wt) \<and>
    safe (\<lambda>d. pbtools_decoder_read_bool d wt) \<and>
    safe (\<lambda>d. pbtools_decoder_read_enum d wt) \<and>
    safe (\<lambda>d. pbtools_decoder_read_fixed32 d wt) \<and>
    safe (\<lambda>d. pbtools_decoder_read_sfixed32 d wt) \<and>
    safe (\<lambda>d. pbtools_decoder_read_float d wt) \<and>
    safe (\<lambda>d. pbtools_decoder_read_fixed64 d wt) \<and>
    safe (\<lambda>d. pbtools_decoder_read_sfixed64 d wt) \<and>
    safe (\<lambda>d. pbtools_decoder_read_double d wt) \<and>
    (\<exists>b d' h'. pbtools_decoder_read_bytes d h wt = Some (b, d', h') \<and> moved d d' \<and> heap_ok h' \<and>
       (case by_buf b of None \<Rightarrow> de_pos d' < 0 \<and> h' = h | Some buf \<Rightarrow> length buf = unat (by_size b))) \<and>
    (\<exists>s d' h'. pbtools_decoder_read_string d h wt = Some (s, d', h') \<and> moved d d' \<and> heap_ok h' \<and>
       (case s of None \<Rightarrow> de_pos d' < 0 \<and> h' = h | Some buf \<Rightarrow> last buf = 0))"
  using read_bytes_safe [OF assms, of wt] read_string_safe [OF assms, of wt]
  by (intro conjI read_tag_safe skip_field_safe read_fields_safe read_fixed_fields_safe) simp_all

theorem pb_decoder_safe_witness:
  "\<exists>b d' h'. pbtools_decoder_read_bytes (decoder_init [200, 1, 7] 3) \<lparr>hp_buf = 4096, hp_size = 64, hp_pos = 16\<rparr> 2 = Some (b, d', h')"
proof -
  have "decoder_ok (decoder_init [200, 1, 7] 3)"
    by (intro decoder_init_ok) simp_all
  then show ?thesis
    using pb_decoder_safe [of "decoder_init [200, 1, 7] 3" "\<lparr>hp_buf = 4096, hp_size = 64, hp_pos = 16\<rparr>" 2] by (auto simp: heap_ok_def)
qed


text \<open>
  C38. A packed field of 32-bit values whose length is no multiple of four is counted without its incomplete item, but the second
  pass stores that item behind the end of the array.
\<close>

theorem pb_fixed32_overrun:
  assumes "ahead d (length_prefixed bs)" "length bs < INT_MAX" "4 < length bs" "length bs mod 4 \<noteq> 0" "ri_length info = 0"
    and "heap_ok h" "int (length bs) + 7 \<le> hp_size h - hp_pos h"
  shows "\<exists>info'. pbtools_repeated_info_decode_fixed32 info d PBTOOLS_WIRE_TYPE_LENGTH_DELIMITED = Some (info', advance d (length_prefixed bs)) \<and>
    ri_length info' = int (length bs div 4) \<and> pbtools_decoder_decode_repeated_fixed32 d2 h info' rep = None"
  using first_pass_32bit [OF assms(1,2,5)] fixed32_overrun [OF assms(1-4,6,7), of d2 info rep]
  by (simp add: pbtools_repeated_info_decode_fixed32_def) (simp add: first_pass_def)

theorem pb_fixed32_overrun_witness:
  "\<exists>d info'. pbtools_repeated_info_decode_fixed32 \<lparr>ri_decoder = d, ri_wire_type = 0, ri_length = 0, ri_tag = 1\<rparr> d 2 =
      Some (info', advance d (length_prefixed [1, 2, 3, 4, 5])) \<and> ri_length info' = 1 \<and>
    pbtools_decoder_decode_repeated_fixed32 d \<lparr>hp_buf = 4096, hp_size = 64, hp_pos = 16\<rparr> info' \<lparr>rep_length = 0, rep_items = []\<rparr> = None"
proof -
  define bs where "bs = length_prefixed [1, 2, 3, 4, 5]"
  define d where "d = decoder_init bs (of_nat (length bs))"
  have "length bs \<le> INT_MAX"
    using length_varint_bytes [of 5] by (simp add: bs_def length_prefixed_def)
  then have "ahead d (length_prefixed [1, 2, 3, 4, 5])"
    using decoder_init_ahead(1) [of bs bs] by (simp add: d_def bs_def)
  then show ?thesis
    using pb_fixed32_overrun [of d "[1, 2, 3, 4, 5]" "\<lparr>ri_decoder = d, ri_wire_type = 0, ri_length = 0, ri_tag = 1\<rparr>"
        "\<lparr>hp_buf = 4096, hp_size = 64, hp_pos = 16\<rparr>" d "\<lparr>rep_length = 0, rep_items = []\<rparr>"]
    by (auto simp: heap_ok_def)
qed

text \<open>
  C39. An allocation gives an aligned block inside of the heap that lies behind all earlier ones and before all later ones, or
  leaves the heap alone when the block, aligned at worst, does not fit.
\<close>

theorem pb_heap_alloc_correct:
  assumes "heap_ok h" "uint n + (2 ^ k - 1) \<le> int INT_MAX"
  shows "case heap_alloc h n (2 ^ k) of
     (None, h') \<Rightarrow> h' = h \<and> hp_size h - hp_pos h < uint n + (2 ^ k - 1)
   | (Some addr, h') \<Rightarrow> heap_ok h' \<and> hp_buf h' = hp_buf h \<and> hp_size h' = hp_size h \<and> 2 ^ k dvd uint addr \<and>
       uint (hp_buf h) + hp_pos h \<le> uint addr \<and> uint addr + uint n = uint (hp_buf h) + hp_pos h' \<and> heap_holds h' addr n"
  using heap_alloc_cases [OF assms] allocated_holds [OF assms(1), of n "2 ^ k"] by (auto simp: allocated_def)

theorem pb_heap_alloc_correct_witness:
  "case heap_alloc \<lparr>hp_buf = 4096, hp_size = 64, hp_pos = 17\<rparr> 8 8 of (None, h') \<Rightarrow> False | (Some addr, h') \<Rightarrow> 8 dvd uint addr \<and> heap_ok h'"
  using pb_heap_alloc_correct [of "\<lparr>hp_buf = 4096, hp_size = 64, hp_pos = 17\<rparr>" 8 3] by (auto simp: heap_ok_def split: prod.splits option.splits)

end
